(* ===== verification/Kmon_Prelude.thy ===== *)
theory Kmon_Prelude
  imports Main "HOL-Library.Word"
begin

text \<open>
  Shared vocabulary of the development: the machine integers of the C code, its error numbers,
  the collections of simplification rules the component theories extend, and the generic facts on
  lists, options and maps that more than one component uses.
\<close>

unbundle bit_operations_syntax

section \<open>Machine integers\<close>

type_synonym u8 = "8 word"
type_synonym u16 = "16 word"
type_synonym u32 = "32 word"
type_synonym u64 = "64 word"

text \<open>Low and high half of the value of \<open>bpf_get_current_pid_tgid()\<close>, as the programs split it.\<close>

definition hi32 :: "u64 \<Rightarrow> u32" where
  "hi32 x = ucast (drop_bit 32 x)"

definition lo32 :: "u64 \<Rightarrow> u32" where
  "lo32 x = ucast x"

definition join32 :: "u32 \<Rightarrow> u32 \<Rightarrow> u64" where
  "join32 hi lo = or (push_bit 32 (ucast hi)) (ucast lo)"

lemma hi32_join32 [simp]: "hi32 (join32 h l) = h"
  by (rule bit_word_eqI) (auto simp: hi32_def join32_def bit_simps dest: bit_imp_le_length)

lemma lo32_join32 [simp]: "lo32 (join32 h l) = l"
  by (rule bit_word_eqI) (auto simp: lo32_def join32_def bit_simps dest: bit_imp_le_length)

section \<open>Error numbers\<close>

text \<open>
  The values of \<open>errno.h\<close> on Linux that the code returns. A C function that returns a negated error
  number is modelled by a function into \<open>int\<close> or by a sum whose left side is that number.
\<close>

abbreviation (input) ESRCH :: int where "ESRCH \<equiv> 3"
abbreviation (input) EBADF :: int where "EBADF \<equiv> 9"
abbreviation (input) EFAULT :: int where "EFAULT \<equiv> 14"
abbreviation (input) ENOENT :: int where "ENOENT \<equiv> 2"
abbreviation (input) ENOMEM :: int where "ENOMEM \<equiv> 12"
abbreviation (input) EEXIST :: int where "EEXIST \<equiv> 17"
abbreviation (input) EINVAL :: int where "EINVAL \<equiv> 22"
abbreviation (input) E2BIG :: int where "E2BIG \<equiv> 7"
abbreviation (input) ELOOP :: int where "ELOOP \<equiv> 40"
abbreviation (input) ENOTSUP :: int where "ENOTSUP \<equiv> 95"

section \<open>Rule collections\<close>

named_theorems handler_defs \<open>definitions of the event handlers and of the map operations\<close>
named_theorems map_laws \<open>what a lookup returns after each map operation\<close>
named_theorems layout_simps \<open>byte level layout of the C structures\<close>

section \<open>Generic facts\<close>

lemma foldl_invariant:
  "P s \<Longrightarrow> (\<And>s e. P s \<Longrightarrow> P (f s e)) \<Longrightarrow> P (foldl f s es)"
  by (induction es arbitrary: s) auto

lemma foldl_frame:
  "(\<And>s e. g (f s e) = g s) \<Longrightarrow> g (foldl f s es) = g s"
  by (induction es arbitrary: s) auto

lemma nth_list_update_cases:
  "i < length xs \<Longrightarrow> xs[j := x] ! i = (if i = j then x else xs ! i)"
  by simp

lemma of_nat_Suc_word: "(of_nat (Suc n) :: 'a::len word) = of_nat n + 1"
  by (simp add: add.commute)

lemma unat_of_nat_small: "n < 2 ^ LENGTH('a::len) \<Longrightarrow> unat (of_nat n :: 'a word) = n"
  by (simp add: unsigned_of_nat take_bit_nat_eq_self)

end
