(* ===== verification/Bpf_Runtime.thy ===== *)
theory Bpf_Runtime
  imports Kmon_Prelude
begin

text \<open>
  The runtime the BPF programs are written against: hash maps shared with user space, reached through
  the helpers \<open>bpf_map_lookup_elem\<close>, \<open>bpf_map_update_elem\<close> (flag \<open>BPF_ANY\<close>) and
  \<open>bpf_map_delete_elem\<close>, or through the BCC methods of the same meaning. A map is its content, a
  finite partial function from keys to values. Whether the kernel has room for a new key (the map's
  capacity, memory) is the kernel's decision: it is the parameter \<open>refuse\<close> of every operation that
  may insert, and nothing is assumed about it. A pointer returned by a lookup points into the map, so
  writing through it is \<open>map_store\<close>.
\<close>

section \<open>Map operations\<close>

type_synonym ('k, 'v) bpf_map = "'k \<rightharpoonup> 'v"
type_synonym ('k, 'v) refusal = "('k, 'v) bpf_map \<Rightarrow> 'k \<Rightarrow> bool"

definition map_lookup :: "('k, 'v) bpf_map \<Rightarrow> 'k \<Rightarrow> 'v option" where
  "map_lookup m k = m k"

definition map_update :: "('k, 'v) refusal \<Rightarrow> ('k, 'v) bpf_map \<Rightarrow> 'k \<Rightarrow> 'v \<Rightarrow> ('k, 'v) bpf_map" where
  "map_update refuse m k v = (if m k = None \<and> refuse m k then m else m(k \<mapsto> v))"

definition map_delete :: "('k, 'v) bpf_map \<Rightarrow> 'k \<Rightarrow> ('k, 'v) bpf_map" where
  "map_delete m k = m(k := None)"

definition map_store :: "('k, 'v) bpf_map \<Rightarrow> 'k \<Rightarrow> 'v \<Rightarrow> ('k, 'v) bpf_map" where
  "map_store m k v = (case m k of None \<Rightarrow> m | Some _ \<Rightarrow> m(k \<mapsto> v))"

text \<open>The BCC methods \<open>lookup_or_try_init\<close> and \<open>increment\<close>.\<close>

definition map_try_init :: "('k, 'v) refusal \<Rightarrow> ('k, 'v) bpf_map \<Rightarrow> 'k \<Rightarrow> 'v \<Rightarrow> ('k, 'v) bpf_map" where
  "map_try_init refuse m k v = (case m k of None \<Rightarrow> map_update refuse m k v | Some _ \<Rightarrow> m)"

definition map_increment ::
  "('k, 'v::monoid_add) refusal \<Rightarrow> ('k, 'v) bpf_map \<Rightarrow> 'k \<Rightarrow> 'v \<Rightarrow> ('k, 'v) bpf_map" where
  "map_increment refuse m k d =
     (case m k of None \<Rightarrow> map_update refuse m k d | Some c \<Rightarrow> map_store m k (c + d))"

text \<open>The kernel's division: a program that divides by zero gets zero.\<close>

definition bpf_div :: "u64 \<Rightarrow> u64 \<Rightarrow> u64" where
  "bpf_div x y = (if y = 0 then 0 else x div y)"

section \<open>What the programs rely on\<close>

text \<open>
  The contract of a map as its clients use it. \<open>lookup\<close> sees the last write to a key unless the
  write was refused, and a write to one key never changes another.
\<close>

locale bpf_hash_map =
  fixes lookup :: "'m \<Rightarrow> 'k \<Rightarrow> 'v option"
    and update :: "'m \<Rightarrow> 'k \<Rightarrow> 'v \<Rightarrow> 'm"
    and delete :: "'m \<Rightarrow> 'k \<Rightarrow> 'm"
    and store :: "'m \<Rightarrow> 'k \<Rightarrow> 'v \<Rightarrow> 'm"
  assumes update_other: "k' \<noteq> k \<Longrightarrow> lookup (update m k v) k' = lookup m k'"
    and update_same: "lookup (update m k v) k = Some v
          \<or> (lookup m k = None \<and> lookup (update m k v) k = None)"
    and delete_lookup: "lookup (delete m k) k' = (if k' = k then None else lookup m k')"
    and store_lookup: "lookup (store m k v) k' =
          (if k' = k \<and> lookup m k \<noteq> None then Some v else lookup m k')"
begin

lemma update_known: "lookup m k \<noteq> None \<Longrightarrow> lookup (update m k v) k = Some v"
  using update_same [of m k v] by auto

lemma update_delete_gone: "lookup (delete (update m k v) k) k = None"
  by (simp add: delete_lookup)

lemma update_range:
  "lookup (update m k v) k' = Some w \<Longrightarrow> w = v \<and> k' = k \<or> lookup m k' = Some w"
  using update_same [of m k v] update_other [of k' k m v] by (cases "k' = k") auto

lemma store_range:
  "lookup (store m k v) k' = Some w \<Longrightarrow> w = v \<and> k' = k \<or> lookup m k' = Some w"
  by (auto simp: store_lookup split: if_splits)

lemma store_defined: "lookup (store m k v) k' = None \<longleftrightarrow> lookup m k' = None"
  by (auto simp: store_lookup)

lemma delete_range: "lookup (delete m k) k' = Some w \<Longrightarrow> k' \<noteq> k \<and> lookup m k' = Some w"
  by (auto simp: delete_lookup split: if_splits)

end

interpretation bm: bpf_hash_map map_lookup "map_update refuse" map_delete map_store
  for refuse :: "('k, 'v) refusal"
  by unfold_locales
    (auto simp: map_lookup_def map_update_def map_delete_def map_store_def split: option.splits)

lemma map_update_admitted:
  "(map_lookup m k = None \<Longrightarrow> \<not> refuse m k) \<Longrightarrow> map_update refuse m k v = m(k \<mapsto> v)"
  by (auto simp: map_update_def map_lookup_def)

lemma map_try_init_lookup:
  "map_lookup (map_try_init refuse m k v) k' =
     (case map_lookup m k of
        None \<Rightarrow> map_lookup (map_update refuse m k v) k'
      | Some _ \<Rightarrow> map_lookup m k')"
  by (simp add: map_try_init_def map_lookup_def split: option.splits)

lemma map_increment_other:
  "k' \<noteq> k \<Longrightarrow> map_increment refuse m k d k' = m k'"
  by (auto simp: map_increment_def map_update_def map_store_def split: option.splits)

lemma map_increment_same:
  "(m k = None \<Longrightarrow> \<not> refuse m k) \<Longrightarrow>
     map_increment refuse m k d k = Some (case m k of None \<Rightarrow> d | Some c \<Rightarrow> c + d)"
  by (auto simp: map_increment_def map_update_def map_store_def split: option.splits)

lemmas bpf_map_defs [handler_defs] =
  map_lookup_def map_update_def map_delete_def map_store_def map_try_init_def map_increment_def

section \<open>Kernel memory\<close>

text \<open>
  \<open>bpf_probe_read\<close> copies \<open>n\<close> bytes from an address; when any of them cannot be read the
  destination is filled with zeros. Memory is a partial function from addresses to bytes, and it is
  an argument of the handlers: what it holds is the traced system's business. Multi-byte fields are
  little endian, as on the x86 machines the programs are built for (\<open>-D__TARGET_ARCH_x86\<close>).
\<close>

type_synonym kmem = "u64 \<Rightarrow> u8 option"

definition readable :: "kmem \<Rightarrow> u64 \<Rightarrow> nat \<Rightarrow> bool" where
  "readable mem a n = list_all (\<lambda>i. mem (a + of_nat i) \<noteq> None) [0..<n]"

definition mem_bytes :: "kmem \<Rightarrow> u64 \<Rightarrow> nat \<Rightarrow> u8 list" where
  "mem_bytes mem a n = map (\<lambda>i. case mem (a + of_nat i) of None \<Rightarrow> 0 | Some b \<Rightarrow> b) [0..<n]"

definition probe_read :: "kmem \<Rightarrow> u64 \<Rightarrow> nat \<Rightarrow> u8 list" where
  "probe_read mem a n = (if readable mem a n then mem_bytes mem a n else replicate n 0)"

fun le16 :: "u8 list \<Rightarrow> u16" where
  "le16 (b0 # b1 # _) = or (ucast b0) (push_bit 8 (ucast b1))"
| "le16 _ = 0"

fun le32 :: "u8 list \<Rightarrow> u32" where
  "le32 (b0 # b1 # b2 # b3 # _) =
     or (or (ucast b0) (push_bit 8 (ucast b1))) (or (push_bit 16 (ucast b2)) (push_bit 24 (ucast b3)))"
| "le32 _ = 0"

definition le64 :: "u8 list \<Rightarrow> u64" where
  "le64 bs = or (ucast (le32 bs)) (push_bit 32 (ucast (le32 (drop 4 bs))))"

text \<open>\<open>ntohs\<close>: network to host order, a byte swap on a little endian host.\<close>

definition ntohs :: "u16 \<Rightarrow> u16" where
  "ntohs x = or (push_bit 8 x) (drop_bit 8 x)"

lemma length_probe_read [simp]: "length (probe_read mem a n) = n"
  by (simp add: probe_read_def mem_bytes_def)

lemma length_mem_bytes [simp]: "length (mem_bytes mem a n) = n"
  by (simp add: mem_bytes_def)

lemma probe_read_ok: "readable mem a n \<Longrightarrow> probe_read mem a n = mem_bytes mem a n"
  by (simp add: probe_read_def)

lemma readable_total [simp]: "readable (\<lambda>a. Some (f a)) b n"
  by (simp add: readable_def list_all_iff)

lemma mem_bytes_append:
  "mem_bytes mem a (m + n) = mem_bytes mem a m @ mem_bytes mem (a + of_nat m) n"
  by (rule nth_equalityI) (auto simp: mem_bytes_def nth_append add.assoc)

lemma take_mem_bytes: "k \<le> n \<Longrightarrow> take k (mem_bytes mem a n) = mem_bytes mem a k"
  by (simp add: mem_bytes_def take_map)

lemma upt_add: "[0..<m + n] = [0..<m] @ map (\<lambda>i. m + i) [0..<n]"
  by (rule nth_equalityI) (auto simp: nth_append)

lemma readable_append:
  "readable mem a (m + n) \<longleftrightarrow> readable mem a m \<and> readable mem (a + of_nat m) n"
  by (simp only: readable_def upt_add list_all_append list.pred_map comp_def of_nat_add add.assoc)

lemma ntohs_ntohs [simp]: "ntohs (ntohs x) = x"
  by (rule bit_word_eqI) (auto simp: ntohs_def bit_simps)

lemma ntohs_le16:
  "ntohs (le16 (b0 # b1 # bs)) = or (push_bit 8 (ucast b0)) (ucast b1)"
  by (rule bit_word_eqI) (auto simp: ntohs_def bit_simps dest: bit_imp_le_length)

end
