(* ===== verification/Fcount.thy ===== *)
theory Fcount
  imports Bpf_Runtime
begin

text \<open>
  The function counter, \<open>release/bcc/fcount.c\<close>: user space creates one entry per monitored process
  in \<open>data\<close>, the probes on function entry and return count in it.
\<close>

section \<open>Handlers\<close>

record fc_val =
  fc_count :: u64
  fc_ret_count :: u64

type_synonym fc_data = "(u32, fc_val) bpf_map"

definition fcount_begin :: "u64 \<Rightarrow> fc_data \<Rightarrow> fc_data" where
  [handler_defs]: "fcount_begin pid_tgid data =
     (let pid = hi32 pid_tgid in
      case map_lookup data pid of
        None \<Rightarrow> data
      | Some val \<Rightarrow> map_store data pid (val\<lparr>fc_count := fc_count val + 1\<rparr>))"

definition fcount_return :: "u64 \<Rightarrow> fc_data \<Rightarrow> fc_data" where
  [handler_defs]: "fcount_return pid_tgid data =
     (let pid = hi32 pid_tgid in
      case map_lookup data pid of
        None \<Rightarrow> data
      | Some val \<Rightarrow> map_store data pid (val\<lparr>fc_ret_count := fc_ret_count val + 1\<rparr>))"

section \<open>Runs\<close>

datatype fc_event = FcBegin u64 | FcReturn u64

fun fc_step :: "fc_data \<Rightarrow> fc_event \<Rightarrow> fc_data" where
  "fc_step data (FcBegin pt) = fcount_begin pt data"
| "fc_step data (FcReturn pt) = fcount_return pt data"

definition fc_run :: "fc_data \<Rightarrow> fc_event list \<Rightarrow> fc_data" where
  "fc_run = foldl fc_step"

fun fc_is_begin_of :: "u32 \<Rightarrow> fc_event \<Rightarrow> bool" where
  "fc_is_begin_of p (FcBegin pt) = (hi32 pt = p)"
| "fc_is_begin_of p (FcReturn pt) = False"

fun fc_is_return_of :: "u32 \<Rightarrow> fc_event \<Rightarrow> bool" where
  "fc_is_return_of p (FcBegin pt) = False"
| "fc_is_return_of p (FcReturn pt) = (hi32 pt = p)"

lemma fc_step_lookup:
  "fc_step data e p = map_option
     (\<lambda>v. v\<lparr>fc_count := fc_count v + of_bool (fc_is_begin_of p e),
            fc_ret_count := fc_ret_count v + of_bool (fc_is_return_of p e)\<rparr>) (data p)"
  by (cases e) (auto simp: handler_defs Let_def split: option.splits)

text \<open>After any sequence of probe hits, the entry of a process holds its previous counts plus the
  number of its entries and returns in the sequence (modulo \<open>2 ^ 64\<close>), whatever the other processes
  did in between; a process without an entry never gets one.\<close>

theorem fcount_run_counts:
  "fc_run data es p = map_option
     (\<lambda>v. v\<lparr>fc_count := fc_count v + of_nat (length (filter (fc_is_begin_of p) es)),
            fc_ret_count := fc_ret_count v + of_nat (length (filter (fc_is_return_of p) es))\<rparr>)
     (data p)"
proof (induction es arbitrary: data)
  case Nil
  then show ?case by (simp add: fc_run_def map_option.identity option.map_ident_strong)
next
  case (Cons e es)
  then show ?case
    by (simp add: fc_run_def fc_step_lookup option.map_comp comp_def add.assoc add.commute
        add.left_commute)
qed

end
