(* ===== verification/File_Reader.thy ===== *)
theory File_Reader
  imports Bpf_Runtime
begin

text \<open>
  The file reader, \<open>ebpf/src/file_reader.c\<close>: it reports the files a filtered process opens and
  streams what it writes to the descriptors user space listens to. The maps are \<open>pid_filter\<close> (an
  array of process ids), \<open>tmp_map\<close> (the name between entry and return of an open) and \<open>listen_map\<close>;
  the two perf buffers are the lists of what was submitted to them, oldest first.
\<close>

section \<open>State\<close>

definition MAX_FILE_NAME :: nat where "MAX_FILE_NAME = 64"
definition LOG_BLOCK_SIZE :: nat where "LOG_BLOCK_SIZE = 128"
definition MAX_LOG_SIZE :: nat where "MAX_LOG_SIZE = 8192"
definition PID_FILTER_SIZE :: nat where "PID_FILTER_SIZE = 32"

record map_key =
  mk_pid :: u32
  mk_fd :: u32

record open_event =
  oe_pid :: u32
  oe_fd :: u32
  oe_filename :: "u8 list"

record write_event =
  we_pid :: u32
  we_fd :: u32
  we_cur_len :: u64
  we_total_len :: u64
  we_contents :: "u8 list"

record reader_state =
  pid_filter :: "u32 list"
  tmp_map :: "(u32, u8 list) bpf_map"
  listen_map :: "(map_key, u32) bpf_map"
  events_open :: "open_event list"
  events_write :: "write_event list"

text \<open>What a probe sees: the current task, the registers it reads, and memory.\<close>

record reader_ctx =
  rc_pid_tgid :: u64
  rc_parm1 :: u64
  rc_parm2 :: u64
  rc_parm3 :: u64
  rc_ret :: u64
  rc_mem :: kmem

section \<open>Opening a file\<close>

definition array_lookup :: "'a list \<Rightarrow> nat \<Rightarrow> 'a option" where
  "array_lookup arr i = (if i < length arr then Some (arr ! i) else None)"

fun filter_scan :: "u32 list \<Rightarrow> u32 \<Rightarrow> nat list \<Rightarrow> bool" where
  "filter_scan arr pid [] = False"
| "filter_scan arr pid (i # is) =
     (case array_lookup arr i of
        None \<Rightarrow> filter_scan arr pid is
      | Some p \<Rightarrow> pid = p \<or> filter_scan arr pid is)"

definition detect_file_open ::
  "(u32, u8 list) refusal \<Rightarrow> reader_ctx \<Rightarrow> reader_state \<Rightarrow> reader_state" where
  "detect_file_open refuse ctx s =
     (let pid = hi32 (rc_pid_tgid ctx) in
      if filter_scan (pid_filter s) pid [0..<PID_FILTER_SIZE]
      then s\<lparr>tmp_map := map_update refuse (tmp_map s) pid
                         (probe_read (rc_mem ctx) (rc_parm2 ctx) MAX_FILE_NAME)\<rparr>
      else s)"

definition detect_file_open_ret :: "reader_ctx \<Rightarrow> reader_state \<Rightarrow> reader_state" where
  "detect_file_open_ret ctx s =
     (let pid = hi32 (rc_pid_tgid ctx) in
      case map_lookup (tmp_map s) pid of
        None \<Rightarrow> s
      | Some filename \<Rightarrow>
          s\<lparr>events_open := events_open s @
                [\<lparr>oe_pid = pid, oe_fd = lo32 (rc_ret ctx), oe_filename = filename\<rparr>],
            tmp_map := map_delete (tmp_map s) pid\<rparr>)"

section \<open>Writing\<close>

text \<open>
  The loop over \<open>i = 0, 128, \<dots>\<close> of the write probe: it stops at \<open>MAX_LOG_SIZE\<close> or when \<open>i\<close> reaches
  the byte count, and submits one package per round, each with a whole block read at \<open>ptr + i\<close>.
\<close>

function write_loop :: "kmem \<Rightarrow> u64 \<Rightarrow> u64 \<Rightarrow> write_event \<Rightarrow> nat \<Rightarrow> write_event list" where
  "write_loop mem ptr count package i =
     (if \<not> i < MAX_LOG_SIZE then []
      else if count \<le> of_nat i then []
      else
        let package = package\<lparr>we_contents := probe_read mem (ptr + of_nat i) LOG_BLOCK_SIZE,
                              we_cur_len := of_nat i\<rparr>
        in package # write_loop mem ptr count package (i + LOG_BLOCK_SIZE))"
  by pat_completeness auto
termination
  by (relation "measure (\<lambda>(mem, ptr, count, package, i). MAX_LOG_SIZE - i)")
    (auto simp: LOG_BLOCK_SIZE_def)

declare write_loop.simps [simp del]

definition detect_file_write :: "reader_ctx \<Rightarrow> reader_state \<Rightarrow> reader_state" where
  "detect_file_write ctx s =
     (let pid = hi32 (rc_pid_tgid ctx);
          key = \<lparr>mk_pid = pid, mk_fd = lo32 (rc_parm1 ctx)\<rparr>
      in case map_lookup (listen_map s) key of
           None \<Rightarrow> s
         | Some _ \<Rightarrow>
             let count = rc_parm3 ctx in
             if count \<le> 0 then s
             else
               let package = \<lparr>we_pid = mk_pid key, we_fd = mk_fd key, we_cur_len = 0,
                              we_total_len = count, we_contents = replicate LOG_BLOCK_SIZE 0\<rparr>
               in s\<lparr>events_write := events_write s @
                     write_loop (rc_mem ctx) (rc_parm2 ctx) count package 0\<rparr>)"

section \<open>Runs of the three probes\<close>

datatype reader_probe = ProbeOpen | ProbeOpenRet | ProbeWrite

fun reader_step ::
  "(u32, u8 list) refusal \<Rightarrow> reader_state \<Rightarrow> reader_probe \<times> reader_ctx \<Rightarrow> reader_state" where
  "reader_step refuse s (ProbeOpen, ctx) = detect_file_open refuse ctx s"
| "reader_step refuse s (ProbeOpenRet, ctx) = detect_file_open_ret ctx s"
| "reader_step refuse s (ProbeWrite, ctx) = detect_file_write ctx s"

definition reader_run ::
  "(u32, u8 list) refusal \<Rightarrow> reader_state \<Rightarrow> (reader_probe \<times> reader_ctx) list \<Rightarrow> reader_state" where
  "reader_run refuse = foldl (reader_step refuse)"

lemmas reader_defs =
  detect_file_open_def detect_file_open_ret_def detect_file_write_def Let_def bpf_map_defs

lemma reader_step_tmp_other:
  "hi32 (rc_pid_tgid (snd e)) \<noteq> p \<Longrightarrow> tmp_map (reader_step refuse s e) p = tmp_map s p"
  by (cases "(refuse, s, e)" rule: reader_step.cases) (auto simp: reader_defs split: option.splits)

lemma reader_step_filter: "pid_filter (reader_step refuse s e) = pid_filter s"
  by (cases "(refuse, s, e)" rule: reader_step.cases) (auto simp: reader_defs split: option.splits)

lemma reader_run_tmp_other:
  "\<forall>e \<in> set es. hi32 (rc_pid_tgid (snd e)) \<noteq> p \<Longrightarrow> tmp_map (reader_run refuse s es) p = tmp_map s p"
  by (induction es arbitrary: s) (auto simp: reader_run_def reader_step_tmp_other)

lemma filter_scan_iff:
  "filter_scan arr pid is \<longleftrightarrow> (\<exists>i \<in> set is. i < length arr \<and> arr ! i = pid)"
  by (induction "is") (auto simp: array_lookup_def)

section \<open>The write stream\<close>

definition stream_len :: "u64 \<Rightarrow> nat" where
  "stream_len count = min MAX_LOG_SIZE (unat count)"

definition n_blocks :: "nat \<Rightarrow> nat" where
  "n_blocks n = (n + 127) div 128"

lemma n_blocks_step: "0 < d \<Longrightarrow> n_blocks d = Suc (n_blocks (d - LOG_BLOCK_SIZE))"
  by (cases d; cases "127 \<le> d - 1") (auto simp: n_blocks_def LOG_BLOCK_SIZE_def)

lemma write_loop_spec:
  assumes "i \<le> MAX_LOG_SIZE" "LOG_BLOCK_SIZE dvd i"
    "readable mem (ptr + of_nat i) (LOG_BLOCK_SIZE * n_blocks (stream_len count - i))"
  shows "map we_cur_len (write_loop mem ptr count package i) =
           map (\<lambda>j. of_nat (i + LOG_BLOCK_SIZE * j)) [0..<n_blocks (stream_len count - i)]
       \<and> concat (map we_contents (write_loop mem ptr count package i)) =
           mem_bytes mem (ptr + of_nat i) (LOG_BLOCK_SIZE * n_blocks (stream_len count - i))
       \<and> (\<forall>e \<in> set (write_loop mem ptr count package i).
             we_pid e = we_pid package \<and> we_fd e = we_fd package \<and>
             we_total_len e = we_total_len package)"
  using assms
proof (induction mem ptr count package i rule: write_loop.induct)
  case (1 mem ptr count package i)
  show ?case
  proof (cases "i < MAX_LOG_SIZE \<and> i < unat count")
    case False
    then have "\<not> i < MAX_LOG_SIZE \<or> (i < MAX_LOG_SIZE \<and> count \<le> of_nat i)"
      by (auto simp: word_le_nat_alt unat_of_nat_small MAX_LOG_SIZE_def)
    moreover from False "1.prems" have "stream_len count - i = 0"
      by (auto simp: stream_len_def)
    ultimately show ?thesis
      by (auto simp: write_loop.simps [of mem ptr count package i] n_blocks_def mem_bytes_def)
  next
    case True
    then have guard: "i < MAX_LOG_SIZE" "\<not> count \<le> of_nat i"
      by (auto simp: word_le_nat_alt unat_of_nat_small MAX_LOG_SIZE_def)
    let ?k = "n_blocks (stream_len count - (i + LOG_BLOCK_SIZE))"
    have k: "n_blocks (stream_len count - i) = Suc ?k"
      using True n_blocks_step [of "stream_len count - i"] by (simp add: stream_len_def)
    have rd: "readable mem (ptr + of_nat i) LOG_BLOCK_SIZE"
      "readable mem (ptr + of_nat (i + LOG_BLOCK_SIZE)) (LOG_BLOCK_SIZE * ?k)"
      using "1.prems"(3) by (simp_all add: k readable_append add.assoc)
    have dv: "i + LOG_BLOCK_SIZE \<le> MAX_LOG_SIZE" "LOG_BLOCK_SIZE dvd i + LOG_BLOCK_SIZE"
      using "1.prems"(2) guard by (auto simp: LOG_BLOCK_SIZE_def MAX_LOG_SIZE_def elim!: dvdE)
    note IH = "1.IH" [OF _ _ refl dv rd(2), simplified guard]
    show ?thesis
      using IH rd guard
      by (simp add: write_loop.simps [of mem ptr count package i] k Let_def probe_read_ok
          mem_bytes_append add.assoc distrib_left upt_conv_Cons map_Suc_upt [symmetric] comp_def
          del: upt_Suc)
  qed
qed

text \<open>C37: when a monitored process writes \<open>count\<close> bytes and the blocks that cover them are readable,
  the probe submits one package per started block of 128 bytes of the first 8192, tagged with the
  offsets 0, 128, 256 and so on, and the contents of the packages, cut at the length, are the bytes
  written: user space can put the stream together again.\<close>

theorem write_stream_complete:
  assumes "map_lookup (listen_map s) \<lparr>mk_pid = hi32 (rc_pid_tgid ctx), mk_fd = lo32 (rc_parm1 ctx)\<rparr>
             \<noteq> None"
    and "0 < rc_parm3 ctx"
    and "readable (rc_mem ctx) (rc_parm2 ctx) (128 * n_blocks (stream_len (rc_parm3 ctx)))"
  shows "\<exists>evs. detect_file_write ctx s = s\<lparr>events_write := events_write s @ evs\<rparr>
      \<and> map we_cur_len evs =
          map (\<lambda>j. of_nat (128 * j)) [0..<n_blocks (stream_len (rc_parm3 ctx))]
      \<and> take (stream_len (rc_parm3 ctx)) (concat (map we_contents evs)) =
          mem_bytes (rc_mem ctx) (rc_parm2 ctx) (stream_len (rc_parm3 ctx))
      \<and> (\<forall>e \<in> set evs. we_total_len e = rc_parm3 ctx \<and> we_pid e = hi32 (rc_pid_tgid ctx))"
proof -
  let ?count = "rc_parm3 ctx" and ?key = "\<lparr>mk_pid = hi32 (rc_pid_tgid ctx), mk_fd = lo32 (rc_parm1 ctx)\<rparr>"
  let ?package = "\<lparr>we_pid = mk_pid ?key, we_fd = mk_fd ?key, we_cur_len = 0, we_total_len = ?count,
                   we_contents = replicate LOG_BLOCK_SIZE 0\<rparr>"
  let ?evs = "write_loop (rc_mem ctx) (rc_parm2 ctx) ?count ?package 0"
  have run: "detect_file_write ctx s = s\<lparr>events_write := events_write s @ ?evs\<rparr>"
    using assms(1,2) by (auto simp: detect_file_write_def Let_def word_le_0_iff)
  have fits: "stream_len ?count \<le> 128 * n_blocks (stream_len ?count)"
    by (simp add: n_blocks_def)
  from write_loop_spec [of 0 "rc_mem ctx" "rc_parm2 ctx" ?count ?package] assms(3) fits
  show ?thesis
    by (intro exI [of _ ?evs] conjI run) (auto simp: LOG_BLOCK_SIZE_def take_mem_bytes)
qed

theorem write_stream_complete_witness:
  "\<exists>evs. detect_file_write
      \<lparr>rc_pid_tgid = join32 7 7, rc_parm1 = 3, rc_parm2 = 4096, rc_parm3 = 200, rc_ret = 0,
       rc_mem = (\<lambda>a. Some (ucast a))\<rparr>
      \<lparr>pid_filter = [], tmp_map = Map.empty, listen_map = [\<lparr>mk_pid = 7, mk_fd = 3\<rparr> \<mapsto> 1],
       events_open = [], events_write = []\<rparr> =
      \<lparr>pid_filter = [], tmp_map = Map.empty, listen_map = [\<lparr>mk_pid = 7, mk_fd = 3\<rparr> \<mapsto> 1],
       events_open = [], events_write = evs\<rparr> \<and> map we_cur_len evs = [0, 128]"
proof -
  let ?s = "\<lparr>pid_filter = [], tmp_map = Map.empty, listen_map = [\<lparr>mk_pid = 7, mk_fd = 3\<rparr> \<mapsto> 1],
             events_open = [], events_write = []\<rparr>"
  let ?ctx = "\<lparr>rc_pid_tgid = join32 7 7, rc_parm1 = 3, rc_parm2 = 4096, rc_parm3 = 200, rc_ret = 0,
               rc_mem = (\<lambda>a. Some (ucast a))\<rparr>"
  have n: "n_blocks (stream_len 200) = 2"
    by (simp add: n_blocks_def stream_len_def MAX_LOG_SIZE_def)
  have m: "map (\<lambda>j. 128 * of_nat j) [0..<2] = [0, 128 :: u64]"
    by code_simp
  have k: "map_lookup (listen_map ?s) \<lparr>mk_pid = hi32 (rc_pid_tgid ?ctx), mk_fd = lo32 (rc_parm1 ?ctx)\<rparr>
             \<noteq> None"
    by (simp add: map_lookup_def lo32_def)
  have "0 < rc_parm3 ?ctx"
    "readable (rc_mem ?ctx) (rc_parm2 ?ctx) (128 * n_blocks (stream_len (rc_parm3 ?ctx)))"
    by simp_all
  from write_stream_complete [OF k this] show ?thesis
    by (auto simp: n m)
qed

text \<open>A name reported for an open is the one read at its entry, provided the process opens
  nothing else in between: whatever the other processes do meanwhile, the return probe submits exactly
  one event with the process, the descriptor returned and that name, and clears the entry.\<close>

theorem open_reports_entry_name:
  assumes "hi32 (rc_pid_tgid c1) \<in> set (take PID_FILTER_SIZE (pid_filter s))"
    and "\<not> refuse (tmp_map s) (hi32 (rc_pid_tgid c1))"
    and "\<forall>e \<in> set es. hi32 (rc_pid_tgid (snd e)) \<noteq> hi32 (rc_pid_tgid c1)"
    and "hi32 (rc_pid_tgid c2) = hi32 (rc_pid_tgid c1)"
    and "s' = reader_run refuse s ((ProbeOpen, c1) # es)"
  shows "detect_file_open_ret c2 s' = s'\<lparr>
      events_open := events_open s' @
        [\<lparr>oe_pid = hi32 (rc_pid_tgid c1), oe_fd = lo32 (rc_ret c2),
          oe_filename = probe_read (rc_mem c1) (rc_parm2 c1) 64\<rparr>],
      tmp_map := (tmp_map s')(hi32 (rc_pid_tgid c1) := None)\<rparr>"
proof -
  have "filter_scan (pid_filter s) (hi32 (rc_pid_tgid c1)) [0..<PID_FILTER_SIZE]"
    using assms(1) by (auto simp: filter_scan_iff in_set_conv_nth)
  then have "tmp_map (detect_file_open refuse c1 s) (hi32 (rc_pid_tgid c1)) =
      Some (probe_read (rc_mem c1) (rc_parm2 c1) 64)"
    using assms(2) by (simp add: detect_file_open_def map_update_def MAX_FILE_NAME_def Let_def)
  then have "tmp_map s' (hi32 (rc_pid_tgid c1)) = Some (probe_read (rc_mem c1) (rc_parm2 c1) 64)"
    using reader_run_tmp_other [OF assms(3), of refuse "detect_file_open refuse c1 s"] assms(5)
    by (simp add: reader_run_def)
  then show ?thesis
    using assms(4) by (simp add: detect_file_open_ret_def map_lookup_def map_delete_def Let_def)
qed

theorem open_reports_entry_name_witness:
  "events_open (detect_file_open_ret
      \<lparr>rc_pid_tgid = join32 7 9, rc_parm1 = 0, rc_parm2 = 0, rc_parm3 = 0, rc_ret = 5, rc_mem = (\<lambda>_. None)\<rparr>
      (reader_run (\<lambda>m k. False)
        \<lparr>pid_filter = [7], tmp_map = Map.empty, listen_map = Map.empty, events_open = [], events_write = []\<rparr>
        [(ProbeOpen, \<lparr>rc_pid_tgid = join32 7 8, rc_parm1 = 0, rc_parm2 = 64, rc_parm3 = 0, rc_ret = 0,
                      rc_mem = (\<lambda>_. Some 65)\<rparr>)])) =
    [\<lparr>oe_pid = 7, oe_fd = 5, oe_filename = probe_read (\<lambda>_. Some 65) 64 64\<rparr>]"
proof -
  let ?s = "\<lparr>pid_filter = [7], tmp_map = Map.empty, listen_map = Map.empty, events_open = [],
             events_write = []\<rparr>"
  let ?c1 = "\<lparr>rc_pid_tgid = join32 7 8, rc_parm1 = 0, rc_parm2 = 64, rc_parm3 = 0, rc_ret = 0,
              rc_mem = (\<lambda>_. Some 65)\<rparr>"
  let ?c2 = "\<lparr>rc_pid_tgid = join32 7 9, rc_parm1 = 0, rc_parm2 = 0, rc_parm3 = 0, rc_ret = 5,
              rc_mem = (\<lambda>_. None)\<rparr>"
  have "events_open (reader_run (\<lambda>m k. False) ?s [(ProbeOpen, ?c1)]) = []"
    by (simp add: reader_run_def detect_file_open_def Let_def)
  then show ?thesis
    using open_reports_entry_name [of ?c1 ?s "\<lambda>m k. False" "[]" ?c2, OF _ _ _ _ refl]
    by (simp add: PID_FILTER_SIZE_def lo32_def)
qed

text \<open>The names of concurrent opens of one process are mixed up. Entries are keyed by the process,
  not by the thread: if two threads enter before either returns, the first return reports its
  descriptor under the name of the other thread's open, and the second return reports nothing.\<close>

theorem concurrent_opens_confused:
  assumes "p = hi32 (rc_pid_tgid c1)" "hi32 (rc_pid_tgid c2) = p" "hi32 (rc_pid_tgid c3) = p"
      "hi32 (rc_pid_tgid c4) = p"
    and "p \<in> set (take PID_FILTER_SIZE (pid_filter s))"
    and "\<not> refuse (tmp_map s) p"
  shows "events_open (reader_run refuse s
            [(ProbeOpen, c1), (ProbeOpen, c2), (ProbeOpenRet, c3), (ProbeOpenRet, c4)]) =
         events_open s @ [\<lparr>oe_pid = p, oe_fd = lo32 (rc_ret c3),
                           oe_filename = probe_read (rc_mem c2) (rc_parm2 c2) 64\<rparr>]"
proof -
  have scan: "filter_scan (pid_filter s) p [0..<PID_FILTER_SIZE]"
    using assms(5) by (auto simp: filter_scan_iff in_set_conv_nth)
  show ?thesis
    using assms(1-4) [symmetric] assms(6) scan
    by (simp add: reader_run_def reader_defs MAX_FILE_NAME_def)
qed

theorem concurrent_opens_confused_witness:
  "events_open (reader_run (\<lambda>m k. False)
      \<lparr>pid_filter = [7], tmp_map = Map.empty, listen_map = Map.empty, events_open = [], events_write = []\<rparr>
      [(ProbeOpen, \<lparr>rc_pid_tgid = join32 7 8, rc_parm1 = 0, rc_parm2 = 0, rc_parm3 = 0, rc_ret = 0,
                    rc_mem = (\<lambda>_. Some 65)\<rparr>),
       (ProbeOpen, \<lparr>rc_pid_tgid = join32 7 9, rc_parm1 = 0, rc_parm2 = 0, rc_parm3 = 0, rc_ret = 0,
                    rc_mem = (\<lambda>_. Some 66)\<rparr>),
       (ProbeOpenRet, \<lparr>rc_pid_tgid = join32 7 8, rc_parm1 = 0, rc_parm2 = 0, rc_parm3 = 0, rc_ret = 4,
                    rc_mem = (\<lambda>_. None)\<rparr>),
       (ProbeOpenRet, \<lparr>rc_pid_tgid = join32 7 9, rc_parm1 = 0, rc_parm2 = 0, rc_parm3 = 0, rc_ret = 5,
                    rc_mem = (\<lambda>_. None)\<rparr>)]) =
    [\<lparr>oe_pid = 7, oe_fd = 4, oe_filename = probe_read (\<lambda>_. Some 66) 0 64\<rparr>]"
  by (subst concurrent_opens_confused [where p = 7]) (simp_all add: PID_FILTER_SIZE_def lo32_def)

text \<open>The tail of a write can be lost. The probe always reads whole blocks, so when the memory
  behind a short buffer cannot be read the package for it holds only zeros, although every byte
  written was readable.\<close>

theorem short_write_lost:
  assumes "map_lookup (listen_map s) \<lparr>mk_pid = hi32 (rc_pid_tgid ctx), mk_fd = lo32 (rc_parm1 ctx)\<rparr>
             \<noteq> None"
    and "0 < rc_parm3 ctx" "rc_parm3 ctx \<le> 128"
    and "\<not> readable (rc_mem ctx) (rc_parm2 ctx) 128"
  shows "map we_contents (events_write (detect_file_write ctx s)) =
         map we_contents (events_write s) @ [replicate 128 0]"
proof -
  have "\<not> rc_parm3 ctx \<le> 0" "rc_parm3 ctx \<le> of_nat 128" "0 < MAX_LOG_SIZE"
    using assms(2,3) by (auto simp: word_le_0_iff MAX_LOG_SIZE_def)
  then show ?thesis
    using assms(1,4)
    by (auto simp: detect_file_write_def Let_def write_loop.simps [of _ _ _ _ 0]
        write_loop.simps [of _ _ _ _ 128] LOG_BLOCK_SIZE_def probe_read_def)
qed

theorem short_write_lost_witness:
  "map we_contents (events_write (detect_file_write
      \<lparr>rc_pid_tgid = join32 7 7, rc_parm1 = 3, rc_parm2 = 4095, rc_parm3 = 1, rc_ret = 0,
       rc_mem = (\<lambda>a. if a < 4096 then Some 65 else None)\<rparr>
      \<lparr>pid_filter = [], tmp_map = Map.empty, listen_map = [\<lparr>mk_pid = 7, mk_fd = 3\<rparr> \<mapsto> 1],
       events_open = [], events_write = []\<rparr>)) = [replicate 128 0]"
proof -
  have "\<not> readable (\<lambda>a. if a < 4096 then Some 65 else None) 4095 128"
    by (auto simp: readable_def list_all_iff intro!: bexI [of _ 1])
  then show ?thesis
    by (subst short_write_lost) (simp_all add: map_lookup_def lo32_def)
qed

end
