(* ===== verification/Biostat.thy ===== *)
theory Biostat
  imports Bpf_Runtime
begin

text \<open>
  Block I/O accounting, \<open>release/bcc/biostat.c\<close>. A request is known by the address of its
  \<open>struct request\<close>: \<open>whobyreq\<close> remembers the process that queued it, \<open>start\<close> when it was issued and
  how long its data is, and its completion adds bytes and nanoseconds to \<open>counts\<close> and one to a latency
  histogram in \<open>dist\<close>. User space monitors a process by an entry in \<open>control_map\<close>.
\<close>

section \<open>State\<close>

record disk_key =
  dk_slot :: u32
  dk_pid :: u32
  dk_flags :: u64
  dk_disk :: "u8 list"

record bio_info =
  bi_pid :: u32
  bi_rwflag :: u32
  bi_disk :: "u8 list"

record bio_val =
  bv_bytes :: u64
  bv_ns :: u64

record req_start =
  rs_data_len :: u64
  rs_timestamp :: u64

record bio_control =
  bc_verbose :: u32
  bc_bin_scale :: u64

record bio_state =
  bio_control_map :: "(u32, bio_control) bpf_map"
  bio_counts :: "(bio_info, bio_val) bpf_map"
  bio_dist :: "(disk_key, u64) bpf_map"
  bio_start :: "(u64, req_start) bpf_map"
  whobyreq :: "(u64, u32) bpf_map"

text \<open>What the handlers read of the kernel's \<open>struct request\<close>.\<close>

record bio_request =
  rq_data_len :: u32
  rq_cmd_flags :: u32
  rq_disk_name :: "u8 list"

text \<open>
  What comes from the kernel headers and from BCC: the operation mask and the write operation of
  \<open>cmd_flags\<close>, the logarithm \<open>bpf_log2l\<close>, and the refusals of the maps.
\<close>

record bio_env =
  req_op_mask :: u32
  req_op_write :: u32
  bpf_log2l :: "u64 \<Rightarrow> u32"
  refuse_who :: "(u64, u32) refusal"
  refuse_start :: "(u64, req_start) refusal"
  refuse_counts :: "(bio_info, bio_val) refusal"
  refuse_dist :: "(disk_key, u64) refusal"

section \<open>Handlers\<close>

definition trace_pid_start :: "bio_env \<Rightarrow> u64 \<Rightarrow> u64 \<Rightarrow> bio_state \<Rightarrow> bio_state" where
  "trace_pid_start env pid_tgid req s =
     (let pid = hi32 pid_tgid in
      case map_lookup (bio_control_map s) pid of
        None \<Rightarrow> s
      | Some con \<Rightarrow> s\<lparr>whobyreq := map_update (refuse_who env) (whobyreq s) req pid\<rparr>)"

definition trace_req_start :: "bio_env \<Rightarrow> u64 \<Rightarrow> u64 \<Rightarrow> bio_request \<Rightarrow> bio_state \<Rightarrow> bio_state" where
  "trace_req_start env now req rq s =
     (let rs = \<lparr>rs_data_len = ucast (rq_data_len rq), rs_timestamp = now\<rparr>
      in s\<lparr>bio_start := map_update (refuse_start env) (bio_start s) req rs\<rparr>)"

definition bio_info_of :: "bio_env \<Rightarrow> u32 \<Rightarrow> bio_request \<Rightarrow> bio_info" where
  "bio_info_of env pid rq =
     \<lparr>bi_pid = pid,
      bi_rwflag = (if rq_cmd_flags rq AND req_op_mask env = req_op_write env then 1 else 0),
      bi_disk = rq_disk_name rq\<rparr>"

definition bio_account ::
  "bio_env \<Rightarrow> bio_info \<Rightarrow> u64 \<Rightarrow> req_start \<Rightarrow> (bio_info, bio_val) bpf_map \<Rightarrow> (bio_info, bio_val) bpf_map"
where
  "bio_account env info delta rs counts =
     (let zero = \<lparr>bv_bytes = rs_data_len rs, bv_ns = delta\<rparr> in
      case map_lookup counts info of
        None \<Rightarrow> map_try_init (refuse_counts env) counts info zero
      | Some val \<Rightarrow>
          let val = val\<lparr>bv_ns := bv_ns val + delta\<rparr>;
              val = val\<lparr>bv_bytes := bv_bytes val + rs_data_len rs\<rparr>
          in map_update (refuse_counts env) (map_store counts info val) info val)"

text \<open>
  The histogram. The local \<open>bin_scale\<close> of the source, which replaces a zero scale by one, is not used
  by the expression that follows: the slot divides by \<open>con->bin_scale\<close>.
\<close>

definition bio_histogram ::
  "bio_env \<Rightarrow> bio_control \<Rightarrow> u32 \<Rightarrow> bio_request \<Rightarrow> u64 \<Rightarrow> (disk_key, u64) bpf_map \<Rightarrow> (disk_key, u64) bpf_map"
where
  "bio_histogram env con pid rq delta dist =
     (if bc_verbose con > 1 then
        let key = \<lparr>dk_slot = bpf_log2l env (bpf_div delta (bc_bin_scale con)), dk_pid = pid,
                   dk_flags = ucast (rq_cmd_flags rq), dk_disk = rq_disk_name rq\<rparr>
        in case map_lookup dist key of
             None \<Rightarrow> map_update (refuse_dist env) dist key 1
           | Some counter \<Rightarrow> map_store dist key (counter + 1)
      else dist)"

definition trace_req_completion ::
  "bio_env \<Rightarrow> u64 \<Rightarrow> u64 \<Rightarrow> bio_request \<Rightarrow> bio_state \<Rightarrow> bio_state" where
  "trace_req_completion env now req rq s =
     (case map_lookup (whobyreq s) req of
        None \<Rightarrow> s\<lparr>bio_start := map_delete (bio_start s) req\<rparr>
      | Some pid \<Rightarrow>
          (case map_lookup (bio_start s) req of
             None \<Rightarrow> s\<lparr>whobyreq := map_delete (whobyreq s) req\<rparr>
           | Some rs \<Rightarrow>
               (case map_lookup (bio_control_map s) pid of
                  None \<Rightarrow> s
                | Some con \<Rightarrow>
                    let delta = now - rs_timestamp rs;
                        info = bio_info_of env pid rq
                    in s\<lparr>bio_counts := bio_account env info delta rs (bio_counts s),
                         bio_dist := bio_histogram env con pid rq delta (bio_dist s),
                         bio_start := map_delete (bio_start s) req,
                         whobyreq := map_delete (whobyreq s) req\<rparr>)))"

section \<open>Runs\<close>

datatype bio_event =
  BioPidStart u64 u64
| BioReqStart u64 u64 bio_request
| BioCompletion u64 u64 bio_request

fun bio_event_req :: "bio_event \<Rightarrow> u64" where
  "bio_event_req (BioPidStart pt req) = req"
| "bio_event_req (BioReqStart now req rq) = req"
| "bio_event_req (BioCompletion now req rq) = req"

fun bio_step :: "bio_env \<Rightarrow> bio_state \<Rightarrow> bio_event \<Rightarrow> bio_state" where
  "bio_step env s (BioPidStart pt req) = trace_pid_start env pt req s"
| "bio_step env s (BioReqStart now req rq) = trace_req_start env now req rq s"
| "bio_step env s (BioCompletion now req rq) = trace_req_completion env now req rq s"

definition bio_run :: "bio_env \<Rightarrow> bio_state \<Rightarrow> bio_event list \<Rightarrow> bio_state" where
  "bio_run env = foldl (bio_step env)"

lemmas bio_defs =
  trace_pid_start_def trace_req_start_def trace_req_completion_def Let_def map_lookup_def

lemma bio_step_control: "bio_control_map (bio_step env s e) = bio_control_map s"
  by (cases e) (auto simp: bio_defs split: option.splits)

lemma bio_run_control: "bio_control_map (bio_run env s es) = bio_control_map s"
  unfolding bio_run_def by (rule foldl_frame) (rule bio_step_control)

lemma bio_step_other:
  assumes "bio_event_req e \<noteq> req"
  shows "bio_start (bio_step env s e) req = bio_start s req"
    and "whobyreq (bio_step env s e) req = whobyreq s req"
  using assms
  by (cases e; auto simp: bio_defs map_delete_def map_update_def split: option.splits)+

lemma bio_run_other:
  assumes "\<forall>e \<in> set es. bio_event_req e \<noteq> req"
  shows "bio_start (bio_run env s es) req = bio_start s req"
    and "whobyreq (bio_run env s es) req = whobyreq s req"
  using assms by (induction es arbitrary: s) (auto simp: bio_run_def bio_step_other)

section \<open>What a completion accounts for\<close>

definition bio_add :: "bio_val option \<Rightarrow> bio_val \<Rightarrow> bio_val option" where
  "bio_add old v = Some (case old of None \<Rightarrow> v
     | Some w \<Rightarrow> \<lparr>bv_bytes = bv_bytes w + bv_bytes v, bv_ns = bv_ns w + bv_ns v\<rparr>)"

lemma bio_account_lookup:
  assumes "counts info = None \<Longrightarrow> \<not> refuse_counts env counts info"
  shows "bio_account env info delta rs counts =
    counts(info := bio_add (counts info) \<lparr>bv_bytes = rs_data_len rs, bv_ns = delta\<rparr>)"
  using assms
  by (auto simp: bio_account_def bio_add_def Let_def map_lookup_def map_try_init_def map_update_def
      map_store_def split: option.splits)

text \<open>
  What a run ought to account for, said over the events alone. A history is a list of events, the
  oldest first. The current life of a request are its events since it last completed; the process
  that queued it is the one of the latest \<open>BioPidStart\<close> of that life by a process that is monitored,
  and its length and issue time are those of the latest \<open>BioReqStart\<close> of that life.
\<close>

fun bio_completes :: "u64 \<Rightarrow> bio_event \<Rightarrow> bool" where
  "bio_completes req (BioCompletion now r rq) = (r = req)"
| "bio_completes req _ = False"

fun bio_queues :: "(u32, bio_control) bpf_map \<Rightarrow> u64 \<Rightarrow> bio_event \<Rightarrow> u32 option" where
  "bio_queues control req (BioPidStart pt r) =
     (if r = req \<and> control (hi32 pt) \<noteq> None then Some (hi32 pt) else None)"
| "bio_queues control req _ = None"

fun bio_issues :: "u64 \<Rightarrow> bio_event \<Rightarrow> req_start option" where
  "bio_issues req (BioReqStart now r rq) =
     (if r = req then Some \<lparr>rs_data_len = ucast (rq_data_len rq), rs_timestamp = now\<rparr> else None)"
| "bio_issues req _ = None"

definition bio_life :: "u64 \<Rightarrow> bio_event list \<Rightarrow> bio_event list" where
  "bio_life req hist = takeWhile (\<lambda>e. \<not> bio_completes req e) (rev hist)"

definition latest :: "(bio_event \<Rightarrow> 'a option) \<Rightarrow> bio_event list \<Rightarrow> 'a option" where
  "latest f es = (case List.map_filter f es of [] \<Rightarrow> None | x # xs \<Rightarrow> Some x)"

lemma latest_simps [simp]:
  "latest f [] = None" "latest f (e # es) = (case f e of None \<Rightarrow> latest f es | Some x \<Rightarrow> Some x)"
  by (simp_all add: latest_def map_filter_simps split: option.splits)

lemma bio_life_simps [simp]:
  "bio_life req [] = []"
  "bio_life req (hist @ [e]) = (if bio_completes req e then [] else e # bio_life req hist)"
  by (simp_all add: bio_life_def)

fun bio_due ::
  "bio_env \<Rightarrow> (u32, bio_control) bpf_map \<Rightarrow> bio_event list \<Rightarrow> bio_event \<Rightarrow> (bio_info \<times> bio_val) option"
where
  "bio_due env control hist (BioCompletion now req rq) =
     (case (latest (bio_queues control req) (bio_life req hist), latest (bio_issues req) (bio_life req hist)) of
        (Some pid, Some rs) \<Rightarrow>
          Some (bio_info_of env pid rq, \<lparr>bv_bytes = rs_data_len rs, bv_ns = now - rs_timestamp rs\<rparr>)
      | _ \<Rightarrow> None)"
| "bio_due env control hist _ = None"

definition bio_dues ::
  "bio_env \<Rightarrow> (u32, bio_control) bpf_map \<Rightarrow> bio_info \<Rightarrow> bio_event list \<Rightarrow> bio_val list"
where
  "bio_dues env control info es =
     map snd (filter (\<lambda>x. fst x = info)
       (List.map_filter (\<lambda>i. bio_due env control (take i es) (es ! i)) [0..<length es]))"

lemma map_filter_append: "List.map_filter f (xs @ ys) = List.map_filter f xs @ List.map_filter f ys"
  by (simp add: List.map_filter_def)

lemma map_filter_eq: "(\<And>x. x \<in> set xs \<Longrightarrow> f x = g x) \<Longrightarrow> List.map_filter f xs = List.map_filter g xs"
  by (induction xs) (simp_all add: map_filter_simps split: option.splits)

lemma bio_dues_snoc:
  "bio_dues env control info (es @ [e]) = bio_dues env control info es @
     (case bio_due env control es e of None \<Rightarrow> [] | Some x \<Rightarrow> if fst x = info then [snd x] else [])"
proof -
  have "List.map_filter (\<lambda>i. bio_due env control (take i (es @ [e])) ((es @ [e]) ! i)) [0..<length es] =
      List.map_filter (\<lambda>i. bio_due env control (take i es) (es ! i)) [0..<length es]"
    by (rule map_filter_eq) (simp add: nth_append)
  then show ?thesis
    by (simp add: bio_dues_def map_filter_append map_filter_simps split: option.splits)
qed

lemma latest_queues_monitored:
  "latest (bio_queues control req) es = Some pid \<Longrightarrow> control pid \<noteq> None"
proof (induction es)
  case (Cons e es)
  then show ?case by (cases e) (auto split: if_splits)
qed simp

text \<open>The two maps hold exactly the current life of each request.\<close>

lemma bio_run_snoc: "bio_run env s (es @ [e]) = bio_step env (bio_run env s es) e"
  by (simp add: bio_run_def)

lemma bio_run_history:
  assumes "\<And>m k. \<not> refuse_who env m k" "\<And>m k. \<not> refuse_start env m k"
    and "bio_start s = Map.empty" "whobyreq s = Map.empty"
  shows "whobyreq (bio_run env s es) req = latest (bio_queues (bio_control_map s) req) (bio_life req es)
    \<and> bio_start (bio_run env s es) req = latest (bio_issues req) (bio_life req es)"
proof (induction es arbitrary: req rule: rev_induct)
  case Nil
  then show ?case using assms by (simp add: bio_run_def)
next
  case (snoc e es)
  let ?s = "bio_run env s es"
  have c: "bio_control_map ?s = bio_control_map s" by (rule bio_run_control)
  show ?case
  proof (cases e)
    case (BioPidStart pt r)
    then show ?thesis
      using snoc.IH [of req] c assms
      by (auto simp: bio_run_snoc bio_defs map_update_def split: option.splits)
  next
    case (BioReqStart now r rq)
    then show ?thesis
      using snoc.IH [of req] c assms
      by (auto simp: bio_run_snoc bio_defs map_update_def)
  next
    case (BioCompletion now r rq)
    have "bio_control_map s pid \<noteq> None" if "whobyreq ?s r = Some pid" for pid
      using that snoc.IH [of r] latest_queues_monitored by metis
    then show ?thesis
      using BioCompletion snoc.IH [of req] c
      by (auto simp: bio_run_snoc bio_defs map_delete_def split: option.splits)
  qed
qed

lemma bio_run_due:
  assumes "\<And>m k. \<not> refuse_who env m k" "\<And>m k. \<not> refuse_start env m k" "\<And>m k. \<not> refuse_counts env m k"
    and "bio_start s = Map.empty" "whobyreq s = Map.empty"
  shows "bio_counts (bio_run env s (es @ [e])) =
    (case bio_due env (bio_control_map s) es e of None \<Rightarrow> bio_counts (bio_run env s es)
     | Some (info, v) \<Rightarrow> (bio_counts (bio_run env s es))
         (info := bio_add (bio_counts (bio_run env s es) info) v))"
proof (cases e)
  case (BioCompletion now req rq)
  let ?s = "bio_run env s es"
  have c: "bio_control_map ?s = bio_control_map s" by (rule bio_run_control)
  note h = bio_run_history [of env s es req, OF assms(1,2,4,5)]
  have "bio_control_map s pid \<noteq> None" if "whobyreq ?s req = Some pid" for pid
    using that h latest_queues_monitored by metis
  then show ?thesis
    using BioCompletion h c assms(3)
    by (auto simp: bio_run_snoc bio_defs bio_account_lookup split: option.splits)
qed (auto simp: bio_run_snoc bio_defs split: option.splits)

text \<open>C38: the table of totals is exactly the sum of the completed requests, each counted once. Start
  without pending requests and take any sequence of events, of any requests in any order, during
  which the set of monitored processes stays and the kernel admits the keys. Then the entry of a
  (process, direction, disk) is its old value plus the bytes and nanoseconds, modulo 2 to the 64, of
  the completions in the history that have both a queuing by a monitored process and an issue since
  the previous completion of the same request: the bytes of the latest issue, and the time since it,
  charged to the latest such process. Other completions add nothing, and an entry without any
  accountable completion is as it was.\<close>

theorem biostat_totals:
  assumes "\<And>m k. \<not> refuse_who env m k" "\<And>m k. \<not> refuse_start env m k" "\<And>m k. \<not> refuse_counts env m k"
    and "bio_start s = Map.empty" "whobyreq s = Map.empty"
  shows "bio_counts (bio_run env s es) info =
    (let dues = bio_dues env (bio_control_map s) info es;
         old = (case bio_counts s info of None \<Rightarrow> \<lparr>bv_bytes = 0, bv_ns = 0\<rparr> | Some v \<Rightarrow> v)
     in if dues = [] then bio_counts s info
        else Some \<lparr>bv_bytes = bv_bytes old + sum_list (map bv_bytes dues),
                   bv_ns = bv_ns old + sum_list (map bv_ns dues)\<rparr>)"
proof (induction es rule: rev_induct)
  case Nil
  then show ?case by (simp add: bio_run_def bio_dues_def map_filter_simps)
next
  case (snoc e es)
  show ?case
    unfolding bio_run_due [of env s es e, OF assms] bio_dues_snoc
    using snoc.IH
    by (auto simp: Let_def bio_add_def add.assoc split: option.splits)
qed

text \<open>The life of one request. If a monitored process queues it, it is issued, and it completes,
  with any events of other requests in between, then the completion adds its length and its latency
  to the entry of its process and nothing else, and leaves no trace of the request behind.\<close>

theorem biostat_request_lifecycle:
  assumes "bio_control_map s (hi32 pt) = Some con"
    and "\<forall>e \<in> set (es1 @ es2). bio_event_req e \<noteq> req"
    and "\<And>m k. \<not> refuse_who env m k" "\<And>m k. \<not> refuse_start env m k" "\<And>m k. \<not> refuse_counts env m k"
    and "s1 = bio_run env s ([BioPidStart pt req] @ es1 @ [BioReqStart t0 req rq] @ es2)"
    and "s2 = bio_step env s1 (BioCompletion t1 req rq)"
    and "info = bio_info_of env (hi32 pt) rq"
  shows "bio_start s2 = (bio_start s1)(req := None) \<and> whobyreq s2 = (whobyreq s1)(req := None)
    \<and> bio_counts s2 = (bio_counts s1)(info := bio_add (bio_counts s1 info)
        \<lparr>bv_bytes = ucast (rq_data_len rq), bv_ns = t1 - t0\<rparr>)"
proof -
  let ?a = "bio_step env s (BioPidStart pt req)"
  let ?b = "bio_step env (bio_run env ?a es1) (BioReqStart t0 req rq)"
  have s1: "s1 = bio_run env ?b es2"
    using assms(6) by (simp add: bio_run_def)
  have "whobyreq ?a req = Some (hi32 pt)"
    using assms(1,3) by (simp add: bio_defs map_update_def)
  then have "whobyreq ?b req = Some (hi32 pt)"
    using assms(2) by (simp add: bio_run_other bio_defs)
  moreover have "bio_start ?b req = Some \<lparr>rs_data_len = ucast (rq_data_len rq), rs_timestamp = t0\<rparr>"
    using assms(4) by (simp add: bio_defs map_update_def)
  moreover have "bio_control_map s1 (hi32 pt) = Some con"
    using assms(1,6) by (simp add: bio_run_control)
  ultimately have "whobyreq s1 req = Some (hi32 pt)" "bio_control_map s1 (hi32 pt) = Some con"
    "bio_start s1 req = Some \<lparr>rs_data_len = ucast (rq_data_len rq), rs_timestamp = t0\<rparr>"
    using assms(2) by (simp_all add: s1 bio_run_other)
  then show ?thesis
    using assms(5,7,8) by (simp add: bio_defs bio_account_lookup map_delete_def)
qed

text \<open>A completion that cannot be attributed accounts for nothing. It cleans up the half that is known
  when the process or the start of the request is missing, but when the process is no longer
  monitored it leaves both entries of the request behind.\<close>

theorem biostat_unattributed:
  assumes "whobyreq s req = None \<or> bio_start s req = None
    \<or> (\<exists>pid. whobyreq s req = Some pid \<and> bio_control_map s pid = None)"
  shows "trace_req_completion env now req rq s =
    (case whobyreq s req of
       None \<Rightarrow> s\<lparr>bio_start := (bio_start s)(req := None)\<rparr>
     | Some pid \<Rightarrow> if bio_start s req = None then s\<lparr>whobyreq := (whobyreq s)(req := None)\<rparr> else s)"
  using assms by (auto simp: bio_defs map_delete_def split: option.splits)

text \<open>A histogram with scale zero loses the latency. The source prepares a local \<open>bin_scale\<close> that is
  at least one, but then divides by \<open>con->bin_scale\<close>: with scale zero every completion lands in the
  slot of latency zero, whatever its latency was.\<close>

theorem biostat_zero_scale:
  assumes "bc_bin_scale con = 0"
  shows "bio_histogram env con pid rq delta dist = bio_histogram env con pid rq 0 dist"
  using assms by (simp add: bio_histogram_def bpf_div_def)

section \<open>Witnesses\<close>

definition bio_env_sample :: bio_env where
  "bio_env_sample = \<lparr>req_op_mask = 255, req_op_write = 1, bpf_log2l = (\<lambda>x. if x = 0 then 0 else 5),
     refuse_who = (\<lambda>m k. False), refuse_start = (\<lambda>m k. False), refuse_counts = (\<lambda>m k. False),
     refuse_dist = (\<lambda>m k. False)\<rparr>"

definition bio_state_sample :: bio_state where
  "bio_state_sample = \<lparr>bio_control_map = [7 \<mapsto> \<lparr>bc_verbose = 2, bc_bin_scale = 0\<rparr>], bio_counts = Map.empty,
     bio_dist = Map.empty, bio_start = Map.empty, whobyreq = Map.empty\<rparr>"

definition bio_request_sample :: bio_request where
  "bio_request_sample = \<lparr>rq_data_len = 512, rq_cmd_flags = 1, rq_disk_name = [115, 100, 97]\<rparr>"

theorem biostat_totals_witness:
  "bio_counts (bio_run bio_env_sample bio_state_sample
      [BioPidStart (join32 7 9) 64, BioReqStart 1000 64 bio_request_sample,
       BioCompletion 1500 64 bio_request_sample, BioCompletion 1800 64 bio_request_sample,
       BioReqStart 2000 64 bio_request_sample, BioPidStart (join32 7 9) 64,
       BioCompletion 2300 64 bio_request_sample])
    \<lparr>bi_pid = 7, bi_rwflag = 1, bi_disk = [115, 100, 97]\<rparr> = Some \<lparr>bv_bytes = 1024, bv_ns = 800\<rparr>"
  by (subst biostat_totals)
    (simp_all add: bio_env_sample_def bio_state_sample_def bio_request_sample_def bio_info_of_def
      bio_dues_def map_filter_simps upt_rec bio_life_def Let_def)

theorem biostat_request_lifecycle_witness:
  "bio_counts (bio_step bio_env_sample (bio_run bio_env_sample bio_state_sample
      [BioPidStart (join32 7 9) 64, BioReqStart 1000 64 bio_request_sample])
      (BioCompletion 1500 64 bio_request_sample))
    \<lparr>bi_pid = 7, bi_rwflag = 1, bi_disk = [115, 100, 97]\<rparr> = Some \<lparr>bv_bytes = 512, bv_ns = 500\<rparr>"
proof -
  let ?s1 = "bio_run bio_env_sample bio_state_sample
      [BioPidStart (join32 7 9) 64, BioReqStart 1000 64 bio_request_sample]"
  have control: "bio_control_map bio_state_sample (hi32 (join32 7 9)) =
      Some \<lparr>bc_verbose = 2, bc_bin_scale = 0\<rparr>"
    by (simp add: bio_state_sample_def)
  have admitted: "\<not> refuse_who bio_env_sample m k" "\<not> refuse_start bio_env_sample m' k"
      "\<not> refuse_counts bio_env_sample m'' k''" for m m' k m'' k''
    by (simp_all add: bio_env_sample_def)
  have counts: "bio_counts ?s1 = Map.empty"
    by (simp add: bio_run_def bio_env_sample_def bio_state_sample_def bio_defs)
  have info: "bio_info_of bio_env_sample 7 bio_request_sample =
      \<lparr>bi_pid = 7, bi_rwflag = 1, bi_disk = [115, 100, 97]\<rparr>" "rq_data_len bio_request_sample = 512"
    by (simp_all add: bio_info_of_def bio_env_sample_def bio_request_sample_def)
  show ?thesis
    using biostat_request_lifecycle [OF control _ admitted refl refl refl, of "[]" "[]" 64 1000
      bio_request_sample 1500]
    by (simp add: counts info bio_add_def)
qed

theorem biostat_zero_scale_witness:
  "bio_histogram bio_env_sample \<lparr>bc_verbose = 2, bc_bin_scale = 0\<rparr> 7 bio_request_sample 1000000 Map.empty
   = [\<lparr>dk_slot = 0, dk_pid = 7, dk_flags = 1, dk_disk = [115, 100, 97]\<rparr> \<mapsto> 1]"
  by (subst biostat_zero_scale)
    (simp_all add: bio_histogram_def bpf_div_def bio_env_sample_def bio_request_sample_def Let_def
      map_lookup_def map_update_def)

end
