(* ===== verification/Offcpu.thy ===== *)
theory Offcpu
  imports Bpf_Runtime
begin

text \<open>
  Off-CPU time, \<open>release/bcc/offcpu.c\<close>: on every context switch the thread that leaves the processor
  is stamped in \<open>start\<close> (when its state passes the filter of its \<open>control_map\<close> entry), and the
  thread that arrives adds the time since its stamp, in microseconds, to \<open>counts\<close> under a key of its
  ids, stacks and name.
\<close>

section \<open>State\<close>

record offcpu_key =
  ok_pid :: u32
  ok_tgid :: u32
  ok_user_stack_id :: u32
  ok_kernel_stack_id :: u32
  ok_name :: "u8 list"

record warn_event =
  wn_pid :: u32
  wn_tgid :: u32
  wn_t_start :: u32
  wn_t_end :: u32

record offcpu_control =
  oc_verbose :: u32
  oc_state :: u32
  oc_start :: u32
  oc_end :: u32

record offcpu_state =
  off_counts :: "(offcpu_key, u64) bpf_map"
  off_start :: "(u32, u64) bpf_map"
  off_control_map :: "(u32, offcpu_control) bpf_map"
  warn_events :: "warn_event list"

text \<open>
  One switch: the leaving task (\<open>prev\<close>, with its 64 bit \<open>state\<close>), the arriving one, the two readings
  of the clock, and what the stack and name helpers return for it.
\<close>

record switch =
  prev_pid :: u32
  prev_state :: u64
  sw_pid_tgid :: u64
  sw_ts :: u64
  sw_now :: u64
  sw_user_stack :: u32
  sw_kernel_stack :: u32
  sw_comm :: "u8 list"

record offcpu_env =
  refuse_start :: "(u32, u64) refusal"
  refuse_counts :: "(offcpu_key, u64) refusal"

section \<open>The handler\<close>

text \<open>First half: stamp the thread that is switched out.\<close>

definition oncpu_leave :: "offcpu_env \<Rightarrow> switch \<Rightarrow> offcpu_state \<Rightarrow> offcpu_state" where
  "oncpu_leave env w s =
     (let pid = prev_pid w in
      case map_lookup (off_control_map s) pid of
        None \<Rightarrow> s
      | Some con \<Rightarrow>
          if (oc_state con = 0 \<and> prev_state w = 0) \<or> prev_state w AND ucast (oc_state con) \<noteq> 0
          then s\<lparr>off_start := map_update (refuse_start env) (off_start s) pid (sw_ts w)\<rparr>
          else s)"

text \<open>
  The key: a zeroed structure whose stack fields are set by the verbosity. In the branch for
  \<open>verbose \<le> 1\<close> the source assigns \<open>user_stack_id\<close> a second time and leaves \<open>kernel_stack_id\<close> zero.
\<close>

definition oncpu_key :: "switch \<Rightarrow> offcpu_control \<Rightarrow> u32 \<Rightarrow> u32 \<Rightarrow> offcpu_key" where
  "oncpu_key w con pid tgid =
     (let key = \<lparr>ok_pid = pid, ok_tgid = tgid, ok_user_stack_id = 0, ok_kernel_stack_id = 0,
                 ok_name = replicate 32 0\<rparr>;
          key = (if oc_verbose con > 2 then key\<lparr>ok_user_stack_id := sw_user_stack w\<rparr>
                 else key\<lparr>ok_user_stack_id := - 1\<rparr>);
          key = (if oc_verbose con > 1 then key\<lparr>ok_kernel_stack_id := sw_kernel_stack w\<rparr>
                 else key\<lparr>ok_user_stack_id := - 1\<rparr>)
      in key\<lparr>ok_name := sw_comm w\<rparr>)"

text \<open>Second half: charge the thread that is switched in.\<close>

definition oncpu_arrive :: "offcpu_env \<Rightarrow> switch \<Rightarrow> offcpu_state \<Rightarrow> offcpu_state" where
  "oncpu_arrive env w s =
     (let pid = lo32 (sw_pid_tgid w); tgid = hi32 (sw_pid_tgid w) in
      case map_lookup (off_control_map s) pid of
        None \<Rightarrow> s
      | Some con \<Rightarrow>
          (case map_lookup (off_start s) pid of
             None \<Rightarrow> s
           | Some t_start \<Rightarrow>
               let t_end = sw_now w;
                   s = s\<lparr>off_start := map_delete (off_start s) pid\<rparr>
               in if t_start > t_end then
                    s\<lparr>warn_events := warn_events s @
                        [\<lparr>wn_pid = pid, wn_tgid = tgid, wn_t_start = ucast t_start,
                          wn_t_end = ucast t_end\<rparr>]\<rparr>
                  else
                    let delta = (t_end - t_start) div 1000 in
                    if delta < ucast (oc_start con) \<or> delta > ucast (oc_end con) then s
                    else s\<lparr>off_counts := map_increment (refuse_counts env) (off_counts s)
                                          (oncpu_key w con pid tgid) delta\<rparr>))"

definition oncpu :: "offcpu_env \<Rightarrow> offcpu_state \<Rightarrow> switch \<Rightarrow> offcpu_state" where
  "oncpu env s w = oncpu_arrive env w (oncpu_leave env w s)"

definition offcpu_run :: "offcpu_env \<Rightarrow> offcpu_state \<Rightarrow> switch list \<Rightarrow> offcpu_state" where
  "offcpu_run env = foldl (oncpu env)"

lemmas offcpu_defs =
  oncpu_def oncpu_leave_def oncpu_arrive_def Let_def bpf_map_defs

section \<open>Invariant\<close>

text \<open>Only monitored threads leave traces: stamps and totals belong to threads with a control entry.\<close>

definition offcpu_inv :: "offcpu_state \<Rightarrow> bool" where
  "offcpu_inv s \<longleftrightarrow>
     (\<forall>p. off_start s p \<noteq> None \<longrightarrow> off_control_map s p \<noteq> None) \<and>
     (\<forall>k. off_counts s k \<noteq> None \<longrightarrow> off_control_map s (ok_pid k) \<noteq> None) \<and>
     (\<forall>e \<in> set (warn_events s). off_control_map s (wn_pid e) \<noteq> None)"

lemma oncpu_control [simp]: "off_control_map (oncpu env s w) = off_control_map s"
  by (simp add: offcpu_defs split: option.splits)

lemma oncpu_key_pid [simp]: "ok_pid (oncpu_key w con pid tgid) = pid"
  by (simp add: oncpu_key_def Let_def)

lemma oncpu_leave_inv: "offcpu_inv s \<Longrightarrow> offcpu_inv (oncpu_leave env w s)"
  by (auto simp: offcpu_inv_def oncpu_leave_def Let_def map_lookup_def map_update_def
      split: option.splits if_splits)

lemma oncpu_arrive_inv: "offcpu_inv s \<Longrightarrow> offcpu_inv (oncpu_arrive env w s)"
  unfolding offcpu_inv_def oncpu_arrive_def Let_def map_lookup_def map_delete_def map_increment_def
    map_update_def map_store_def
  by (auto split: option.splits if_splits)

text \<open>Whatever the order of the context switches, a stamp, a total or a warning exists only for a
  thread user space monitors: the invariant is kept by every switch, so by every run.\<close>

theorem offcpu_run_inv: "offcpu_inv s \<Longrightarrow> offcpu_inv (offcpu_run env s ws)"
  unfolding offcpu_run_def
  by (rule foldl_invariant [where P = offcpu_inv])
    (simp_all add: oncpu_def oncpu_arrive_inv oncpu_leave_inv)

definition offcpu_sample :: offcpu_state where
  "offcpu_sample = \<lparr>off_counts = Map.empty, off_start = Map.empty,
     off_control_map = [7 \<mapsto> \<lparr>oc_verbose = 1, oc_state = 1, oc_start = 0, oc_end = 1000\<rparr>], warn_events = []\<rparr>"

definition offcpu_env_sample :: offcpu_env where
  "offcpu_env_sample = \<lparr>refuse_start = (\<lambda>m k. False), refuse_counts = (\<lambda>m k. False)\<rparr>"

definition switch_out_sample :: switch where
  "switch_out_sample = \<lparr>prev_pid = 7, prev_state = 1, sw_pid_tgid = join32 1 1, sw_ts = 5000, sw_now = 5000,
     sw_user_stack = 0, sw_kernel_stack = 0, sw_comm = []\<rparr>"

definition switch_in_sample :: switch where
  "switch_in_sample = \<lparr>prev_pid = 1, prev_state = 0, sw_pid_tgid = join32 6 7, sw_ts = 90000, sw_now = 90000,
     sw_user_stack = 3, sw_kernel_stack = 4, sw_comm = [97]\<rparr>"

theorem offcpu_run_inv_witness:
  "offcpu_inv (offcpu_run offcpu_env_sample offcpu_sample [switch_out_sample, switch_in_sample])"
  by (rule offcpu_run_inv) (simp add: offcpu_inv_def offcpu_sample_def)

section \<open>The time charged\<close>

definition not_involved :: "u32 \<Rightarrow> switch \<Rightarrow> bool" where
  "not_involved p w \<longleftrightarrow> prev_pid w \<noteq> p \<and> lo32 (sw_pid_tgid w) \<noteq> p"

lemma oncpu_leave_start_other:
  "prev_pid w \<noteq> p \<Longrightarrow> off_start (oncpu_leave env w s) p = off_start s p"
  by (auto simp: offcpu_defs split: option.splits)

lemma oncpu_arrive_start_other:
  "lo32 (sw_pid_tgid w) \<noteq> p \<Longrightarrow> off_start (oncpu_arrive env w s) p = off_start s p"
  unfolding oncpu_arrive_def Let_def map_lookup_def map_delete_def
  by (auto split: option.splits if_splits)

lemma oncpu_leave_frame [simp]:
  "off_counts (oncpu_leave env w s) = off_counts s"
  "off_control_map (oncpu_leave env w s) = off_control_map s"
  by (auto simp: offcpu_defs split: option.splits)

lemma offcpu_run_start_other:
  "\<forall>w \<in> set ws. not_involved p w \<Longrightarrow> off_start (offcpu_run env s ws) p = off_start s p"
  by (induction ws arbitrary: s)
    (auto simp: offcpu_run_def not_involved_def oncpu_def oncpu_leave_start_other
      oncpu_arrive_start_other)

lemma offcpu_run_control [simp]: "off_control_map (offcpu_run env s ws) = off_control_map s"
  unfolding offcpu_run_def by (rule foldl_frame) simp

text \<open>C39: a sleep is charged exactly once. Assume the kernel admits the keys of both tables and the clock has
  not gone back in between. If a monitored thread leaves the processor in a state that
  passes its filter and comes back after any switches of other threads, the time between the two
  clock readings, in microseconds, is added to the total of its key when it lies within the bounds
  of its control entry; no other total changes and the stamp is gone.\<close>

theorem offcpu_time_charged:
  assumes con: "off_control_map s p = Some con"
    and out: "prev_pid w1 = p" "lo32 (sw_pid_tgid w1) \<noteq> p"
      "(oc_state con = 0 \<and> prev_state w1 = 0) \<or> prev_state w1 AND ucast (oc_state con) \<noteq> 0"
    and between: "\<forall>w \<in> set ws. not_involved p w"
    and return: "lo32 (sw_pid_tgid w2) = p" "prev_pid w2 \<noteq> p"
    and admitted: "\<And>m k. \<not> refuse_start env m k" "\<And>m k. \<not> refuse_counts env m k"
    and s1: "s1 = offcpu_run env s (w1 # ws)"
    and delta: "sw_ts w1 \<le> sw_now w2" "delta = (sw_now w2 - sw_ts w1) div 1000"
      "ucast (oc_start con) \<le> delta" "delta \<le> ucast (oc_end con)"
    and key: "key = oncpu_key w2 con p (hi32 (sw_pid_tgid w2))"
  shows "off_start (oncpu env s1 w2) p = None \<and>
     off_counts (oncpu env s1 w2) = (off_counts s1)(key \<mapsto>
       (case off_counts s1 key of None \<Rightarrow> delta | Some c \<Rightarrow> c + delta))"
proof -
  have "off_start (oncpu_leave env w1 s) p = Some (sw_ts w1)"
    using con out admitted(1) by (simp add: oncpu_leave_def Let_def map_lookup_def map_update_def)
  then have "off_start (oncpu env s w1) p = Some (sw_ts w1)"
    using out(2) by (simp add: oncpu_def oncpu_arrive_start_other)
  then have "off_start s1 p = Some (sw_ts w1)"
    using offcpu_run_start_other [OF between, of env "oncpu env s w1"] by (simp add: s1 offcpu_run_def)
  then have stamp: "off_start (oncpu_leave env w2 s1) p = Some (sw_ts w1)"
    using return(2) by (simp add: oncpu_leave_start_other)
  have con2: "off_control_map (oncpu_leave env w2 s1) p = Some con"
    using con by (simp add: s1)
  have incr: "map_increment (refuse_counts env) m k d =
      m(k \<mapsto> (case m k of None \<Rightarrow> d | Some c \<Rightarrow> c + d))" for m k d
    using admitted(2) by (auto simp: map_increment_def map_update_def map_store_def split: option.splits)
  have bounds: "\<not> sw_now w2 < sw_ts w1" "\<not> delta < ucast (oc_start con)"
      "\<not> ucast (oc_end con) < delta"
    using delta by (simp_all add: not_less)
  show ?thesis
    using stamp con2 return bounds
    by (simp add: oncpu_def oncpu_arrive_def Let_def map_lookup_def map_delete_def incr key
        delta(2) [symmetric])
qed

theorem offcpu_time_charged_witness:
  "off_counts (oncpu offcpu_env_sample (offcpu_run offcpu_env_sample offcpu_sample [switch_out_sample])
      switch_in_sample)
    \<lparr>ok_pid = 7, ok_tgid = 6, ok_user_stack_id = - 1, ok_kernel_stack_id = 0, ok_name = [97]\<rparr> = Some 85"
proof -
  let ?con = "\<lparr>oc_verbose = 1, oc_state = 1, oc_start = 0, oc_end = 1000\<rparr>"
  have con: "off_control_map offcpu_sample 7 = Some ?con"
    by (simp add: offcpu_sample_def)
  have admitted: "\<not> refuse_start offcpu_env_sample m k" "\<not> refuse_counts offcpu_env_sample m' k'"
    for m k m' k'
    by (simp_all add: offcpu_env_sample_def)
  have key: "oncpu_key switch_in_sample ?con 7 (hi32 (sw_pid_tgid switch_in_sample)) =
      \<lparr>ok_pid = 7, ok_tgid = 6, ok_user_stack_id = - 1, ok_kernel_stack_id = 0, ok_name = [97]\<rparr>"
    by (simp add: oncpu_key_def switch_in_sample_def)
  have counts: "off_counts (offcpu_run offcpu_env_sample offcpu_sample [switch_out_sample]) = Map.empty"
    by (simp add: offcpu_run_def offcpu_defs offcpu_sample_def switch_out_sample_def)
  have fields: "prev_pid switch_out_sample = 7" "prev_state switch_out_sample = 1"
      "lo32 (sw_pid_tgid switch_out_sample) = 1" "sw_ts switch_out_sample = 5000"
      "lo32 (sw_pid_tgid switch_in_sample) = 7" "prev_pid switch_in_sample = 1"
      "sw_now switch_in_sample = 90000"
    by (simp_all add: switch_in_sample_def switch_out_sample_def)
  have d: "(85 :: u64) = (sw_now switch_in_sample - sw_ts switch_out_sample) div 1000"
    by (simp add: switch_in_sample_def switch_out_sample_def)
  from offcpu_time_charged [OF con _ _ _ _ _ _ admitted refl _ d _ _ refl, of "[]"]
  show ?thesis
    by (simp add: key counts fields word_le_nat_alt)
qed

text \<open>Without kernel stacks every key carries kernel stack 0, which is a valid stack id, and not the
  marker \<open>-1\<close> the branch was written to set: for \<open>verbose \<le> 1\<close> the second assignment goes to
  \<open>user_stack_id\<close>. So for any verbosity up to 1 a reader cannot tell "not recorded" from stack 0.\<close>

theorem offcpu_kernel_stack_unmarked:
  "oc_verbose con \<le> 1 \<Longrightarrow> oncpu_key w con pid tgid =
     \<lparr>ok_pid = pid, ok_tgid = tgid, ok_user_stack_id = - 1, ok_kernel_stack_id = 0, ok_name = sw_comm w\<rparr>"
  by (auto simp: oncpu_key_def Let_def not_less word_less_nat_alt word_le_nat_alt)

theorem offcpu_kernel_stack_unmarked_witness:
  "ok_kernel_stack_id (oncpu_key switch_in_sample
     \<lparr>oc_verbose = 1, oc_state = 0, oc_start = 0, oc_end = 0\<rparr> 7 6) = 0"
  by (subst offcpu_kernel_stack_unmarked) simp_all

end
