(* ===== verification/Tcpdrop.thy ===== *)
theory Tcpdrop
  imports Bpf_Runtime
begin

text \<open>
  Packet drops, \<open>release/bcc/tcpdrop.c\<close>: the probe on the kernel's \<open>tcp_drop\<close> reports the addresses,
  ports, flags and stacks of a dropped segment of a monitored process, in one of two perf buffers by
  address family. The packet headers are read at the offsets of \<open>struct tcphdr\<close> and \<open>struct iphdr\<close>,
  the wire formats of TCP and IPv4.
\<close>

section \<open>Data\<close>

record ipv4_data =
  d4_pid :: u32
  d4_stack_id :: u32
  d4_ustack_id :: u32
  d4_state :: u8
  d4_tcpflags :: u8
  d4_sport :: u16
  d4_dport :: u16
  d4_saddr :: u32
  d4_daddr :: u32

record ipv6_data =
  d6_pid :: u32
  d6_stack_id :: u32
  d6_ustack_id :: u32
  d6_state :: u8
  d6_tcpflags :: u8
  d6_sport :: u16
  d6_dport :: u16
  d6_saddr :: "u8 list"
  d6_daddr :: "u8 list"

record tcpdrop_state =
  td_control_map :: "(u32, u32) bpf_map"
  ipv4_events :: "ipv4_data list"
  ipv6_events :: "ipv6_data list"

text \<open>
  What the probe reads of the socket and of the packet buffer, and what the helpers return at the
  call: \<open>sk\<close> may be \<open>NULL\<close>. The value of \<open>control_map\<close> is the verbosity.
\<close>

record sock =
  skc_family :: u16
  skc_state :: u8
  skc_v6_daddr :: "u8 list"
  skc_v6_rcv_saddr :: "u8 list"

record sk_buff =
  skb_head :: u64
  skb_transport_header :: u16
  skb_network_header :: u16

record drop_ctx =
  dc_pid_tgid :: u64
  dc_mem :: kmem
  dc_user_stack :: u32
  dc_kernel_stack :: u32

definition AF_INET :: u16 where "AF_INET = 2"
definition AF_INET6 :: u16 where "AF_INET6 = 10"

section \<open>The handler\<close>

definition skb_to_tcphdr :: "sk_buff \<Rightarrow> u64" where
  "skb_to_tcphdr skb = skb_head skb + ucast (skb_transport_header skb)"

definition skb_to_iphdr :: "sk_buff \<Rightarrow> u64" where
  "skb_to_iphdr skb = skb_head skb + ucast (skb_network_header skb)"

text \<open>\<open>tcp->source\<close>, \<open>tcp->dest\<close>, the flag byte, \<open>ip->saddr\<close> and \<open>ip->daddr\<close>.\<close>

definition tcp_source :: "kmem \<Rightarrow> u64 \<Rightarrow> u16" where
  "tcp_source mem tcp = le16 (probe_read mem tcp 2)"

definition tcp_dest :: "kmem \<Rightarrow> u64 \<Rightarrow> u16" where
  "tcp_dest mem tcp = le16 (probe_read mem (tcp + 2) 2)"

definition tcp_flag_byte :: "kmem \<Rightarrow> u64 \<Rightarrow> u8" where
  "tcp_flag_byte mem tcp = hd (probe_read mem (tcp + 13) 1)"

definition ip_saddr :: "kmem \<Rightarrow> u64 \<Rightarrow> u32" where
  "ip_saddr mem ip = le32 (probe_read mem (ip + 12) 4)"

definition ip_daddr :: "kmem \<Rightarrow> u64 \<Rightarrow> u32" where
  "ip_daddr mem ip = le32 (probe_read mem (ip + 16) 4)"

definition drop_data4 :: "drop_ctx \<Rightarrow> sock \<Rightarrow> sk_buff \<Rightarrow> u32 \<Rightarrow> u32 \<Rightarrow> ipv4_data" where
  "drop_data4 ctx sk skb pid verbose =
     (let tcp = skb_to_tcphdr skb; ip = skb_to_iphdr skb; mem = dc_mem ctx in
      \<lparr>d4_pid = pid,
       d4_stack_id = (if verbose > 2 then dc_kernel_stack ctx else - 1),
       d4_ustack_id = (if verbose > 1 then dc_user_stack ctx else 0),
       d4_state = skc_state sk, d4_tcpflags = tcp_flag_byte mem tcp,
       d4_sport = ntohs (tcp_source mem tcp), d4_dport = ntohs (tcp_dest mem tcp),
       d4_saddr = ip_saddr mem ip, d4_daddr = ip_daddr mem ip\<rparr>)"

definition drop_data6 :: "drop_ctx \<Rightarrow> sock \<Rightarrow> sk_buff \<Rightarrow> u32 \<Rightarrow> u32 \<Rightarrow> ipv6_data" where
  "drop_data6 ctx sk skb pid verbose =
     (let tcp = skb_to_tcphdr skb; mem = dc_mem ctx in
      \<lparr>d6_pid = pid,
       d6_stack_id = (if verbose > 2 then dc_kernel_stack ctx else 0),
       d6_ustack_id = (if verbose > 1 then dc_user_stack ctx else 0),
       d6_state = skc_state sk, d6_tcpflags = tcp_flag_byte mem tcp,
       d6_sport = ntohs (tcp_source mem tcp), d6_dport = ntohs (tcp_dest mem tcp),
       d6_saddr = skc_v6_daddr sk, d6_daddr = skc_v6_rcv_saddr sk\<rparr>)"

definition trace_tcp_drop ::
  "drop_ctx \<Rightarrow> sock option \<Rightarrow> sk_buff \<Rightarrow> tcpdrop_state \<Rightarrow> tcpdrop_state" where
  "trace_tcp_drop ctx sk_ptr skb s =
     (case sk_ptr of
        None \<Rightarrow> s
      | Some sk \<Rightarrow>
          let pid = hi32 (dc_pid_tgid ctx) in
          case map_lookup (td_control_map s) pid of
            None \<Rightarrow> s
          | Some verbose \<Rightarrow>
              if skc_family sk = AF_INET then
                s\<lparr>ipv4_events := ipv4_events s @ [drop_data4 ctx sk skb pid verbose]\<rparr>
              else if skc_family sk = AF_INET6 then
                s\<lparr>ipv6_events := ipv6_events s @ [drop_data6 ctx sk skb pid verbose]\<rparr>
              else s)"

section \<open>Runs\<close>

type_synonym drop_hit = "drop_ctx \<times> sock option \<times> sk_buff"

definition tcpdrop_run :: "tcpdrop_state \<Rightarrow> drop_hit list \<Rightarrow> tcpdrop_state" where
  "tcpdrop_run = foldl (\<lambda>s (ctx, sk, skb). trace_tcp_drop ctx sk skb s)"

definition reported :: "(u32, u32) bpf_map \<Rightarrow> u16 \<Rightarrow> drop_hit \<Rightarrow> bool" where
  "reported control family = (\<lambda>(ctx, sk, skb).
     control (hi32 (dc_pid_tgid ctx)) \<noteq> None \<and>
     (case sk of None \<Rightarrow> False | Some sk \<Rightarrow> skc_family sk = family))"

definition hit_pid :: "drop_hit \<Rightarrow> u32" where
  "hit_pid = (\<lambda>(ctx, sk, skb). hi32 (dc_pid_tgid ctx))"

lemma trace_tcp_drop_log:
  "map d4_pid (ipv4_events (trace_tcp_drop ctx sk skb s)) = map d4_pid (ipv4_events s) @
     (if reported (td_control_map s) AF_INET (ctx, sk, skb) then [hit_pid (ctx, sk, skb)] else [])"
  "map d6_pid (ipv6_events (trace_tcp_drop ctx sk skb s)) = map d6_pid (ipv6_events s) @
     (if reported (td_control_map s) AF_INET6 (ctx, sk, skb) then [hit_pid (ctx, sk, skb)] else [])"
  "td_control_map (trace_tcp_drop ctx sk skb s) = td_control_map s"
  by (auto simp: trace_tcp_drop_def reported_def hit_pid_def drop_data4_def drop_data6_def Let_def
      map_lookup_def AF_INET_def AF_INET6_def split: option.splits)

text \<open>Over any sequence of drops, each drop of a monitored process on an IPv4 socket appears once,
  in order, in the IPv4 buffer, each on an IPv6 socket once in the IPv6 buffer, and no other drop (no
  socket, other family, process not monitored) appears in either.\<close>

theorem tcpdrop_log_complete:
  "map d4_pid (ipv4_events (tcpdrop_run s hits)) =
     map d4_pid (ipv4_events s) @ map hit_pid (filter (reported (td_control_map s) AF_INET) hits)
   \<and> map d6_pid (ipv6_events (tcpdrop_run s hits)) =
     map d6_pid (ipv6_events s) @ map hit_pid (filter (reported (td_control_map s) AF_INET6) hits)"
proof (induction hits arbitrary: s)
  case Nil
  then show ?case by (simp add: tcpdrop_run_def)
next
  case (Cons h hits)
  obtain ctx sk skb where h: "h = (ctx, sk, skb)" by (cases h)
  show ?case
    using Cons [of "trace_tcp_drop ctx sk skb s"]
    by (simp add: h tcpdrop_run_def trace_tcp_drop_log)
qed

lemma probe_read_2: "mem a = Some b0 \<Longrightarrow> mem (a + 1) = Some b1 \<Longrightarrow> probe_read mem a 2 = [b0, b1]"
  by (simp add: probe_read_def readable_def mem_bytes_def numeral_2_eq_2)

lemma unat_be16: "unat (or (push_bit 8 (ucast b0)) (ucast b1) :: u16) = 256 * unat (b0 :: u8) + unat (b1 :: u8)"
proof -
  have "or (push_bit 8 (ucast b0)) (ucast b1) = (push_bit 8 (ucast b0) + ucast b1 :: u16)"
    by (rule disjunctive_add [symmetric]) (auto simp: bit_simps dest: bit_imp_le_length)
  moreover have "unat (push_bit 8 (ucast b0) + ucast b1 :: u16) = 256 * unat b0 + unat b1"
    using unsigned_less [of b0, where ?'a = nat] unsigned_less [of b1, where ?'a = nat]
    by (simp add: unat_word_ariths push_bit_eq_mult unsigned_ucast_eq take_bit_nat_eq_self)
  ultimately show ?thesis by simp
qed

text \<open>The ports are reported in host order: the first and third header bytes are the high bytes of
  the source and of the destination port.\<close>

theorem tcpdrop_ports_host_order:
  assumes "dc_mem ctx (skb_to_tcphdr skb) = Some b0" "dc_mem ctx (skb_to_tcphdr skb + 1) = Some b1"
    and "dc_mem ctx (skb_to_tcphdr skb + 2) = Some b2" "dc_mem ctx (skb_to_tcphdr skb + 3) = Some b3"
  shows "unat (d4_sport (drop_data4 ctx sk skb pid v)) = 256 * unat b0 + unat b1
    \<and> unat (d4_dport (drop_data4 ctx sk skb pid v)) = 256 * unat b2 + unat b3
    \<and> d6_sport (drop_data6 ctx sk skb pid v) = d4_sport (drop_data4 ctx sk skb pid v)
    \<and> d6_dport (drop_data6 ctx sk skb pid v) = d4_dport (drop_data4 ctx sk skb pid v)"
  using assms
  by (simp add: drop_data4_def drop_data6_def Let_def tcp_source_def tcp_dest_def probe_read_2
      ntohs_le16 [simplified] unat_be16 add.assoc)

theorem tcpdrop_ports_host_order_witness:
  "unat (d4_sport (drop_data4
      \<lparr>dc_pid_tgid = 0, dc_mem = (\<lambda>a. Some (ucast a)), dc_user_stack = 0, dc_kernel_stack = 0\<rparr> sk
      \<lparr>skb_head = 0, skb_transport_header = 3, skb_network_header = 0\<rparr> 7 1)) = 256 * 3 + 4"
  using tcpdrop_ports_host_order
    [of "\<lparr>dc_pid_tgid = 0, dc_mem = (\<lambda>a. Some (ucast a)), dc_user_stack = 0, dc_kernel_stack = 0\<rparr>"
        "\<lparr>skb_head = 0, skb_transport_header = 3, skb_network_header = 0\<rparr>" 3 4 5 6 sk 7 1]
  by (simp add: skb_to_tcphdr_def)

end
