(* ===== verification/Tcpreq.thy ===== *)
theory Tcpreq
  imports Bpf_Runtime
begin

text \<open>
  TCP request tracing, \<open>release/bcc/tcpreq.c\<close>: per connection of a monitored process a small state
  machine in \<open>conn_map\<close> (connected, receiving, sending, disconnected) and one event in \<open>tcp_event\<close> for
  each change. A socket's addresses are read at the start of \<open>struct sock\<close>, laid out as the source's
  \<open>struct socket_pair\<close>.
\<close>

section \<open>State\<close>

definition MSG_TYPE_RECV_CLEAN_RBUF :: u32 where "MSG_TYPE_RECV_CLEAN_RBUF = 1"
definition MSG_TYPE_SEND_ENTRY :: u32 where "MSG_TYPE_SEND_ENTRY = 2"
definition MSG_TYPE_CONNECT :: u32 where "MSG_TYPE_CONNECT = 3"
definition MSG_TYPE_DISCONNECT :: u32 where "MSG_TYPE_DISCONNECT = 4"

lemmas msg_type_defs =
  MSG_TYPE_RECV_CLEAN_RBUF_def MSG_TYPE_SEND_ENTRY_def MSG_TYPE_CONNECT_def MSG_TYPE_DISCONNECT_def

record socket_pair =
  sp_peer_addr :: u32
  sp_my_addr :: u32
  sp_placeholder :: u32
  sp_peer_port :: u16
  sp_my_port :: u16

record msg_event =
  me_cur_ts :: u64
  me_type :: u32
  me_pid :: u32
  me_peer_addr :: u32
  me_my_addr :: u32
  me_peer_port :: u16
  me_my_port :: u16

record conn_pair =
  cp_peer_addr :: u32
  cp_my_addr :: u32
  cp_peer_port :: u16
  cp_my_port :: u16

record conn_state =
  cs_type :: u32
  cs_prevTime :: u64

text \<open>The value of \<open>control_map\<close> is the verbosity; \<open>ptr_map\<close> holds the socket of a pending accept.\<close>

record tcpreq_state =
  tr_control_map :: "(u32, u32) bpf_map"
  ptr_map :: "(u32, u64) bpf_map"
  conn_map :: "(conn_pair, conn_state) bpf_map"
  tcp_event :: "msg_event list"

text \<open>
  A probe hit: current task, first two arguments, memory, and the readings of the clock (a handler
  reads it at most twice). \<open>socket_sk_off\<close> is the offset of \<open>sk\<close> in the kernel's \<open>struct socket\<close>.
\<close>

record tcpreq_ctx =
  tc_pid_tgid :: u64
  tc_parm1 :: u64
  tc_parm2 :: u64
  tc_mem :: kmem
  tc_ts1 :: u64
  tc_ts2 :: u64

record tcpreq_env =
  socket_sk_off :: u64
  refuse_ptr :: "(u32, u64) refusal"
  refuse_conn :: "(conn_pair, conn_state) refusal"

section \<open>Handlers\<close>

definition read_socket_pair :: "kmem \<Rightarrow> u64 \<Rightarrow> socket_pair" where
  "read_socket_pair mem skp =
     (let bs = probe_read mem skp 16 in
      \<lparr>sp_peer_addr = le32 bs, sp_my_addr = le32 (drop 4 bs), sp_placeholder = le32 (drop 8 bs),
       sp_peer_port = le16 (drop 12 bs), sp_my_port = le16 (drop 14 bs)\<rparr>)"

definition conn_of :: "socket_pair \<Rightarrow> conn_pair" where
  "conn_of sk = \<lparr>cp_peer_addr = sp_peer_addr sk, cp_my_addr = sp_my_addr sk,
                 cp_peer_port = ntohs (sp_peer_port sk), cp_my_port = sp_my_port sk\<rparr>"

definition emit_event :: "u64 \<Rightarrow> u32 \<Rightarrow> conn_pair \<Rightarrow> u32 \<Rightarrow> tcpreq_state \<Rightarrow> tcpreq_state" where
  "emit_event now pid conn type s =
     s\<lparr>tcp_event := tcp_event s @
        [\<lparr>me_cur_ts = now, me_type = type, me_pid = pid, me_peer_addr = cp_peer_addr conn,
          me_my_addr = cp_my_addr conn, me_peer_port = cp_peer_port conn,
          me_my_port = cp_my_port conn\<rparr>]\<rparr>"

definition check_state :: "tcpreq_ctx \<Rightarrow> u32 \<Rightarrow> conn_pair \<Rightarrow> u32 \<Rightarrow> tcpreq_state \<Rightarrow> tcpreq_state" where
  "check_state ctx pid conn type s =
     (case map_lookup (conn_map s) conn of
        None \<Rightarrow> s
      | Some state \<Rightarrow>
          let state = state\<lparr>cs_prevTime := tc_ts1 ctx\<rparr>;
              s = s\<lparr>conn_map := map_store (conn_map s) conn state\<rparr>
          in if cs_type state \<noteq> type then
               let state = state\<lparr>cs_type := type\<rparr>;
                   s = s\<lparr>conn_map := map_store (conn_map s) conn state\<rparr>
               in emit_event (tc_ts2 ctx) pid conn type s
             else s)"

definition kprobe_security_socket_accept ::
  "tcpreq_env \<Rightarrow> tcpreq_ctx \<Rightarrow> tcpreq_state \<Rightarrow> tcpreq_state" where
  "kprobe_security_socket_accept env ctx s =
     (let pid = hi32 (tc_pid_tgid ctx) in
      case map_lookup (tr_control_map s) pid of
        None \<Rightarrow> s
      | Some con \<Rightarrow> s\<lparr>ptr_map := map_update (refuse_ptr env) (ptr_map s) pid (tc_parm2 ctx)\<rparr>)"

definition kretprobe_move_addr_to_user ::
  "tcpreq_env \<Rightarrow> tcpreq_ctx \<Rightarrow> tcpreq_state \<Rightarrow> tcpreq_state" where
  "kretprobe_move_addr_to_user env ctx s =
     (let pid = hi32 (tc_pid_tgid ctx) in
      case map_lookup (ptr_map s) pid of
        None \<Rightarrow> s
      | Some sockp \<Rightarrow>
          let skp = le64 (probe_read (tc_mem ctx) (sockp + socket_sk_off env) 8);
              s = s\<lparr>ptr_map := map_delete (ptr_map s) pid\<rparr>;
              conn = conn_of (read_socket_pair (tc_mem ctx) skp);
              zero = \<lparr>cs_type = MSG_TYPE_CONNECT, cs_prevTime = tc_ts1 ctx\<rparr>;
              s = s\<lparr>conn_map := map_update (refuse_conn env) (conn_map s) conn zero\<rparr>
          in emit_event (tc_ts2 ctx) pid conn MSG_TYPE_CONNECT s)"

definition kprobe_tcp_sendmsg_entry :: "tcpreq_ctx \<Rightarrow> tcpreq_state \<Rightarrow> tcpreq_state" where
  "kprobe_tcp_sendmsg_entry ctx s =
     (let pid = hi32 (tc_pid_tgid ctx) in
      case map_lookup (tr_control_map s) pid of
        None \<Rightarrow> s
      | Some verbose \<Rightarrow>
          if verbose \<le> 1 then s
          else check_state ctx pid (conn_of (read_socket_pair (tc_mem ctx) (tc_parm1 ctx)))
                 MSG_TYPE_SEND_ENTRY s)"

definition kprobe_tcp_cleanup_rbuf_entry :: "tcpreq_ctx \<Rightarrow> tcpreq_state \<Rightarrow> tcpreq_state" where
  "kprobe_tcp_cleanup_rbuf_entry ctx s =
     (if sint (lo32 (tc_parm2 ctx)) \<le> 0 then s
      else
        let pid = hi32 (tc_pid_tgid ctx) in
        case map_lookup (tr_control_map s) pid of
          None \<Rightarrow> s
        | Some verbose \<Rightarrow>
            if verbose \<le> 1 then s
            else check_state ctx pid (conn_of (read_socket_pair (tc_mem ctx) (tc_parm1 ctx)))
                   MSG_TYPE_RECV_CLEAN_RBUF s)"

definition kprobe_tcp_close :: "tcpreq_ctx \<Rightarrow> tcpreq_state \<Rightarrow> tcpreq_state" where
  "kprobe_tcp_close ctx s =
     (let pid = hi32 (tc_pid_tgid ctx) in
      case map_lookup (tr_control_map s) pid of
        None \<Rightarrow> s
      | Some con \<Rightarrow>
          let conn = conn_of (read_socket_pair (tc_mem ctx) (tc_parm1 ctx));
              s = check_state ctx pid conn MSG_TYPE_DISCONNECT s
          in s\<lparr>conn_map := map_delete (conn_map s) conn\<rparr>)"

section \<open>Runs\<close>

datatype tcpreq_probe = PAccept | PMoveAddr | PSendMsg | PCleanupRbuf | PClose

fun tcpreq_step :: "tcpreq_env \<Rightarrow> tcpreq_state \<Rightarrow> tcpreq_probe \<times> tcpreq_ctx \<Rightarrow> tcpreq_state" where
  "tcpreq_step env s (PAccept, ctx) = kprobe_security_socket_accept env ctx s"
| "tcpreq_step env s (PMoveAddr, ctx) = kretprobe_move_addr_to_user env ctx s"
| "tcpreq_step env s (PSendMsg, ctx) = kprobe_tcp_sendmsg_entry ctx s"
| "tcpreq_step env s (PCleanupRbuf, ctx) = kprobe_tcp_cleanup_rbuf_entry ctx s"
| "tcpreq_step env s (PClose, ctx) = kprobe_tcp_close ctx s"

definition tcpreq_run ::
  "tcpreq_env \<Rightarrow> tcpreq_state \<Rightarrow> (tcpreq_probe \<times> tcpreq_ctx) list \<Rightarrow> tcpreq_state" where
  "tcpreq_run env = foldl (tcpreq_step env)"

section \<open>The event stream of a connection\<close>

definition event_conn :: "msg_event \<Rightarrow> conn_pair" where
  "event_conn e = \<lparr>cp_peer_addr = me_peer_addr e, cp_my_addr = me_my_addr e,
                   cp_peer_port = me_peer_port e, cp_my_port = me_my_port e\<rparr>"

definition stream :: "conn_pair \<Rightarrow> tcpreq_state \<Rightarrow> u32 list" where
  "stream c s = map me_type (filter (\<lambda>e. event_conn e = c) (tcp_event s))"

text \<open>
  The protocol a reader of the buffer may rely on: a connection's events start with a connect, a
  connect may come at any time, and any other event changes the type of the one before it, which is
  not a disconnect.
\<close>

inductive conn_protocol :: "u32 list \<Rightarrow> bool" where
  none: "conn_protocol []"
| connect: "conn_protocol ts \<Longrightarrow> conn_protocol (ts @ [MSG_TYPE_CONNECT])"
| change: "conn_protocol (ts @ [t]) \<Longrightarrow> t \<noteq> MSG_TYPE_DISCONNECT \<Longrightarrow> t' \<noteq> t \<Longrightarrow>
     t' \<in> {MSG_TYPE_RECV_CLEAN_RBUF, MSG_TYPE_SEND_ENTRY, MSG_TYPE_DISCONNECT} \<Longrightarrow>
     conn_protocol (ts @ [t, t'])"

lemma conn_protocol_change:
  assumes "conn_protocol ts" "ts \<noteq> []" "last ts \<noteq> MSG_TYPE_DISCONNECT" "t' \<noteq> last ts"
    and "t' \<in> {MSG_TYPE_RECV_CLEAN_RBUF, MSG_TYPE_SEND_ENTRY, MSG_TYPE_DISCONNECT}"
  shows "conn_protocol (ts @ [t'])"
  using conn_protocol.change [of "butlast ts" "last ts" t'] assms
  by (metis append.assoc append_Cons append_Nil append_butlast_last_id)

text \<open>The invariant: the table knows the last event of every live connection.\<close>

definition conn_agrees :: "tcpreq_state \<Rightarrow> conn_pair \<Rightarrow> bool" where
  "conn_agrees s c \<longleftrightarrow> (case conn_map s c of None \<Rightarrow> True
     | Some st \<Rightarrow> stream c s \<noteq> [] \<and> last (stream c s) = cs_type st \<and> cs_type st \<noteq> MSG_TYPE_DISCONNECT)"

definition tcpreq_inv :: "tcpreq_state \<Rightarrow> bool" where
  "tcpreq_inv s \<longleftrightarrow> (\<forall>c. conn_protocol (stream c s) \<and> conn_agrees s c)"

lemma emit_event_stream:
  "stream c (emit_event now pid conn type s) = stream c s @ (if c = conn then [type] else [])"
  by (auto simp: stream_def emit_event_def event_conn_def)

lemma emit_event_frame [simp]:
  "conn_map (emit_event now pid conn type s) = conn_map s"
  "ptr_map (emit_event now pid conn type s) = ptr_map s"
  "tr_control_map (emit_event now pid conn type s) = tr_control_map s"
  by (simp_all add: emit_event_def)

lemma stream_frame [simp]:
  "stream c (s\<lparr>conn_map := m\<rparr>) = stream c s"
  "stream c (s\<lparr>ptr_map := pm\<rparr>) = stream c s"
  by (simp_all add: stream_def)

lemma check_state_None: "conn_map s conn = None \<Longrightarrow> check_state ctx pid conn type s = s"
  by (simp add: check_state_def map_lookup_def)

lemma check_state_Some:
  assumes "conn_map s conn = Some st"
  shows "conn_map (check_state ctx pid conn type s) =
           (conn_map s)(conn \<mapsto> \<lparr>cs_type = type, cs_prevTime = tc_ts1 ctx\<rparr>)"
    and "stream c (check_state ctx pid conn type s) =
           stream c s @ (if c = conn \<and> cs_type st \<noteq> type then [type] else [])"
  using assms
  by (cases st; auto simp: check_state_def map_lookup_def map_store_def Let_def emit_event_stream)+

lemma check_state_protocol:
  assumes "tcpreq_inv s"
    and "type \<in> {MSG_TYPE_RECV_CLEAN_RBUF, MSG_TYPE_SEND_ENTRY, MSG_TYPE_DISCONNECT}"
  shows "conn_protocol (stream c (check_state ctx pid conn type s))"
proof (cases "conn_map s conn")
  case None
  then show ?thesis using assms by (simp add: check_state_None tcpreq_inv_def)
next
  case (Some st)
  have "conn_protocol (stream c s)" "conn_agrees s conn"
    using assms(1) by (auto simp: tcpreq_inv_def)
  with Some assms(2) show ?thesis
    by (auto simp: check_state_Some conn_agrees_def intro!: conn_protocol_change)
qed

lemma check_state_agrees:
  assumes "tcpreq_inv s" "type \<noteq> MSG_TYPE_DISCONNECT \<or> c \<noteq> conn"
  shows "conn_agrees (check_state ctx pid conn type s) c"
proof (cases "conn_map s conn")
  case None
  then show ?thesis using assms by (simp add: check_state_None tcpreq_inv_def)
next
  case (Some st)
  have "conn_agrees s c"
    using assms(1) by (auto simp: tcpreq_inv_def)
  with Some assms(2) show ?thesis
    by (auto simp: check_state_Some conn_agrees_def split: option.splits)
qed

lemma check_state_inv:
  assumes "tcpreq_inv s" "type \<in> {MSG_TYPE_RECV_CLEAN_RBUF, MSG_TYPE_SEND_ENTRY}"
  shows "tcpreq_inv (check_state ctx pid conn type s)"
  using assms check_state_protocol [of s type] check_state_agrees [of s type]
  by (auto simp: tcpreq_inv_def msg_type_defs)

lemma accept_inv: "tcpreq_inv s \<Longrightarrow> tcpreq_inv (kprobe_security_socket_accept env ctx s)"
  by (auto simp: kprobe_security_socket_accept_def tcpreq_inv_def conn_agrees_def Let_def
      split: option.splits)

lemma move_addr_inv:
  assumes "tcpreq_inv s"
  shows "tcpreq_inv (kretprobe_move_addr_to_user env ctx s)"
  using assms
  by (auto simp: kretprobe_move_addr_to_user_def tcpreq_inv_def conn_agrees_def Let_def
      emit_event_stream map_update_def msg_type_defs intro: conn_protocol.connect [unfolded msg_type_defs]
      split: option.splits if_splits)

lemma close_inv:
  assumes "tcpreq_inv s"
  shows "tcpreq_inv (kprobe_tcp_close ctx s)"
proof (cases "map_lookup (tr_control_map s) (hi32 (tc_pid_tgid ctx))")
  case None
  with assms show ?thesis by (simp add: kprobe_tcp_close_def Let_def)
next
  case (Some con)
  let ?conn = "conn_of (read_socket_pair (tc_mem ctx) (tc_parm1 ctx))"
  let ?s = "check_state ctx (hi32 (tc_pid_tgid ctx)) ?conn MSG_TYPE_DISCONNECT s"
  have close: "kprobe_tcp_close ctx s = ?s\<lparr>conn_map := map_delete (conn_map ?s) ?conn\<rparr>"
    using Some by (simp add: kprobe_tcp_close_def Let_def)
  have "conn_protocol (stream c ?s)" for c
    using assms by (rule check_state_protocol) simp
  moreover have "conn_agrees (?s\<lparr>conn_map := map_delete (conn_map ?s) ?conn\<rparr>) c" for c
    using check_state_agrees [OF assms, of MSG_TYPE_DISCONNECT c ?conn ctx "hi32 (tc_pid_tgid ctx)"]
    by (cases "c = ?conn") (auto simp: conn_agrees_def map_delete_def split: option.splits)
  ultimately show ?thesis
    by (simp add: close tcpreq_inv_def)
qed

lemma tcpreq_step_inv: "tcpreq_inv s \<Longrightarrow> tcpreq_inv (tcpreq_step env s e)"
  by (cases "(env, s, e)" rule: tcpreq_step.cases)
    (auto simp: accept_inv move_addr_inv close_inv kprobe_tcp_sendmsg_entry_def
      kprobe_tcp_cleanup_rbuf_entry_def Let_def check_state_inv split: option.splits)

text \<open>C36: for every connection, the events in the buffer follow the connection protocol after any
  sequence of runs of the five probes, each run whole, over all processes and connections, from an empty
  table and buffer on: the stream
  begins with a connect, never repeats a send, receive or disconnect, and nothing but a new connect
  follows a disconnect; and the table always agrees with the last event of each live connection.\<close>

theorem tcpreq_events_follow_protocol:
  assumes "conn_map s = Map.empty" "tcp_event s = []"
  shows "conn_protocol (stream c (tcpreq_run env s es)) \<and> conn_agrees (tcpreq_run env s es) c"
proof -
  have "tcpreq_inv s"
    using assms by (simp add: tcpreq_inv_def conn_agrees_def stream_def conn_protocol.none)
  then have "tcpreq_inv (tcpreq_run env s es)"
    unfolding tcpreq_run_def by (rule foldl_invariant) (rule tcpreq_step_inv)
  then show ?thesis by (simp add: tcpreq_inv_def)
qed

text \<open>Only what user space asked for is reported. A probe hit of a process without a control entry
  changes nothing except for finishing an accept that was already pending, and with verbosity at most
  1 sends and receives are not reported either.\<close>

theorem tcpreq_unmonitored_silent:
  assumes "tr_control_map s (hi32 (tc_pid_tgid ctx)) = None
      \<or> (probe \<in> {PSendMsg, PCleanupRbuf} \<and> the (tr_control_map s (hi32 (tc_pid_tgid ctx))) \<le> 1)"
    and "probe = PMoveAddr \<Longrightarrow> ptr_map s (hi32 (tc_pid_tgid ctx)) = None"
  shows "tcpreq_step env s (probe, ctx) = s"
  using assms
  by (cases probe)
    (auto simp: kprobe_security_socket_accept_def kretprobe_move_addr_to_user_def
      kprobe_tcp_sendmsg_entry_def kprobe_tcp_cleanup_rbuf_entry_def kprobe_tcp_close_def Let_def
      map_lookup_def split: option.splits)

definition tcpreq_ctx_sample :: tcpreq_ctx where
  "tcpreq_ctx_sample = \<lparr>tc_pid_tgid = join32 7 7, tc_parm1 = 64, tc_parm2 = 64, tc_mem = (\<lambda>_. Some 0),
     tc_ts1 = 10, tc_ts2 = 11\<rparr>"

definition tcpreq_env_sample :: tcpreq_env where
  "tcpreq_env_sample = \<lparr>socket_sk_off = 24, refuse_ptr = (\<lambda>m k. False), refuse_conn = (\<lambda>m k. False)\<rparr>"

definition tcpreq_sample :: tcpreq_state where
  "tcpreq_sample = \<lparr>tr_control_map = [7 \<mapsto> 2], ptr_map = Map.empty, conn_map = Map.empty, tcp_event = []\<rparr>"

theorem tcpreq_events_follow_protocol_witness:
  "conn_protocol (stream (conn_of (read_socket_pair (\<lambda>_. Some 0) 0))
    (tcpreq_run tcpreq_env_sample tcpreq_sample
     [(PAccept, tcpreq_ctx_sample), (PMoveAddr, tcpreq_ctx_sample), (PSendMsg, tcpreq_ctx_sample),
      (PSendMsg, tcpreq_ctx_sample), (PClose, tcpreq_ctx_sample)]))"
  by (rule tcpreq_events_follow_protocol [THEN conjunct1]) (simp_all add: tcpreq_sample_def)

theorem tcpreq_unmonitored_silent_witness:
  "tcpreq_step tcpreq_env_sample (tcpreq_sample\<lparr>tr_control_map := Map.empty\<rparr>) (PClose, tcpreq_ctx_sample) =
   tcpreq_sample\<lparr>tr_control_map := Map.empty\<rparr>"
  by (rule tcpreq_unmonitored_silent) simp_all

end
