(* ===== verification/Hashmap.thy ===== *)
theory Hashmap
  imports Kmon_Prelude
begin

text \<open>
  The generic hash map of the bundled libbpf, \<open>libbpf/src/hashmap.c\<close> and \<open>hashmap.h\<close>: an array of
  \<open>2 ^ cap_bits\<close> chains that doubles when it is more than three quarters full. Keys are compared and
  hashed by the callbacks stored in the map. The bucket pointer is modelled with its three states
  (null, allocated, freed but still stored), and an access to freed memory or outside the array has
  the result \<open>None\<close>. Sizes are natural numbers: an entry takes 24 bytes, so \<open>(sz + 1) * 4\<close> cannot
  reach \<open>2 ^ 64\<close>. Whether \<open>malloc\<close> and \<open>calloc\<close> succeed is an argument of the operations that call them.
\<close>

section \<open>Data\<close>

type_synonym ('k, 'v) chain = "('k \<times> 'v) list"

datatype ('k, 'v) bucket_array =
  BucketsNull
| Buckets "('k, 'v) chain list"
| BucketsFreed

record ('k, 'v) hashmap =
  hash_fn :: "'k \<Rightarrow> u64"
  equal_fn :: "'k \<Rightarrow> 'k \<Rightarrow> bool"
  buckets :: "('k, 'v) bucket_array"
  cap :: nat
  cap_bits :: nat
  sz :: nat

datatype hashmap_insert_strategy = HASHMAP_ADD | HASHMAP_SET | HASHMAP_UPDATE | HASHMAP_APPEND

definition HASHMAP_MIN_CAP_BITS :: nat where "HASHMAP_MIN_CAP_BITS = 2"

text \<open>
  The upper \<open>bits\<close> bits of a multiplicative hash. In C the shift is undefined for \<open>bits = 0\<close>, where this
  gives 0; the operations compute it for an empty map but do not use it there.
\<close>

definition hash_bits :: "u64 \<Rightarrow> nat \<Rightarrow> nat" where
  "hash_bits h bits = unat (drop_bit (64 - bits) (h * 11400714819323198485))"

section \<open>Operations\<close>

definition hashmap_add_entry :: "('k, 'v) chain \<Rightarrow> 'k \<times> 'v \<Rightarrow> ('k, 'v) chain" where
  "hashmap_add_entry pprev entry = entry # pprev"

definition hashmap_del_entry :: "('k, 'v) chain \<Rightarrow> nat \<Rightarrow> ('k, 'v) chain" where
  "hashmap_del_entry chain i = take i chain @ drop (Suc i) chain"

definition hashmap__init :: "('k \<Rightarrow> u64) \<Rightarrow> ('k \<Rightarrow> 'k \<Rightarrow> bool) \<Rightarrow> ('k, 'v) hashmap" where
  "hashmap__init hash equal =
     \<lparr>hash_fn = hash, equal_fn = equal, buckets = BucketsNull, cap = 0, cap_bits = 0, sz = 0\<rparr>"

definition hashmap__new :: "bool \<Rightarrow> ('k \<Rightarrow> u64) \<Rightarrow> ('k \<Rightarrow> 'k \<Rightarrow> bool) \<Rightarrow> int + ('k, 'v) hashmap" where
  "hashmap__new malloc_ok hash equal =
     (if \<not> malloc_ok then Inl (- ENOMEM) else Inr (hashmap__init hash equal))"

text \<open>\<open>free\<close> of the bucket array: a null pointer stays null, a freed one must not be freed again.\<close>

fun free_buckets :: "('k, 'v) bucket_array \<Rightarrow> ('k, 'v) bucket_array option" where
  "free_buckets BucketsNull = Some BucketsNull"
| "free_buckets (Buckets bs) = Some BucketsFreed"
| "free_buckets BucketsFreed = None"

definition hashmap__clear :: "('k, 'v) hashmap \<Rightarrow> ('k, 'v) hashmap option" where
  "hashmap__clear m =
     (case free_buckets (buckets m) of
        None \<Rightarrow> None
      | Some b \<Rightarrow> Some (m\<lparr>buckets := b, cap := 0, cap_bits := 0, sz := 0\<rparr>))"

definition hashmap__free :: "('k, 'v) hashmap option \<Rightarrow> unit option" where
  "hashmap__free ptr =
     (case ptr of
        None \<Rightarrow> Some ()
      | Some m \<Rightarrow> (case hashmap__clear m of None \<Rightarrow> None | Some _ \<Rightarrow> Some ()))"

definition hashmap__size :: "('k, 'v) hashmap \<Rightarrow> nat" where
  "hashmap__size m = sz m"

definition hashmap__capacity :: "('k, 'v) hashmap \<Rightarrow> nat" where
  "hashmap__capacity m = cap m"

definition hashmap_needs_to_grow :: "('k, 'v) hashmap \<Rightarrow> bool" where
  "hashmap_needs_to_grow m \<longleftrightarrow> cap m = 0 \<or> (sz m + 1) * 4 div 3 > cap m"

text \<open>The walk of \<open>hashmap__for_each_entry\<close>: bucket by bucket, each chain from its head.\<close>

definition hashmap_entries :: "('k, 'v) hashmap \<Rightarrow> ('k, 'v) chain" where
  "hashmap_entries m = (case buckets m of Buckets bs \<Rightarrow> concat (take (cap m) bs) | _ \<Rightarrow> [])"

definition rehash_entry ::
  "('k \<Rightarrow> u64) \<Rightarrow> nat \<Rightarrow> ('k, 'v) chain list \<Rightarrow> 'k \<times> 'v \<Rightarrow> ('k, 'v) chain list" where
  "rehash_entry hash bits bs cur =
     (let h = hash_bits (hash (fst cur)) bits in bs[h := hashmap_add_entry (bs ! h) cur])"

definition hashmap_grow :: "bool \<Rightarrow> ('k, 'v) hashmap \<Rightarrow> (int \<times> ('k, 'v) hashmap) option" where
  "hashmap_grow calloc_ok m =
     (let new_cap_bits = cap_bits m + 1;
          new_cap_bits = (if new_cap_bits < HASHMAP_MIN_CAP_BITS then HASHMAP_MIN_CAP_BITS
                          else new_cap_bits);
          new_cap = 2 ^ new_cap_bits
      in if \<not> calloc_ok then Some (- ENOMEM, m)
         else
           let new_buckets = foldl (rehash_entry (hash_fn m) new_cap_bits) (replicate new_cap [])
                               (hashmap_entries m)
           in case free_buckets (buckets m) of
                None \<Rightarrow> None
              | Some _ \<Rightarrow> Some (0, m\<lparr>cap := new_cap, cap_bits := new_cap_bits,
                                      buckets := Buckets new_buckets\<rparr>))"

fun chain_find :: "('k \<Rightarrow> 'k \<Rightarrow> bool) \<Rightarrow> 'k \<Rightarrow> ('k, 'v) chain \<Rightarrow> nat option" where
  "chain_find equal key [] = None"
| "chain_find equal key (cur # next) =
     (if equal (fst cur) key then Some 0 else map_option Suc (chain_find equal key next))"

text \<open>The entry found is named by its position in the chain.\<close>

definition hashmap_find_entry :: "('k, 'v) hashmap \<Rightarrow> 'k \<Rightarrow> nat \<Rightarrow> nat option option" where
  "hashmap_find_entry m key hash =
     (case buckets m of
        BucketsNull \<Rightarrow> Some None
      | Buckets bs \<Rightarrow>
          if hash < length bs then Some (chain_find (equal_fn m) key (bs ! hash)) else None
      | BucketsFreed \<Rightarrow> None)"

definition chain_at :: "('k, 'v) hashmap \<Rightarrow> nat \<Rightarrow> ('k, 'v) chain" where
  "chain_at m h = (case buckets m of Buckets bs \<Rightarrow> bs ! h | _ \<Rightarrow> [])"

definition set_chain :: "('k, 'v) hashmap \<Rightarrow> nat \<Rightarrow> ('k, 'v) chain \<Rightarrow> ('k, 'v) hashmap" where
  "set_chain m h c =
     (case buckets m of Buckets bs \<Rightarrow> m\<lparr>buckets := Buckets (bs[h := c])\<rparr> | _ \<Rightarrow> m)"

text \<open>
  \<open>hashmap__insert\<close> in two parts: what happens when the key is found, and the insertion of a new entry.
  The result is the return code, the entry reported through \<open>old_key\<close> and \<open>old_value\<close>, and the map.
\<close>

type_synonym ('k, 'v) insert_result = "(int \<times> ('k \<times> 'v) option \<times> ('k, 'v) hashmap) option"

definition hashmap_insert_new ::
  "bool \<Rightarrow> bool \<Rightarrow> ('k, 'v) hashmap \<Rightarrow> 'k \<Rightarrow> 'v \<Rightarrow> ('k, 'v) insert_result" where
  "hashmap_insert_new calloc_ok malloc_ok m key value =
     (case (if hashmap_needs_to_grow m then hashmap_grow calloc_ok m else Some (0, m)) of
        None \<Rightarrow> None
      | Some (err, m) \<Rightarrow>
          if err \<noteq> 0 then Some (err, None, m)
          else
            let h = hash_bits (hash_fn m key) (cap_bits m) in
            if \<not> malloc_ok then Some (- ENOMEM, None, m)
            else
              (case buckets m of
                 Buckets bs \<Rightarrow>
                   if h < length bs
                   then Some (0, None, (set_chain m h (hashmap_add_entry (bs ! h) (key, value)))
                                         \<lparr>sz := sz m + 1\<rparr>)
                   else None
               | _ \<Rightarrow> None))"

definition hashmap__insert ::
  "bool \<Rightarrow> bool \<Rightarrow> ('k, 'v) hashmap \<Rightarrow> 'k \<Rightarrow> 'v \<Rightarrow> hashmap_insert_strategy \<Rightarrow> ('k, 'v) insert_result"
where
  "hashmap__insert calloc_ok malloc_ok m key value strategy =
     (let h = hash_bits (hash_fn m key) (cap_bits m) in
      case (if strategy \<noteq> HASHMAP_APPEND then hashmap_find_entry m key h else Some None) of
        None \<Rightarrow> None
      | Some (Some i) \<Rightarrow>
          let old = Some (chain_at m h ! i) in
          if strategy = HASHMAP_SET \<or> strategy = HASHMAP_UPDATE then
            Some (0, old, set_chain m h ((chain_at m h)[i := (key, value)]))
          else Some (- EEXIST, old, m)
      | Some None \<Rightarrow>
          if strategy = HASHMAP_UPDATE then Some (- ENOENT, None, m)
          else hashmap_insert_new calloc_ok malloc_ok m key value)"

definition hashmap__add :: "bool \<Rightarrow> bool \<Rightarrow> ('k, 'v) hashmap \<Rightarrow> 'k \<Rightarrow> 'v \<Rightarrow> ('k, 'v) insert_result" where
  "hashmap__add calloc_ok malloc_ok m key value =
     hashmap__insert calloc_ok malloc_ok m key value HASHMAP_ADD"

definition hashmap__set :: "bool \<Rightarrow> bool \<Rightarrow> ('k, 'v) hashmap \<Rightarrow> 'k \<Rightarrow> 'v \<Rightarrow> ('k, 'v) insert_result" where
  "hashmap__set calloc_ok malloc_ok m key value =
     hashmap__insert calloc_ok malloc_ok m key value HASHMAP_SET"

definition hashmap__update :: "bool \<Rightarrow> bool \<Rightarrow> ('k, 'v) hashmap \<Rightarrow> 'k \<Rightarrow> 'v \<Rightarrow> ('k, 'v) insert_result"
where
  "hashmap__update calloc_ok malloc_ok m key value =
     hashmap__insert calloc_ok malloc_ok m key value HASHMAP_UPDATE"

definition hashmap__append :: "bool \<Rightarrow> bool \<Rightarrow> ('k, 'v) hashmap \<Rightarrow> 'k \<Rightarrow> 'v \<Rightarrow> ('k, 'v) insert_result"
where
  "hashmap__append calloc_ok malloc_ok m key value =
     hashmap__insert calloc_ok malloc_ok m key value HASHMAP_APPEND"

definition hashmap__find :: "('k, 'v) hashmap \<Rightarrow> 'k \<Rightarrow> 'v option option" where
  "hashmap__find m key =
     (let h = hash_bits (hash_fn m key) (cap_bits m) in
      case hashmap_find_entry m key h of
        None \<Rightarrow> None
      | Some None \<Rightarrow> Some None
      | Some (Some i) \<Rightarrow> Some (Some (snd (chain_at m h ! i))))"

definition hashmap__delete ::
  "('k, 'v) hashmap \<Rightarrow> 'k \<Rightarrow> (bool \<times> ('k \<times> 'v) option \<times> ('k, 'v) hashmap) option" where
  "hashmap__delete m key =
     (let h = hash_bits (hash_fn m key) (cap_bits m) in
      case hashmap_find_entry m key h of
        None \<Rightarrow> None
      | Some None \<Rightarrow> Some (False, None, m)
      | Some (Some i) \<Rightarrow>
          Some (True, Some (chain_at m h ! i),
                (set_chain m h (hashmap_del_entry (chain_at m h) i))\<lparr>sz := sz m - 1\<rparr>))"

text \<open>The walk of \<open>hashmap__for_each_key_entry\<close>.\<close>

definition hashmap_key_entries :: "('k, 'v) hashmap \<Rightarrow> 'k \<Rightarrow> ('k, 'v) chain option" where
  "hashmap_key_entries m key =
     (let bkt = hash_bits (hash_fn m key) (cap_bits m) in
      case buckets m of
        BucketsNull \<Rightarrow> Some []
      | Buckets bs \<Rightarrow>
          if bkt < length bs then Some (filter (\<lambda>cur. equal_fn m (fst cur) key) (bs ! bkt)) else None
      | BucketsFreed \<Rightarrow> None)"

section \<open>Invariant and contents\<close>

text \<open>
  The contents of a map, seen by a key: all its entries with an equal key, in the order of the walk.
  The first one is what \<open>hashmap__find\<close> returns.
\<close>

definition hm_group :: "('k, 'v) hashmap \<Rightarrow> 'k \<Rightarrow> ('k, 'v) chain" where
  "hm_group m k = filter (\<lambda>e. equal_fn m (fst e) k) (hashmap_entries m)"

definition hm_lookup :: "('k, 'v) hashmap \<Rightarrow> 'k \<Rightarrow> 'v option" where
  "hm_lookup m k = (case hm_group m k of [] \<Rightarrow> None | e # _ \<Rightarrow> Some (snd e))"

text \<open>What the callbacks must satisfy: an equivalence that the hash function respects.\<close>

definition good_keys :: "('k \<Rightarrow> u64) \<Rightarrow> ('k \<Rightarrow> 'k \<Rightarrow> bool) \<Rightarrow> bool" where
  "good_keys hash equal \<longleftrightarrow> equivp equal \<and> (\<forall>a b. equal a b \<longrightarrow> hash a = hash b)"

definition hm_placed :: "('k \<Rightarrow> u64) \<Rightarrow> nat \<Rightarrow> ('k, 'v) chain list \<Rightarrow> bool" where
  "hm_placed hash bits bs \<longleftrightarrow>
     length bs = 2 ^ bits \<and>
     (\<forall>i < length bs. \<forall>e \<in> set (bs ! i). hash_bits (hash (fst e)) bits = i)"

definition hm_inv :: "('k, 'v) hashmap \<Rightarrow> bool" where
  "hm_inv m \<longleftrightarrow> good_keys (hash_fn m) (equal_fn m) \<and> sz m * 4 div 3 \<le> cap m \<and>
     (case buckets m of
        BucketsNull \<Rightarrow> cap m = 0 \<and> cap_bits m = 0 \<and> sz m = 0
      | Buckets bs \<Rightarrow> 2 \<le> cap_bits m \<and> cap m = 2 ^ cap_bits m \<and> sz m = length (concat bs) \<and>
                      hm_placed (hash_fn m) (cap_bits m) bs
      | BucketsFreed \<Rightarrow> False)"

lemma good_keysD:
  assumes "good_keys hash equal"
  shows "equal a a" "equal a b \<Longrightarrow> equal b a" "equal a b \<Longrightarrow> equal b c \<Longrightarrow> equal a c"
    "equal a b \<Longrightarrow> hash a = hash b"
  using assms unfolding good_keys_def
  by (auto intro: equivp_reflp equivp_symp equivp_transp)

lemma good_keys_cong:
  assumes "good_keys hash equal" "equal a b"
  shows "equal a c = equal b c" "equal c a = equal c b"
  using good_keysD [OF assms(1)] assms(2) by blast+

lemma hash_bits_less [simp]: "hash_bits h bits < 2 ^ bits"
proof -
  have "unat (drop_bit (64 - bits) x) < 2 ^ bits" for x :: u64
  proof -
    have x: "unat x < 2 ^ 64" using unsigned_less [of x] by simp
    also have "(2 :: nat) ^ 64 \<le> 2 ^ bits * 2 ^ (64 - bits)"
      unfolding power_add [symmetric] by (rule power_increasing) simp_all
    finally show ?thesis
      using x by (simp add: unsigned_drop_bit_eq drop_bit_nat_def div_less_iff_less_mult
          take_bit_nat_eq_self)
  qed
  then show ?thesis by (simp add: hash_bits_def)
qed

lemma filter_concat_single:
  assumes "j < length bs" "\<And>i. i < length bs \<Longrightarrow> i \<noteq> j \<Longrightarrow> filter P (bs ! i) = []"
  shows "filter P (concat bs) = filter P (bs ! j)"
  using assms
proof (induction bs arbitrary: j)
  case (Cons b bs)
  show ?case
  proof (cases j)
    case 0
    have "filter P (bs ! i) = []" if "i < length bs" for i
      using Cons.prems(2) [of "Suc i"] that 0 by simp
    then have "filter P b' = []" if "b' \<in> set bs" for b'
      using that by (auto simp: in_set_conv_nth)
    then have "filter P (concat bs) = []"
      by (auto simp: filter_concat)
    then show ?thesis using 0 by simp
  next
    case (Suc j')
    have "filter P b = []" using Cons.prems(2) [of 0] Suc by simp
    moreover have "filter P (concat bs) = filter P (bs ! j')"
      using Cons.prems Suc by (intro Cons.IH) (auto dest: Cons.prems(2) [of "Suc _", simplified])
    ultimately show ?thesis using Suc by simp
  qed
qed simp

lemma placed_group:
  assumes "good_keys hash equal" "hm_placed hash bits bs"
  shows "filter (\<lambda>e. equal (fst e) k) (concat bs) =
         filter (\<lambda>e. equal (fst e) k) (bs ! hash_bits (hash k) bits)"
  using assms good_keysD(4) [OF assms(1)]
  by (intro filter_concat_single) (fastforce simp: hm_placed_def filter_empty_conv)+

lemma placed_update:
  assumes "hm_placed hash bits bs" "j = hash_bits (hash k) bits"
    "set c \<subseteq> insert (k, v) (set (bs ! j))"
  shows "hm_placed hash bits (bs[j := c])"
proof -
  have "hash_bits (hash (fst e)) bits = j" if "e \<in> set c" for e
    using assms that hash_bits_less [of "hash k" bits] by (auto simp: hm_placed_def)
  then show ?thesis using assms(1) by (auto simp: hm_placed_def nth_list_update_cases split: if_splits)
qed

lemma length_concat_update:
  "j < length bs \<Longrightarrow> length (concat (bs[j := c])) + length (bs ! j) = length (concat bs) + length c"
  by (induction bs arbitrary: j) (auto split: nat.split)

text \<open>Under the invariant, the walk of the whole map and of one key.\<close>

lemma hm_inv_cases:
  assumes "hm_inv m"
  obtains (empty) "buckets m = BucketsNull" "cap m = 0" "cap_bits m = 0" "sz m = 0"
        | (table) bs where "buckets m = Buckets bs" "2 \<le> cap_bits m" "cap m = 2 ^ cap_bits m"
            "sz m = length (concat bs)" "hm_placed (hash_fn m) (cap_bits m) bs"
            "length bs = 2 ^ cap_bits m"
  using assms by (cases "buckets m") (auto simp: hm_inv_def hm_placed_def)

lemma hm_inv_good: "hm_inv m \<Longrightarrow> good_keys (hash_fn m) (equal_fn m)"
  by (simp add: hm_inv_def)

lemma hm_entries_table:
  "hm_inv m \<Longrightarrow> buckets m = Buckets bs \<Longrightarrow> hashmap_entries m = concat bs"
  by (auto simp: hm_inv_def hm_placed_def hashmap_entries_def)

lemma hm_entries_empty: "buckets m = BucketsNull \<Longrightarrow> hashmap_entries m = []"
  by (simp add: hashmap_entries_def)

lemma hm_sz: "hm_inv m \<Longrightarrow> sz m = length (hashmap_entries m)"
  by (erule hm_inv_cases) (simp_all add: hashmap_entries_def)

lemma hm_group_table:
  assumes "hm_inv m" "buckets m = Buckets bs"
  shows "hm_group m k =
         filter (\<lambda>e. equal_fn m (fst e) k) (bs ! hash_bits (hash_fn m k) (cap_bits m))"
  using assms placed_group [OF hm_inv_good [OF assms(1)]]
  by (auto simp: hm_group_def hm_entries_table hm_inv_def)

lemma hm_group_empty: "buckets m = BucketsNull \<Longrightarrow> hm_group m k = []"
  by (simp add: hm_group_def hm_entries_empty)

lemma hm_group_cong:
  assumes "hm_inv m" "equal_fn m a b"
  shows "hm_group m a = hm_group m b"
  using good_keys_cong [OF hm_inv_good [OF assms(1)] assms(2)] by (simp add: hm_group_def)

section \<open>Searching\<close>

lemma chain_find_None: "chain_find equal key c = None \<longleftrightarrow> filter (\<lambda>e. equal (fst e) key) c = []"
  by (induction c) auto

lemma chain_find_Some:
  assumes "chain_find equal key c = Some i"
  shows "i < length c" "equal (fst (c ! i)) key"
    "filter (\<lambda>e. equal (fst e) key) c =
       c ! i # filter (\<lambda>e. equal (fst e) key) (drop (Suc i) c)"
    "filter (\<lambda>e. equal (fst e) key) (take i c) = []"
  using assms by (induction c arbitrary: i; auto split: if_splits)+

lemma find_entry_cases:
  assumes "hm_inv m"
  obtains (miss) "hashmap_find_entry m k (hash_bits (hash_fn m k) (cap_bits m)) = Some None"
            "hm_group m k = []"
        | (hit) bs c i where "buckets m = Buckets bs" "c = bs ! hash_bits (hash_fn m k) (cap_bits m)"
            "hash_bits (hash_fn m k) (cap_bits m) < length bs"
            "hashmap_find_entry m k (hash_bits (hash_fn m k) (cap_bits m)) = Some (Some i)"
            "chain_find (equal_fn m) k c = Some i" "hm_group m k = filter (\<lambda>e. equal_fn m (fst e) k) c"
  using assms
proof (cases rule: hm_inv_cases)
  case empty
  then show thesis by (intro miss) (simp_all add: hashmap_find_entry_def hm_group_empty)
next
  case (table bs)
  let ?c = "bs ! hash_bits (hash_fn m k) (cap_bits m)"
  show thesis
  proof (cases "chain_find (equal_fn m) k ?c")
    case None
    then show thesis using table assms
      by (intro miss) (auto simp: hashmap_find_entry_def hm_group_table chain_find_None)
  next
    case (Some i)
    then show thesis using table assms
      by (intro hit) (auto simp: hashmap_find_entry_def hm_group_table)
  qed
qed

lemma hashmap__find_group:
  "hm_inv m \<Longrightarrow> hashmap__find m k = Some (hm_lookup m k)"
  by (cases rule: find_entry_cases [of m k], assumption)
     (auto simp: hashmap__find_def hm_lookup_def Let_def chain_at_def dest: chain_find_Some(3))

lemma hashmap_key_entries_group: "hm_inv m \<Longrightarrow> hashmap_key_entries m k = Some (hm_group m k)"
  by (cases rule: hm_inv_cases [of m], assumption)
     (simp_all add: hashmap_key_entries_def Let_def hm_group_empty hm_group_table)

section \<open>Growing\<close>

lemma rehash_length [simp]: "length (rehash_entry hash bits bs e) = length bs"
  by (simp add: rehash_entry_def Let_def)

lemma rehash_fold:
  assumes "hm_placed hash bits bs"
  shows "hm_placed hash bits (foldl (rehash_entry hash bits) bs es)"
    "length (concat (foldl (rehash_entry hash bits) bs es)) = length (concat bs) + length es"
    "j < length bs \<Longrightarrow> foldl (rehash_entry hash bits) bs es ! j =
       rev (filter (\<lambda>e. hash_bits (hash (fst e)) bits = j) es) @ bs ! j"
proof -
  have "hm_placed hash bits (foldl (rehash_entry hash bits) bs es) \<and>
    length (concat (foldl (rehash_entry hash bits) bs es)) = length (concat bs) + length es \<and>
    (\<forall>j < length bs. foldl (rehash_entry hash bits) bs es ! j =
       rev (filter (\<lambda>e. hash_bits (hash (fst e)) bits = j) es) @ bs ! j)"
    using assms
  proof (induction es arbitrary: bs)
    case (Cons e es)
    let ?h = "hash_bits (hash (fst e)) bits" and ?bs = "rehash_entry hash bits bs e"
    have len: "length bs = 2 ^ bits" using Cons.prems by (simp add: hm_placed_def)
    have "hm_placed hash bits ?bs"
      using Cons.prems by (auto simp: rehash_entry_def Let_def hashmap_add_entry_def
          intro!: placed_update [where k = "fst e" and v = "snd e"])
    note IH = Cons.IH [OF this]
    have "length (concat ?bs) = Suc (length (concat bs))"
      using length_concat_update [of ?h bs "e # bs ! ?h"] len
      by (simp add: rehash_entry_def Let_def hashmap_add_entry_def)
    then show ?case using IH len
      by (auto simp: rehash_entry_def Let_def hashmap_add_entry_def nth_list_update_cases)
  qed simp
  then show "hm_placed hash bits (foldl (rehash_entry hash bits) bs es)"
    "length (concat (foldl (rehash_entry hash bits) bs es)) = length (concat bs) + length es"
    "j < length bs \<Longrightarrow> foldl (rehash_entry hash bits) bs es ! j =
       rev (filter (\<lambda>e. hash_bits (hash (fst e)) bits = j) es) @ bs ! j"
    by auto
qed

text \<open>
  Growing always succeeds or leaves the map as it was. It keeps the entries, makes room for one more,
  and turns the order within each group around, because the walk pushes every entry to the front.
\<close>

lemma grow_room: "n * 4 div 3 \<le> c \<Longrightarrow> 2 \<le> c \<Longrightarrow> (n + 1) * 4 div 3 \<le> 2 * (c :: nat)"
  by (auto simp: less_Suc_eq_le [symmetric] div_less_iff_less_mult)

lemma hashmap_grow_failed: "hashmap_grow False m = Some (- ENOMEM, m)"
  by (simp add: hashmap_grow_def Let_def)

lemma hashmap_grow_ok:
  assumes inv: "hm_inv m"
  obtains m' bs where "hashmap_grow True m = Some (0, m')" "hm_inv m'" "buckets m' = Buckets bs"
    "hash_fn m' = hash_fn m" "equal_fn m' = equal_fn m" "sz m' = sz m"
    "\<And>k. hm_group m' k = rev (hm_group m k)" "(sz m + 1) * 4 div 3 \<le> cap m'"
proof -
  define bits where "bits = max 2 (cap_bits m + 1)"
  let ?bs = "foldl (rehash_entry (hash_fn m) bits) (replicate (2 ^ bits) []) (hashmap_entries m)"
  let ?m = "m\<lparr>cap := 2 ^ bits, cap_bits := bits, buckets := Buckets ?bs\<rparr>"
  have new_bits: "(if cap_bits m + 1 < HASHMAP_MIN_CAP_BITS then HASHMAP_MIN_CAP_BITS else cap_bits m + 1)
      = bits"
    by (simp add: HASHMAP_MIN_CAP_BITS_def max_def bits_def)
  have "free_buckets (buckets m) \<noteq> None"
    using inv by (cases "buckets m") (auto simp: hm_inv_def)
  then have run: "hashmap_grow True m = Some (0, ?m)"
    unfolding hashmap_grow_def Let_def new_bits by (auto split: option.splits)
  have placed: "hm_placed (hash_fn m) bits (replicate (2 ^ bits) [])"
    by (simp add: hm_placed_def)
  note fold = rehash_fold [OF placed, where es = "hashmap_entries m"]
  have size: "(sz m + 1) * 4 div 3 \<le> (2 :: nat) ^ bits"
    using inv
  proof (cases rule: hm_inv_cases)
    case (table bs)
    have "(2 :: nat) ^ 1 \<le> 2 ^ cap_bits m" using table(2) by (intro power_increasing) auto
    then show ?thesis using table(2,3) inv grow_room [of "sz m" "2 ^ cap_bits m"]
      by (simp add: hm_inv_def max_def bits_def)
  qed simp
  then have "sz m * 4 div 3 \<le> (2 :: nat) ^ bits" by (rule le_trans [rotated]) (simp add: div_le_mono)
  then have inv': "hm_inv ?m"
    using hm_inv_good [OF inv] fold(1,2) hm_sz [OF inv] by (simp add: hm_inv_def bits_def)
  have "hm_group ?m k = rev (hm_group m k)" for k
  proof -
    let ?j = "hash_bits (hash_fn m k) bits"
    have "hm_group ?m k = filter (\<lambda>e. equal_fn m (fst e) k) (?bs ! ?j)"
      using hm_group_table [OF inv', of ?bs k] by simp
    also have "\<dots> = rev (filter (\<lambda>e. equal_fn m (fst e) k) (hashmap_entries m))"
      using fold(3) [of ?j] good_keysD(4) [OF hm_inv_good [OF inv]]
      by (auto simp: rev_filter [symmetric] intro!: filter_cong)
    finally show ?thesis by (simp add: hm_group_def)
  qed
  then show thesis using run inv' size by (intro that [of ?m ?bs]) auto
qed

section \<open>Insertion and removal\<close>

lemma set_chain_table:
  "buckets m = Buckets bs \<Longrightarrow> set_chain m h c = m\<lparr>buckets := Buckets (bs[h := c])\<rparr>"
  by (simp add: set_chain_def)

text \<open>Replacing the chain of a key changes the group of that key only.\<close>

lemma replace_chain:
  assumes inv: "hm_inv m" and bs: "buckets m = Buckets bs"
    and c: "set c \<subseteq> insert (k, v) (set (bs ! hash_bits (hash_fn m k) (cap_bits m)))"
    and n: "n = length (concat (bs[hash_bits (hash_fn m k) (cap_bits m) := c]))"
      "n * 4 div 3 \<le> cap m"
    and other: "\<And>k'. \<not> equal_fn m k k' \<Longrightarrow> filter (\<lambda>e. equal_fn m (fst e) k') c =
       filter (\<lambda>e. equal_fn m (fst e) k') (bs ! hash_bits (hash_fn m k) (cap_bits m))"
  defines "m' \<equiv> (set_chain m (hash_bits (hash_fn m k) (cap_bits m)) c)\<lparr>sz := n\<rparr>"
  shows "hm_inv m'"
    "hm_group m' k' = (if equal_fn m k k' then filter (\<lambda>e. equal_fn m (fst e) k) c
                       else hm_group m k')"
    "hash_fn m' = hash_fn m" "equal_fn m' = equal_fn m" "sz m' = n" "cap m' = cap m"
proof -
  let ?j = "hash_bits (hash_fn m k) (cap_bits m)"
  have m': "m' = m\<lparr>buckets := Buckets (bs[?j := c]), sz := n\<rparr>"
    by (simp add: m'_def set_chain_table [OF bs])
  have len: "length bs = 2 ^ cap_bits m" using inv bs by (auto simp: hm_inv_def hm_placed_def)
  show inv': "hm_inv m'"
    using inv bs c n placed_update [of "hash_fn m" "cap_bits m" bs ?j k c v]
    by (auto simp: hm_inv_def m')
  show "hash_fn m' = hash_fn m" "equal_fn m' = equal_fn m" "sz m' = n" "cap m' = cap m"
    by (simp_all add: m')
  have group: "hm_group m' x = filter (\<lambda>e. equal_fn m (fst e) x)
      (bs[?j := c] ! hash_bits (hash_fn m x) (cap_bits m))" for x
    using hm_group_table [OF inv', of "bs[?j := c]" x] by (simp add: m')
  show "hm_group m' k' = (if equal_fn m k k' then filter (\<lambda>e. equal_fn m (fst e) k) c
                       else hm_group m k')"
  proof (cases "equal_fn m k k'")
    case True
    have "hm_group m' k = hm_group m' k'"
      using True by (intro hm_group_cong [OF inv']) (simp add: m')
    then show ?thesis using True len by (simp add: group)
  next
    case False
    then show ?thesis
      using other [OF False] len
      by (auto simp: group hm_group_table [OF inv bs] nth_list_update_cases)
  qed
qed

text \<open>The order of a group after the growth step of an insertion.\<close>

definition hm_order :: "('k, 'v) hashmap \<Rightarrow> ('k, 'v) chain \<Rightarrow> ('k, 'v) chain" where
  "hm_order m g = (if hashmap_needs_to_grow m then rev g else g)"

lemma hm_order_simps [simp]: "hm_order m [] = []" "hm_order m [e] = [e]"
  "length (hm_order m g) = length g" "set (hm_order m g) = set g"
  by (simp_all add: hm_order_def)

definition hm_same :: "('k, 'v) hashmap \<Rightarrow> ('k, 'v) hashmap \<Rightarrow> bool" where
  "hm_same m m' \<longleftrightarrow> hash_fn m' = hash_fn m \<and> equal_fn m' = equal_fn m"

lemma hm_room:
  assumes inv: "hm_inv m" and calloc: "calloc_ok \<or> \<not> hashmap_needs_to_grow m"
  obtains m' bs where
    "(if hashmap_needs_to_grow m then hashmap_grow calloc_ok m else Some (0, m)) = Some (0, m')"
    "hm_inv m'" "buckets m' = Buckets bs" "hm_same m m'" "sz m' = sz m"
    "\<And>k. hm_group m' k = hm_order m (hm_group m k)" "(sz m + 1) * 4 div 3 \<le> cap m'"
proof (cases "hashmap_needs_to_grow m")
  case True
  with calloc have "calloc_ok = True" by simp
  with True show thesis
    by (cases rule: hashmap_grow_ok [OF inv]) (auto simp: hm_order_def hm_same_def intro: that)
next
  case False
  from inv False obtain bs where "buckets m = Buckets bs"
    by (auto simp: hashmap_needs_to_grow_def elim: hm_inv_cases)
  with False show thesis
    by (intro that [of m bs]) (auto simp: inv hm_order_def hm_same_def hashmap_needs_to_grow_def)
qed

lemma insert_new_no_room:
  "hashmap_needs_to_grow m \<Longrightarrow> hashmap_insert_new False malloc_ok m k v = Some (- ENOMEM, None, m)"
  by (simp add: hashmap_insert_new_def hashmap_grow_failed)

lemma insert_new_no_entry:
  assumes "hm_inv m" "calloc_ok \<or> \<not> hashmap_needs_to_grow m"
  obtains m' where "hashmap_insert_new calloc_ok False m k v = Some (- ENOMEM, None, m')"
    "hm_inv m'" "hm_same m m'" "\<And>k. hm_group m' k = hm_order m (hm_group m k)"
proof (rule hm_room [OF assms])
  fix m' bs
  assume "(if hashmap_needs_to_grow m then hashmap_grow calloc_ok m else Some (0, m)) = Some (0, m')"
    "hm_inv m'" "hm_same m m'" "\<And>k. hm_group m' k = hm_order m (hm_group m k)"
  then show thesis by (intro that [of m']) (simp_all add: hashmap_insert_new_def Let_def)
qed

lemma insert_new_done:
  assumes inv: "hm_inv m" and calloc: "calloc_ok \<or> \<not> hashmap_needs_to_grow m"
  obtains m' where "hashmap_insert_new calloc_ok True m k v = Some (0, None, m')"
    "hm_inv m'" "hm_same m m'" "sz m' = sz m + 1"
    "\<And>k'. hm_group m' k' = (if equal_fn m k k' then [(k, v)] else []) @ hm_order m (hm_group m k')"
proof -
  obtain m1 bs where m1: "(if hashmap_needs_to_grow m then hashmap_grow calloc_ok m
      else Some (0, m)) = Some (0, m1)"
    "hm_inv m1" "buckets m1 = Buckets bs" "hm_same m m1" "sz m1 = sz m"
    "\<And>k. hm_group m1 k = hm_order m (hm_group m k)" "(sz m + 1) * 4 div 3 \<le> cap m1"
    using hm_room [OF inv calloc] by blast
  let ?h = "hash_bits (hash_fn m1 k) (cap_bits m1)"
  let ?c = "(k, v) # bs ! ?h"
  let ?m = "(set_chain m1 ?h ?c)\<lparr>sz := sz m1 + 1\<rparr>"
  have len: "length bs = 2 ^ cap_bits m1" "sz m1 = length (concat bs)"
    using m1(2,3) by (auto simp: hm_inv_def hm_placed_def)
  have run: "hashmap_insert_new calloc_ok True m k v = Some (0, None, ?m)"
    using m1(1,3) len by (simp add: hashmap_insert_new_def Let_def hashmap_add_entry_def)
  have eq: "equal_fn m1 = equal_fn m" "hash_fn m1 = hash_fn m" using m1(4) by (simp_all add: hm_same_def)
  note upd = replace_chain [OF m1(2,3), of ?c k v "sz m1 + 1"]
  have prems: "set ?c \<subseteq> insert (k, v) (set (bs ! ?h))"
    "sz m1 + 1 = length (concat (bs[?h := ?c]))" "(sz m1 + 1) * 4 div 3 \<le> cap m1"
    "\<And>k'. \<not> equal_fn m1 k k' \<Longrightarrow> filter (\<lambda>e. equal_fn m1 (fst e) k') ?c =
       filter (\<lambda>e. equal_fn m1 (fst e) k') (bs ! ?h)"
    using m1(5,7) len length_concat_update [of ?h bs ?c] by auto
  note upd = upd [OF prems]
  have "hm_group ?m k' = (if equal_fn m k k' then [(k, v)] else []) @ hm_order m (hm_group m k')" for k'
    using upd(2) [of k'] m1(6) [of k'] hm_group_table [OF m1(2,3), of k]
      good_keysD(1) [OF hm_inv_good [OF m1(2)], of k] hm_group_cong [OF m1(2), of k k']
    by (auto simp: eq)
  then show thesis
    using run upd(1,3,4,5) m1(5) by (intro that [of ?m]) (auto simp: hm_same_def eq)
qed

lemma set_existing:
  fixes m :: "('k, 'v) hashmap" and v :: 'v
  assumes inv: "hm_inv m" and bs: "buckets m = Buckets bs"
    and h: "h = hash_bits (hash_fn m k) (cap_bits m)"
    and found: "chain_find (equal_fn m) k (bs ! h) = Some i"
  defines "m' \<equiv> set_chain m h ((bs ! h)[i := (k, v)])"
  shows "hm_inv m'" "hm_same m m'" "sz m' = sz m"
    "hm_group m' k' = (if equal_fn m k k' then (k, v) # tl (hm_group m k') else hm_group m k')"
proof -
  let ?c = "(bs ! h)[i := (k, v)]"
  note good = hm_inv_good [OF inv] and hit = chain_find_Some [OF found]
  have len: "length bs = 2 ^ cap_bits m" "sz m = length (concat bs)"
    using inv bs by (auto simp: hm_inv_def hm_placed_def)
  have split: "bs ! h = take i (bs ! h) @ (bs ! h) ! i # drop (Suc i) (bs ! h)"
    "?c = take i (bs ! h) @ (k, v) # drop (Suc i) (bs ! h)"
    using hit(1) by (simp_all add: id_take_nth_drop [symmetric] upd_conv_take_nth_drop)
  have m': "m' = (set_chain m h ?c)\<lparr>sz := sz m\<rparr>"
    by (simp add: m'_def set_chain_table [OF bs])
  have other: "filter (\<lambda>e. equal_fn m (fst e) k') ?c = filter (\<lambda>e. equal_fn m (fst e) k') (bs ! h)"
    if "\<not> equal_fn m k k'" for k'
    using that hit(2) good_keys_cong [OF good hit(2)] by (subst (2) split(1), subst split(2)) simp
  have prems: "set ?c \<subseteq> insert (k, v) (set (bs ! h))"
    "sz m = length (concat (bs[h := ?c]))" "sz m * 4 div 3 \<le> cap m"
    using set_update_subset_insert [of "bs ! h" i "(k, v)"] inv len
      length_concat_update [of h bs ?c] by (auto simp: h hm_inv_def)
  note upd = replace_chain [OF inv bs, of ?c k v "sz m", folded h, OF prems other]
  show "hm_inv m'" "hm_same m m'" "sz m' = sz m"
    using upd(1,3,4,5) by (simp_all add: m' h hm_same_def)
  have "filter (\<lambda>e. equal_fn m (fst e) k) ?c = (k, v) # tl (hm_group m k)"
    using hit(3,4) good_keysD(1) [OF good] by (subst split(2)) (simp add: hm_group_table [OF inv bs] h)
  then show "hm_group m' k' = (if equal_fn m k k' then (k, v) # tl (hm_group m k') else hm_group m k')"
    using upd(2) [of k'] hm_group_cong [OF inv, of k k'] by (simp add: m' h)
qed

text \<open>The branches of \<open>hashmap__insert\<close>.\<close>

lemma insert_found:
  fixes m :: "('k, 'v) hashmap" and v :: 'v
  assumes inv: "hm_inv m" and g: "hm_group m k = e # g" and st: "st = HASHMAP_SET \<or> st = HASHMAP_UPDATE"
  obtains m' where "hashmap__insert calloc_ok malloc_ok m k v st = Some (0, Some e, m')"
    "hm_inv m'" "hm_same m m'" "sz m' = sz m"
    "\<And>k'. hm_group m' k' = (if equal_fn m k k' then (k, v) # tl (hm_group m k') else hm_group m k')"
  using inv
proof (cases rule: find_entry_cases [of m k])
  case (hit bs c i)
  note upd = set_existing [OF inv hit(1) refl hit(5) [unfolded hit(2)], of v]
  from hit g have "c ! i = e" by (simp add: chain_find_Some(3))
  then have "hashmap__insert calloc_ok malloc_ok m k v st = Some (0, Some e, set_chain m (hash_bits (hash_fn m k) (cap_bits m)) (c[i := (k, v)]))"
    using st hit by (auto simp: hashmap__insert_def Let_def chain_at_def)
  then show thesis using upd unfolding hit(2) by (rule that)
qed (use g in simp)

lemma insert_refused:
  assumes "hm_inv m" "hm_group m k = e # g"
  shows "hashmap__insert calloc_ok malloc_ok m k v HASHMAP_ADD = Some (- EEXIST, Some e, m)"
  by (rule find_entry_cases [OF assms(1), of k])
     (use assms(2) in \<open>auto simp: hashmap__insert_def Let_def chain_at_def chain_find_Some(3)\<close>)

lemma insert_absent:
  assumes "hm_inv m" "hm_group m k = []"
  shows "hashmap__insert calloc_ok malloc_ok m k v HASHMAP_UPDATE = Some (- ENOENT, None, m)"
    "st \<noteq> HASHMAP_UPDATE \<Longrightarrow>
     hashmap__insert calloc_ok malloc_ok m k v st = hashmap_insert_new calloc_ok malloc_ok m k v"
proof -
  have miss: "hashmap_find_entry m k (hash_bits (hash_fn m k) (cap_bits m)) = Some None"
    by (rule find_entry_cases [OF assms(1), of k]) (use assms(2) in \<open>auto simp: chain_find_Some(3)\<close>)
  then show "hashmap__insert calloc_ok malloc_ok m k v HASHMAP_UPDATE = Some (- ENOENT, None, m)"
    "st \<noteq> HASHMAP_UPDATE \<Longrightarrow>
     hashmap__insert calloc_ok malloc_ok m k v st = hashmap_insert_new calloc_ok malloc_ok m k v"
    by (simp_all add: hashmap__insert_def Let_def)
qed

lemma insert_append:
  "hashmap__insert calloc_ok malloc_ok m k v HASHMAP_APPEND = hashmap_insert_new calloc_ok malloc_ok m k v"
  by (simp add: hashmap__insert_def Let_def)

lemma delete_absent:
  "hm_inv m \<Longrightarrow> hm_group m k = [] \<Longrightarrow> hashmap__delete m k = Some (False, None, m)"
  by (cases rule: find_entry_cases [of m k], assumption)
     (auto simp: hashmap__delete_def Let_def chain_find_Some(3))

lemma delete_found:
  assumes inv: "hm_inv m" and g: "hm_group m k = e # g"
  obtains m' where "hashmap__delete m k = Some (True, Some e, m')"
    "hm_inv m'" "hm_same m m'" "sz m' = sz m - 1"
    "\<And>k'. hm_group m' k' = (if equal_fn m k k' then tl (hm_group m k') else hm_group m k')"
  using inv
proof (cases rule: find_entry_cases [of m k])
  case (hit bs c i)
  let ?h = "hash_bits (hash_fn m k) (cap_bits m)"
  let ?c = "hashmap_del_entry c i"
  let ?m = "(set_chain m ?h ?c)\<lparr>sz := sz m - 1\<rparr>"
  note good = hm_inv_good [OF inv] and found = chain_find_Some [OF hit(5)]
  have len: "sz m = length (concat bs)" using inv hit(1) by (simp add: hm_inv_def)
  have split: "c = take i c @ c ! i # drop (Suc i) c"
    using found(1) by (simp add: id_take_nth_drop [symmetric])
  have other: "filter (\<lambda>e. equal_fn m (fst e) k') ?c = filter (\<lambda>e. equal_fn m (fst e) k') (bs ! ?h)"
    if "\<not> equal_fn m k k'" for k'
    using that found(2) good_keys_cong [OF good found(2)]
    unfolding hit(2) [symmetric] hashmap_del_entry_def by (subst (3) split) simp
  have prems: "set ?c \<subseteq> insert (k, snd e) (set (bs ! ?h))"
    "sz m - 1 = length (concat (bs[?h := ?c]))" "(sz m - 1) * 4 div 3 \<le> cap m"
    using length_concat_update [OF hit(3), of ?c] found(1) len inv hit(2)
    by (auto simp: hashmap_del_entry_def hm_inv_def dest: in_set_takeD in_set_dropD
        intro: le_trans [OF div_le_mono])
  note upd = replace_chain [OF inv hit(1) prems other]
  have run: "hashmap__delete m k = Some (True, Some e, ?m)"
    using hit g by (simp add: hashmap__delete_def Let_def chain_at_def chain_find_Some(3))
  have "filter (\<lambda>e. equal_fn m (fst e) k) ?c = tl (hm_group m k)"
    using found(3,4) hit(6) by (simp add: hashmap_del_entry_def)
  then show thesis
    using run upd(1,3,4,5) upd(2) hm_group_cong [OF inv, of k]
    by (intro that [of ?m]) (auto simp: hm_same_def)
qed (use g in simp)

section \<open>The map as a dictionary\<close>

text \<open>
  What the users of the map rely on, as an interface: a lookup function that a store of a value
  changes at the equal keys only, when it reports success, and that a removal clears there. The
  first argument of \<open>put\<close> says how its allocations go; \<open>plenty\<close> are the outcomes with enough memory.
\<close>

datatype ('a, 'k, 'v) dict_op = DPut 'a 'k 'v | DDel 'k

text \<open>
  A run of operations with the return code of each (1 and 0 for a removal that found or did not find
  the key), and the effect the codes promise on the lookup function.
\<close>

fun dict_run ::
  "('a \<Rightarrow> 's \<Rightarrow> 'k \<Rightarrow> 'v \<Rightarrow> (int \<times> 's) option) \<Rightarrow> ('s \<Rightarrow> 'k \<Rightarrow> (bool \<times> 's) option) \<Rightarrow>
   's \<Rightarrow> ('a, 'k, 'v) dict_op list \<Rightarrow> (int list \<times> 's) option" where
  "dict_run put del s [] = Some ([], s)"
| "dict_run put del s (DPut a k v # ops) =
     (case put a s k v of
        None \<Rightarrow> None
      | Some (rc, s') \<Rightarrow> map_option (\<lambda>(rcs, t). (rc # rcs, t)) (dict_run put del s' ops))"
| "dict_run put del s (DDel k # ops) =
     (case del s k of
        None \<Rightarrow> None
      | Some (b, s') \<Rightarrow>
          map_option (\<lambda>(rcs, t). (of_bool b # rcs, t)) (dict_run put del s' ops))"

definition dict_effect ::
  "('k \<Rightarrow> 'k \<Rightarrow> bool) \<Rightarrow> ('k \<Rightarrow> 'v option) \<Rightarrow> ('a, 'k, 'v) dict_op \<times> int \<Rightarrow> 'k \<Rightarrow> 'v option" where
  "dict_effect eq f p k =
     (case p of
        (DPut a k' v, rc) \<Rightarrow> if rc = 0 \<and> eq k' k then Some v else f k
      | (DDel k', rc) \<Rightarrow> if eq k' k then None else f k)"

definition dict_spec ::
  "('k \<Rightarrow> 'k \<Rightarrow> bool) \<Rightarrow> ('k \<Rightarrow> 'v option) \<Rightarrow> ('a, 'k, 'v) dict_op list \<Rightarrow> int list \<Rightarrow> 'k \<Rightarrow> 'v option"
where
  "dict_spec eq f ops rcs = foldl (dict_effect eq) f (zip ops rcs)"

locale dictionary =
  fixes inv :: "'s \<Rightarrow> bool"
    and eq :: "'k \<Rightarrow> 'k \<Rightarrow> bool"
    and look :: "'s \<Rightarrow> 'k \<Rightarrow> 'v option"
    and find :: "'s \<Rightarrow> 'k \<Rightarrow> 'v option option"
    and put :: "'a \<Rightarrow> 's \<Rightarrow> 'k \<Rightarrow> 'v \<Rightarrow> (int \<times> 's) option"
    and del :: "'s \<Rightarrow> 'k \<Rightarrow> (bool \<times> 's) option"
    and plenty :: "'a \<Rightarrow> bool"
  assumes eq_refl: "inv s \<Longrightarrow> eq k k"
    and look_eq: "inv s \<Longrightarrow> eq k k' \<Longrightarrow> look s k = look s k'"
    and find_law: "inv s \<Longrightarrow> find s k = Some (look s k)"
    and put_law: "inv s \<Longrightarrow> \<exists>rc s'. put a s k v = Some (rc, s') \<and> inv s' \<and>
      look s' = (\<lambda>k'. if rc = 0 \<and> eq k k' then Some v else look s k')"
    and put_plenty: "inv s \<Longrightarrow> plenty a \<Longrightarrow> \<exists>s'. put a s k v = Some (0, s')"
    and del_law: "inv s \<Longrightarrow> \<exists>s'. del s k = Some (look s k \<noteq> None, s') \<and> inv s' \<and>
      look s' = (\<lambda>k'. if eq k k' then None else look s k')"
begin

lemma put_then_find:
  assumes "inv s" "plenty a"
  shows "\<exists>s'. put a s k v = Some (0, s') \<and> inv s' \<and> find s' k = Some (Some v)"
proof -
  obtain rc s' where s': "put a s k v = Some (rc, s')" "inv s'"
    "look s' = (\<lambda>k'. if rc = 0 \<and> eq k k' then Some v else look s k')"
    using put_law [OF assms(1)] by blast
  moreover have "rc = 0" using put_plenty [OF assms, of k v] s'(1) by auto
  ultimately show ?thesis using find_law [OF s'(2), of k] eq_refl [OF assms(1)] by auto
qed

lemma run_spec:
  assumes "inv s"
  shows "\<exists>rcs s'. dict_run put del s ops = Some (rcs, s') \<and> length rcs = length ops \<and> inv s' \<and>
    look s' = dict_spec eq (look s) ops rcs"
  using assms
proof (induction ops arbitrary: s)
  case (Cons opn ops)
  obtain rc s1 where step: "inv s1" "look s1 = dict_effect eq (look s) (opn, rc)"
    "dict_run put del s (opn # ops) =
       map_option (\<lambda>(rcs, t). (rc # rcs, t)) (dict_run put del s1 ops)"
  proof (cases opn)
    case (DPut a k v)
    obtain rc s1 where "put a s k v = Some (rc, s1)" "inv s1"
      "look s1 = (\<lambda>k'. if rc = 0 \<and> eq k k' then Some v else look s k')"
      using put_law [OF Cons.prems] by blast
    then show thesis using DPut by (intro that [of s1 rc]) (simp_all add: dict_effect_def fun_eq_iff)
  next
    case (DDel k)
    obtain s1 where "del s k = Some (look s k \<noteq> None, s1)" "inv s1"
      "look s1 = (\<lambda>k'. if eq k k' then None else look s k')"
      using del_law [OF Cons.prems] by blast
    then show thesis using DDel
      by (intro that [of s1 "of_bool (look s k \<noteq> None)"]) (simp_all add: dict_effect_def fun_eq_iff)
  qed
  obtain rcs s' where "dict_run put del s1 ops = Some (rcs, s')" "length rcs = length ops" "inv s'"
    "look s' = dict_spec eq (look s1) ops rcs"
    using Cons.IH [OF step(1)] by blast
  then show ?case using step(2,3)
    by (intro exI [of _ "rc # rcs"] exI [of _ s']) (simp add: dict_spec_def)
qed (simp add: dict_spec_def)

lemma run_find:
  assumes "inv s"
  shows "\<exists>rcs s'. dict_run put del s ops = Some (rcs, s') \<and> length rcs = length ops \<and> inv s' \<and>
    (\<forall>k. find s' k = Some (dict_spec eq (look s) ops rcs k))"
  using run_spec [OF assms, of ops] find_law by auto

end

text \<open>
  The model provides the interface for maps filled with \<open>hashmap__set\<close> and emptied with
  \<open>hashmap__delete\<close>, in which every key has at most one entry.
\<close>

definition hm_put :: "bool \<times> bool \<Rightarrow> ('k, 'v) hashmap \<Rightarrow> 'k \<Rightarrow> 'v \<Rightarrow> (int \<times> ('k, 'v) hashmap) option" where
  "hm_put a m k v = map_option (\<lambda>(rc, old, m'). (rc, m')) (hashmap__set (fst a) (snd a) m k v)"

definition hm_del :: "('k, 'v) hashmap \<Rightarrow> 'k \<Rightarrow> (bool \<times> ('k, 'v) hashmap) option" where
  "hm_del m k = map_option (\<lambda>(found, old, m'). (found, m')) (hashmap__delete m k)"

definition hm_dict :: "('k \<Rightarrow> u64) \<Rightarrow> ('k \<Rightarrow> 'k \<Rightarrow> bool) \<Rightarrow> ('k, 'v) hashmap \<Rightarrow> bool" where
  "hm_dict hash equal m \<longleftrightarrow> hm_inv m \<and> hash_fn m = hash \<and> equal_fn m = equal \<and>
     (\<forall>k. length (hm_group m k) \<le> 1)"

lemma hm_lookup_simps:
  "hm_group m k = [] \<Longrightarrow> hm_lookup m k = None"
  "hm_group m k = e # g \<Longrightarrow> hm_lookup m k = Some (snd e)"
  by (simp_all add: hm_lookup_def)

lemma at_most_one: "length g \<le> 1 \<Longrightarrow> g = [] \<or> (\<exists>e. g = [e])"
  by (cases g) auto

lemma hm_dict_same: "hm_dict hash equal m \<Longrightarrow> hm_inv m' \<Longrightarrow> hm_same m m' \<Longrightarrow>
    (\<And>k. length (hm_group m' k) \<le> 1) \<Longrightarrow> hm_dict hash equal m'"
  by (simp add: hm_dict_def hm_same_def)

lemma hm_dict_order: "hm_dict hash equal m \<Longrightarrow> hm_order m (hm_group m k) = hm_group m k"
  using at_most_one [of "hm_group m k"] by (auto simp: hm_dict_def)

lemma hm_put_cases:
  assumes dict: "hm_dict hash equal m"
  obtains rc m' where "hm_put a m k v = Some (rc, m')" "hm_dict hash equal m'"
    "hm_lookup m' = (\<lambda>k'. if rc = 0 \<and> equal k k' then Some v else hm_lookup m k')"
    "a = (True, True) \<Longrightarrow> rc = 0"
proof -
  obtain c d where a: "a = (c, d)" by (cases a)
  have inv: "hm_inv m" and one: "length (hm_group m k') \<le> 1" and eq: "equal_fn m = equal" for k'
    using dict by (simp_all add: hm_dict_def)
  note result = that and order = hm_dict_order [OF dict]
  show thesis
  proof (cases "hm_group m k")
    case (Cons e g)
    obtain m' where m': "hashmap__insert c d m k v HASHMAP_SET = Some (0, Some e, m')" "hm_inv m'"
      "hm_same m m'"
      "\<And>k'. hm_group m' k' = (if equal_fn m k k' then (k, v) # tl (hm_group m k') else hm_group m k')"
      using insert_found [OF inv Cons] by blast
    then show thesis using one hm_group_cong [OF inv, of k] Cons
      by (intro result [of 0 m'] hm_dict_same [OF dict])
         (auto simp: hm_put_def hashmap__set_def a eq hm_lookup_def fun_eq_iff)
  next
    case Nil
    note new = insert_absent(2) [OF inv Nil, of HASHMAP_SET, simplified]
    have absent: "hm_group m k' = []" if "equal k k'" for k'
      using that Nil hm_group_cong [OF inv, of k k'] eq by simp
    consider (no_room) "hashmap_needs_to_grow m" "\<not> c"
      | (no_entry) "c \<or> \<not> hashmap_needs_to_grow m" "\<not> d"
      | (room) "c \<or> \<not> hashmap_needs_to_grow m" "d" by blast
    then show thesis
    proof cases
      case no_room
      then show thesis using insert_new_no_room [OF no_room(1), of d k v] dict
        by (intro result [of "- ENOMEM" m]) (auto simp: hm_put_def hashmap__set_def a new)
    next
      case no_entry
      obtain m' where "hashmap_insert_new c False m k v = Some (- ENOMEM, None, m')" "hm_inv m'"
        "hm_same m m'" "\<And>k. hm_group m' k = hm_order m (hm_group m k)"
        using insert_new_no_entry [OF inv no_entry(1)] by blast
      then show thesis using no_entry(2) one
        by (intro result [of "- ENOMEM" m'] hm_dict_same [OF dict])
           (auto simp: hm_put_def hashmap__set_def a new order hm_lookup_def)
    next
      case room
      obtain m' where "hashmap_insert_new c True m k v = Some (0, None, m')" "hm_inv m'"
        "hm_same m m'"
        "\<And>k'. hm_group m' k' = (if equal_fn m k k' then [(k, v)] else []) @ hm_order m (hm_group m k')"
        using insert_new_done [OF inv room(1)] by blast
      then show thesis using room(2) one
        by (intro result [of 0 m'] hm_dict_same [OF dict])
           (auto simp: hm_put_def hashmap__set_def a new order hm_lookup_def eq absent fun_eq_iff)
    qed
  qed
qed

lemma hm_del_cases:
  assumes dict: "hm_dict hash equal m"
  obtains m' where "hm_del m k = Some (hm_lookup m k \<noteq> None, m')" "hm_dict hash equal m'"
    "hm_lookup m' = (\<lambda>k'. if equal k k' then None else hm_lookup m k')"
proof -
  have inv: "hm_inv m" and one: "length (hm_group m k') \<le> 1" and eq: "equal_fn m = equal" for k'
    using dict by (simp_all add: hm_dict_def)
  have cong: "hm_group m k' = hm_group m k" if "equal k k'" for k'
    using that hm_group_cong [OF inv, of k k'] eq by simp
  show thesis
  proof (cases "hm_group m k")
    case Nil
    then show thesis using delete_absent [OF inv Nil] dict cong
      by (intro that [of m]) (auto simp: hm_del_def hm_lookup_def fun_eq_iff)
  next
    case (Cons e g)
    obtain m' where "hashmap__delete m k = Some (True, Some e, m')" "hm_inv m'" "hm_same m m'"
      "\<And>k'. hm_group m' k' = (if equal_fn m k k' then tl (hm_group m k') else hm_group m k')"
      using delete_found [OF inv Cons] by blast
    moreover have "g = []" using one [of k] Cons by simp
    ultimately show thesis using one Cons cong
      by (intro that [of m'] hm_dict_same [OF dict])
         (auto simp: hm_del_def hm_lookup_def eq fun_eq_iff)
  qed
qed

interpretation hmd: dictionary "hm_dict hash equal" equal hm_lookup hashmap__find hm_put hm_del
    "\<lambda>a. a = (True, True)" for hash :: "'k \<Rightarrow> u64" and equal
proof
  fix m :: "('k, 'v) hashmap" and k k' :: 'k and v :: 'v and a
  assume dict: "hm_dict hash equal m"
  then have inv: "hm_inv m" "equal_fn m = equal" by (simp_all add: hm_dict_def)
  show "equal k k" using good_keysD(1) [OF hm_inv_good [OF inv(1)]] inv(2) by simp
  show "hm_lookup m k = hm_lookup m k'" if "equal k k'"
    using hm_group_cong [OF inv(1), of k k'] that inv(2) by (simp add: hm_lookup_def)
  show "hashmap__find m k = Some (hm_lookup m k)" by (rule hashmap__find_group [OF inv(1)])
  show "\<exists>rc m'. hm_put a m k v = Some (rc, m') \<and> hm_dict hash equal m' \<and>
      hm_lookup m' = (\<lambda>k'. if rc = 0 \<and> equal k k' then Some v else hm_lookup m k')"
    by (rule hm_put_cases [OF dict]) blast
  show "\<exists>m'. hm_put a m k v = Some (0, m')" if "a = (True, True)"
    using that by (metis hm_put_cases [OF dict])
  show "\<exists>m'. hm_del m k = Some (hm_lookup m k \<noteq> None, m') \<and> hm_dict hash equal m' \<and>
      hm_lookup m' = (\<lambda>k'. if equal k k' then None else hm_lookup m k')"
    by (rule hm_del_cases [OF dict]) blast
qed

section \<open>Properties\<close>

lemma hm_inv_init: "good_keys hash equal \<Longrightarrow> hm_inv (hashmap__init hash equal)"
  by (simp add: hm_inv_def hashmap__init_def)

lemma hm_dict_init:
  assumes "good_keys hash equal"
  shows "hm_dict hash equal (hashmap__init hash equal)"
    "hm_lookup (hashmap__init hash equal) = (\<lambda>k. None)"
  using hm_inv_init [OF assms]
  by (simp_all add: hm_dict_def hm_group_def hm_lookup_def hashmap__init_def hashmap_entries_def
      fun_eq_iff)

lemma good_keys_eq [simp]: "good_keys hash (=)"
  by (simp add: good_keys_def identity_equivp)

text \<open>C23: any sequence of \<open>hashmap__set\<close> and \<open>hashmap__delete\<close> on a new map, whatever allocations
  fail on the way, runs without an access to freed or foreign memory and keeps the table well formed,
  and afterwards \<open>hashmap__find\<close> gives for every key the value of the last successful store of an equal
  key that was not deleted since.\<close>

theorem hashmap_dictionary:
  assumes "good_keys hash equal"
  shows "\<exists>rcs m. dict_run hm_put hm_del (hashmap__init hash equal) ops = Some (rcs, m) \<and>
    length rcs = length ops \<and> hm_inv m \<and>
    (\<forall>k. hashmap__find m k = Some (dict_spec equal (\<lambda>k. None) ops rcs k))"
  using hmd.run_find [OF hm_dict_init(1) [OF assms], of ops]
  unfolding hm_dict_init(2) [OF assms] by (auto simp: hm_dict_def)

theorem hashmap_dictionary_witness:
  "\<exists>rcs m. dict_run hm_put hm_del (hashmap__init (\<lambda>k. of_nat k) (=))
      [DPut (True, True) 1 ''a'', DPut (True, False) 2 ''b'', DDel 1] = Some (rcs, m) \<and>
    length rcs = length [DPut (True, True) (1 :: nat) ''a'', DPut (True, False) 2 ''b'', DDel 1] \<and>
    hm_inv m \<and> (\<forall>k. hashmap__find m k = Some (dict_spec (=) (\<lambda>k. None)
      [DPut (True, True) 1 ''a'', DPut (True, False) 2 ''b'', DDel 1] rcs k))"
  by (rule hashmap_dictionary [OF good_keys_eq])

text \<open>One insertion, under any strategy and with any outcome of its allocations.\<close>

text \<open>The entries of a key after the insertion of a new entry, for every outcome of the two allocations.\<close>

lemma insert_new_groups:
  fixes c d :: bool and m :: "('k, 'v) hashmap"
  assumes inv: "hm_inv m"
  defines "added \<equiv> (c \<or> \<not> hashmap_needs_to_grow m) \<and> d"
  shows "\<exists>m'. hashmap_insert_new c d m k v = Some (if added then 0 else - ENOMEM, None, m') \<and> hm_inv m' \<and>
    sz m' = sz m + of_bool added \<and>
    (\<forall>k'. hm_group m' k' = (if added \<and> equal_fn m k k' then [(k, v)] else []) @
       (if hashmap_needs_to_grow m \<and> c then rev (hm_group m k') else hm_group m k'))"
proof -
  consider (no_room) "hashmap_needs_to_grow m" "\<not> c"
    | (no_entry) "c \<or> \<not> hashmap_needs_to_grow m" "\<not> d"
    | (room) "c \<or> \<not> hashmap_needs_to_grow m" "d" by blast
  then show ?thesis
  proof cases
    case no_room
    then show ?thesis using insert_new_no_room [OF no_room(1), of d k v] inv by (simp add: added_def)
  next
    case no_entry
    obtain m' where "hashmap_insert_new c False m k v = Some (- ENOMEM, None, m')" "hm_inv m'"
      "\<And>k. hm_group m' k = hm_order m (hm_group m k)" "sz m' = sz m"
    proof (rule hm_room [OF inv no_entry(1)])
      fix m' bs
      assume "(if hashmap_needs_to_grow m then hashmap_grow c m else Some (0, m)) = Some (0, m')"
        "hm_inv m'" "\<And>k. hm_group m' k = hm_order m (hm_group m k)" "sz m' = sz m"
      then show thesis by (intro that [of m']) (simp_all add: hashmap_insert_new_def Let_def)
    qed
    with no_entry show ?thesis by (auto simp: added_def hm_order_def)
  next
    case room
    obtain m' where "hashmap_insert_new c True m k v = Some (0, None, m')" "hm_inv m'" "sz m' = sz m + 1"
      "\<And>k'. hm_group m' k' = (if equal_fn m k k' then [(k, v)] else []) @ hm_order m (hm_group m k')"
      using insert_new_done [OF inv room(1)] by blast
    with room show ?thesis by (auto simp: added_def hm_order_def)
  qed
qed

lemma insert_new_total:
  assumes inv: "hm_inv m"
  shows "\<exists>rc m'. hashmap_insert_new c d m k v = Some (rc, None, m') \<and> hm_inv m' \<and>
    sz m' = sz m + of_bool (rc = 0) \<and> (c \<and> d \<longrightarrow> rc = 0)"
proof -
  obtain m' where "hashmap_insert_new c d m k v =
      Some (if (c \<or> \<not> hashmap_needs_to_grow m) \<and> d then 0 else - ENOMEM, None, m')" "hm_inv m'"
    "sz m' = sz m + of_bool ((c \<or> \<not> hashmap_needs_to_grow m) \<and> d)"
    using insert_new_groups [OF inv, of c d k v] by blast
  then show ?thesis by (cases "(c \<or> \<not> hashmap_needs_to_grow m) \<and> d") auto
qed

lemma insert_total:
  assumes inv: "hm_inv m"
  shows "\<exists>rc old m'. hashmap__insert c d m k v st = Some (rc, old, m') \<and> hm_inv m' \<and>
    old = (if st = HASHMAP_APPEND then None
           else case hm_group m k of [] \<Rightarrow> None | e # _ \<Rightarrow> Some e) \<and>
    sz m' = sz m + of_bool (rc = 0 \<and> old = None)"
proof (cases "st = HASHMAP_APPEND \<or> hm_group m k = []")
  case True
  then have none: "(if st = HASHMAP_APPEND then None
      else case hm_group m k of [] \<Rightarrow> None | e # _ \<Rightarrow> Some e) = None" by auto
  show ?thesis
  proof (cases "st = HASHMAP_UPDATE")
    case update: True
    with True have "hm_group m k = []" by simp
    with update show ?thesis using insert_absent(1) [OF inv] inv none by simp
  next
    case False
    with True have "hashmap__insert c d m k v st = hashmap_insert_new c d m k v"
      using insert_append insert_absent(2) [OF inv] by metis
    with none show ?thesis using insert_new_total [OF inv, of c d k v] by auto
  qed
next
  case False
  then obtain e g where g: "hm_group m k = e # g" "st \<noteq> HASHMAP_APPEND"
    by (cases "hm_group m k") auto
  show ?thesis
  proof (cases "st = HASHMAP_ADD")
    case True
    then show ?thesis using insert_refused [OF inv g(1)] inv g by simp
  next
    case False
    with g(2) have "st = HASHMAP_SET \<or> st = HASHMAP_UPDATE" by (cases st) auto
    then obtain m' where "hashmap__insert c d m k v st = Some (0, Some e, m')" "hm_inv m'" "sz m' = sz m"
      using insert_found [OF inv g(1)] by blast
    then show ?thesis using g by simp
  qed
qed

text \<open>C24: an insertion under any strategy stays inside the table, reports the entry it found with an
  equal key, and counts exactly the entries it adds; afterwards the table is well formed and at most
  three quarters full (rounded up), so the chains stay short on average.\<close>

theorem hashmap_insert_safe:
  assumes "hm_inv m"
  shows "\<exists>rc old m'. hashmap__insert c d m k v st = Some (rc, old, m') \<and> hm_inv m' \<and>
    old = (if st = HASHMAP_APPEND then None
           else case hm_group m k of [] \<Rightarrow> None | e # _ \<Rightarrow> Some e) \<and>
    hashmap__size m' = hashmap__size m + of_bool (rc = 0 \<and> old = None) \<and>
    hashmap__size m' * 4 div 3 \<le> hashmap__capacity m'"
proof -
  obtain rc old m' where "hashmap__insert c d m k v st = Some (rc, old, m')" and inv': "hm_inv m'"
    and "old = (if st = HASHMAP_APPEND then None
         else case hm_group m k of [] \<Rightarrow> None | e # _ \<Rightarrow> Some e)"
      "sz m' = sz m + of_bool (rc = 0 \<and> old = None)"
    using insert_total [OF assms] by blast
  moreover have "sz m' * 4 div 3 \<le> cap m'" using inv' by (simp add: hm_inv_def)
  ultimately show ?thesis by (simp add: hashmap__size_def hashmap__capacity_def)
qed

theorem hashmap_insert_safe_witness:
  "\<exists>rc old m'. hashmap__insert True True (hashmap__init (\<lambda>k :: nat. of_nat k) (=)) 7 ''v'' HASHMAP_ADD
      = Some (rc, old, m') \<and> hm_inv m' \<and>
    old = (if HASHMAP_ADD = HASHMAP_APPEND then None
           else case hm_group (hashmap__init (\<lambda>k. of_nat k) (=)) 7 of [] \<Rightarrow> None | e # _ \<Rightarrow> Some e) \<and>
    hashmap__size m' = hashmap__size (hashmap__init (\<lambda>k :: nat. of_nat k) (=) :: (nat, string) hashmap) +
      of_bool (rc = 0 \<and> old = None) \<and> hashmap__size m' * 4 div 3 \<le> hashmap__capacity m'"
  by (rule hashmap_insert_safe [OF hm_inv_init [OF good_keys_eq]])

text \<open>C34: a map with several entries per key. For every outcome of the allocations, an append returns and
  keeps the map well formed. It succeeds exactly when the new entry can be allocated and, if the table
  has to grow for it, the larger table as well: then the walk over the entries of the key sees the new
  value first and every value appended before exactly as often as it was. Otherwise it reports
  \<open>-ENOMEM\<close>, adds nothing and counts nothing. The other keys keep their entries in either case. A table
  that has grown, also for an append that then failed, walks the older entries in the opposite order.\<close>

theorem hashmap_append_multimap:
  assumes "hm_inv m"
  shows "\<exists>m'. hashmap__append calloc_ok malloc_ok m k v =
      Some (if (calloc_ok \<or> \<not> hashmap_needs_to_grow m) \<and> malloc_ok then 0 else - ENOMEM, None, m') \<and>
    hm_inv m' \<and>
    hashmap__size m' = hashmap__size m + of_bool ((calloc_ok \<or> \<not> hashmap_needs_to_grow m) \<and> malloc_ok) \<and>
    (\<forall>k'. \<exists>old. hashmap_key_entries m k' = Some old \<and>
       hashmap_key_entries m' k' =
         Some ((if (calloc_ok \<or> \<not> hashmap_needs_to_grow m) \<and> malloc_ok \<and> equal_fn m k k' then [(k, v)] else []) @
               (if hashmap_needs_to_grow m \<and> calloc_ok then rev old else old)))"
proof -
  obtain m' where m': "hashmap_insert_new calloc_ok malloc_ok m k v =
      Some (if (calloc_ok \<or> \<not> hashmap_needs_to_grow m) \<and> malloc_ok then 0 else - ENOMEM, None, m')" "hm_inv m'"
    "sz m' = sz m + of_bool ((calloc_ok \<or> \<not> hashmap_needs_to_grow m) \<and> malloc_ok)"
    "\<And>k'. hm_group m' k' =
       (if ((calloc_ok \<or> \<not> hashmap_needs_to_grow m) \<and> malloc_ok) \<and> equal_fn m k k' then [(k, v)] else []) @
       (if hashmap_needs_to_grow m \<and> calloc_ok then rev (hm_group m k') else hm_group m k')"
    using insert_new_groups [OF assms] by blast
  have walk: "\<exists>old. hashmap_key_entries m k' = Some old \<and> hashmap_key_entries m' k' =
      Some ((if (calloc_ok \<or> \<not> hashmap_needs_to_grow m) \<and> malloc_ok \<and> equal_fn m k k' then [(k, v)] else []) @
            (if hashmap_needs_to_grow m \<and> calloc_ok then rev old else old))" for k'
    by (rule exI [of _ "hm_group m k'"], rule conjI [OF hashmap_key_entries_group [OF assms]])
       (simp only: hashmap_key_entries_group [OF m'(2)] m'(4) conj_assoc)
  show ?thesis
    unfolding hashmap__append_def insert_append hashmap__size_def
    by (intro exI [of _ m'] conjI allI, rule m'(1), rule m'(2), rule m'(3), rule walk)
qed

theorem hashmap_append_multimap_witness:
  "(\<exists>m'. hashmap__append True True (hashmap__init (\<lambda>k :: nat. of_nat k) (=)) 7 ''v'' = Some (0, None, m') \<and>
    hashmap_key_entries m' 7 = Some [(7, ''v'')]) \<and>
   (\<exists>m'. hashmap__append False True (hashmap__init (\<lambda>k :: nat. of_nat k) (=)) 7 ''v'' = Some (- ENOMEM, None, m') \<and>
    hashmap_key_entries m' 7 = Some [])"
proof -
  let ?m = "hashmap__init (\<lambda>k :: nat. of_nat k) (=) :: (nat, string) hashmap"
  have m: "hashmap_needs_to_grow ?m" "equal_fn ?m 7 7"
    by (simp_all add: hashmap_needs_to_grow_def hashmap__init_def)
  have "hm_group ?m 7 = []" by (simp add: hm_group_def hashmap_entries_def hashmap__init_def)
  then have m': "hashmap_key_entries ?m 7 = Some []"
    using hashmap_key_entries_group [of ?m 7, OF hm_inv_init [OF good_keys_eq]] by simp
  note inv = hm_inv_init [OF good_keys_eq]
  have 1: "\<exists>m'. hashmap__append True True ?m 7 ''v'' = Some (0, None, m') \<and> hashmap_key_entries m' 7 = Some [(7, ''v'')]"
    using hashmap_append_multimap [of ?m True True 7 "''v''", OF inv] m m' by (elim exE conjE) (drule spec [of _ 7], simp)
  have 2: "\<exists>m'. hashmap__append False True ?m 7 ''v'' = Some (- ENOMEM, None, m') \<and> hashmap_key_entries m' 7 = Some []"
    using hashmap_append_multimap [of ?m False True 7 "''v''", OF inv] m m' by (elim exE conjE) (drule spec [of _ 7], simp)
  show ?thesis by (rule conjI [OF 1 2])
qed

text \<open>The promise of \<open>hashmap.h\<close> that \<open>hashmap__find\<close> returns the last inserted entry of a key with
  several entries does not hold. When an append of another key makes the table grow, a find of the key
  returns the entry that was last in its chain before, which for entries appended since the previous
  growth is the oldest one.\<close>

theorem hashmap_find_oldest_after_growth:
  assumes "hm_inv m" "hashmap_needs_to_grow m" "\<not> equal_fn m k2 k" "hm_group m k \<noteq> []"
  shows "\<exists>m'. hashmap__append True True m k2 v = Some (0, None, m') \<and>
    hashmap__find m k = Some (Some (snd (hd (hm_group m k)))) \<and>
    hashmap__find m' k = Some (Some (snd (last (hm_group m k))))"
proof -
  obtain m' where m': "hashmap_insert_new True True m k2 v = Some (0, None, m')" "hm_inv m'"
    "\<And>k'. hm_group m' k' = (if equal_fn m k2 k' then [(k2, v)] else []) @ hm_order m (hm_group m k')"
    using insert_new_done [OF assms(1), of True] by blast
  have "hm_group m' k = rev (hm_group m k)" using m'(3) assms(2,3) by (simp add: hm_order_def)
  then show ?thesis using m'(1,2) assms(1,4)
    by (auto simp: hashmap__append_def insert_append hashmap__find_group hm_lookup_def hd_rev
        neq_Nil_conv split: list.splits)
qed

definition sample_multimap :: "(nat, string) hashmap" where
  "sample_multimap = \<lparr>hash_fn = \<lambda>k. 0, equal_fn = (=),
     buckets = Buckets [[(3, ''c''), (3, ''b''), (3, ''a'')], [], [], []], cap = 4, cap_bits = 2, sz = 3\<rparr>"

lemma sample_multimap_inv: "hm_inv sample_multimap"
  by (auto simp: hm_inv_def hm_placed_def sample_multimap_def hash_bits_def nth_Cons split: nat.splits)

theorem hashmap_find_oldest_after_growth_witness:
  "\<exists>m'. hashmap__append True True sample_multimap 2 ''d'' = Some (0, None, m') \<and>
    hashmap__find sample_multimap 3 = Some (Some ''c'') \<and> hashmap__find m' 3 = Some (Some ''a'')"
proof -
  have group: "hm_group sample_multimap 3 = [(3, ''c''), (3, ''b''), (3, ''a'')]"
    by (simp add: hm_group_def hashmap_entries_def sample_multimap_def)
  have grow: "hashmap_needs_to_grow sample_multimap" "\<not> equal_fn sample_multimap 2 3"
    by (simp_all add: hashmap_needs_to_grow_def sample_multimap_def)
  show ?thesis
    using hashmap_find_oldest_after_growth [OF sample_multimap_inv grow, of "''d''"] by (simp add: group)
qed

text \<open>C35: \<open>hashmap__clear\<close> leaves the pointer to the freed buckets in the map: on a map that had
  buckets the call itself returns and the size is zero, but every later lookup, every insertion that
  is not an append, and another clear (also through \<open>hashmap__free\<close>) touches freed memory.\<close>

theorem hashmap_clear_dangles:
  assumes "buckets m = Buckets bs" "st \<noteq> HASHMAP_APPEND"
  shows "\<exists>m'. hashmap__clear m = Some m' \<and> hashmap__size m' = 0 \<and>
    hashmap__find m' k = None \<and> hashmap__insert c d m' k v st = None \<and>
    hashmap__clear m' = None \<and> hashmap__free (Some m') = None"
  using assms
  by (simp add: hashmap__clear_def hashmap__size_def hashmap__find_def hashmap_find_entry_def
      hashmap__insert_def hashmap__free_def)

theorem hashmap_clear_dangles_witness:
  "\<exists>m'. hashmap__clear sample_multimap = Some m' \<and> hashmap__size m' = 0 \<and>
    hashmap__find m' 5 = None \<and> hashmap__insert True True m' 5 ''e'' HASHMAP_SET = None \<and>
    hashmap__clear m' = None \<and> hashmap__free (Some m') = None"
  by (rule hashmap_clear_dangles
      [of sample_multimap "[[(3, ''c''), (3, ''b''), (3, ''a'')], [], [], []]"])
     (simp_all add: sample_multimap_def)

end
