(* ===== verification/Byte_Buffer.thy ===== *)
theory Byte_Buffer
  imports Bpf_Runtime "HOL-Library.Monad_Syntax"
begin

text \<open>
  Byte buffers as the parsers of the bundled libbpf read them: a list of bytes, an offset in place of
  a pointer, and \<open>None\<close> for a read that leaves the buffer. Integers are little endian. The writers give
  the bytes of an integer; the lemmas relate both.
\<close>

definition rd8 :: "u8 list \<Rightarrow> nat \<Rightarrow> u8 option" where
  "rd8 buf pos = (if pos < length buf then Some (buf ! pos) else None)"

definition rd16 :: "u8 list \<Rightarrow> nat \<Rightarrow> u16 option" where
  "rd16 buf pos = (if pos + 2 \<le> length buf then Some (le16 (drop pos buf)) else None)"

definition rd32 :: "u8 list \<Rightarrow> nat \<Rightarrow> u32 option" where
  "rd32 buf pos = (if pos + 4 \<le> length buf then Some (le32 (drop pos buf)) else None)"

definition enc16 :: "u16 \<Rightarrow> u8 list" where
  "enc16 x = [ucast x, ucast (drop_bit 8 x)]"

definition enc32 :: "u32 \<Rightarrow> u8 list" where
  "enc32 x = [ucast x, ucast (drop_bit 8 x), ucast (drop_bit 16 x), ucast (drop_bit 24 x)]"

lemma length_enc [simp]: "length (enc16 x) = 2" "length (enc32 y) = 4"
  by (simp_all add: enc16_def enc32_def)

lemma le16_enc16 [simp]: "le16 (enc16 x @ r) = x"
  by (rule bit_word_eqI) (auto simp: enc16_def bit_simps dest: bit_imp_le_length)

lemma bit32_quarters:
  "n < 32 \<Longrightarrow> n < 8 \<or> 8 \<le> n \<and> n < 16 \<or> 16 \<le> n \<and> n < 24 \<or> 24 \<le> (n :: nat)"
  by linarith

lemma le32_enc32 [simp]: "le32 (enc32 x @ r) = x"
  by (rule bit_word_eqI)
     (auto simp: enc32_def bit_simps dest: bit_imp_le_length bit32_quarters)

lemma rd16_append:
  "rd16 (xs @ ys) pos = (if length xs \<le> pos then rd16 ys (pos - length xs)
                         else if pos + 2 \<le> length xs then rd16 xs pos else rd16 (xs @ ys) pos)"
proof (cases "pos + 2 \<le> length xs")
  case True
  then obtain a b r where "drop pos xs = a # b # r"
    by (cases "drop pos xs"; cases "tl (drop pos xs)") (auto dest!: arg_cong [of _ _ length])
  then show ?thesis using True by (simp add: rd16_def)
qed (auto simp: rd16_def)

lemma rd16_enc16 [simp]: "rd16 (enc16 x @ r) 0 = Some x"
  by (simp add: rd16_def)

lemma rd32_enc32 [simp]: "rd32 (enc32 x @ r) 0 = Some x"
  by (simp add: rd32_def)

lemma rd16_skip: "rd16 (xs @ ys) (length xs + n) = rd16 ys n"
  by (simp add: rd16_def)

lemma rd32_skip: "rd32 (xs @ ys) (length xs + n) = rd32 ys n"
  by (simp add: rd32_def)

lemma rd8_skip: "rd8 (xs @ ys) (length xs + n) = rd8 ys n"
  by (simp add: rd8_def nth_append)

lemma rd_drop:
  "rd16 (drop n buf) k = rd16 buf (n + k)" "rd32 (drop n buf) k = rd32 buf (n + k)"
  by (auto simp: rd16_def rd32_def add.commute)

lemma rd16_None: "rd16 buf pos = None \<longleftrightarrow> length buf < pos + 2"
  by (auto simp: rd16_def)

lemma rd_inside:
  "pos < length buf \<Longrightarrow> \<exists>x. rd8 buf pos = Some x"
  "pos + 2 \<le> length buf \<Longrightarrow> \<exists>x. rd16 buf pos = Some x"
  "pos + 4 \<le> length buf \<Longrightarrow> \<exists>x. rd32 buf pos = Some x"
  by (simp_all add: rd8_def rd16_def rd32_def)

lemma le32_take4: "le32 (take 4 xs) = le32 xs"
  by (cases xs rule: le32.cases) (simp_all add: numeral_eq_Suc)

lemma le32_take: "4 \<le> n \<Longrightarrow> le32 (take n xs) = le32 xs"
  using le32_take4 [of "take n xs"] le32_take4 [of xs] by (simp add: min_def)

lemma le32_append: "4 \<le> length xs \<Longrightarrow> le32 (xs @ ys) = le32 xs"
  using le32_take4 [of "xs @ ys"] le32_take4 [of xs] by simp

lemma rd8_drop_Cons: "drop p buf = x # r \<Longrightarrow> rd8 buf p = Some x"
  using nth_via_drop [of p buf x r] by (cases "p < length buf") (simp_all add: rd8_def)

section \<open>Strings and numbers\<close>

text \<open>The string that starts at an offset, without its terminator.\<close>

definition c_string :: "u8 list \<Rightarrow> nat \<Rightarrow> u8 list" where
  "c_string buf p = takeWhile (\<lambda>c. c \<noteq> 0) (drop p buf)"

text \<open>Numbers as \<open>printf\<close> writes them.\<close>

fun decimal :: "nat \<Rightarrow> u8 list" where
  "decimal n = (if n < 10 then [48 + of_nat n] else decimal (n div 10) @ [48 + of_nat (n mod 10)])"

declare decimal.simps [simp del]

definition format_d :: "int \<Rightarrow> u8 list" where
  "format_d v = (if v < 0 then 45 # decimal (nat (- v)) else decimal (nat v))"

end
