(* ===== verification/Nlattr.thy ===== *)
theory Nlattr
  imports Byte_Buffer
begin

text \<open>
  Netlink attributes, \<open>libbpf/src/nlattr.c\<close> and \<open>nlattr.h\<close>. A message lies in a byte buffer and pointers
  are offsets into it; an operation has the result \<open>None\<close> when it reads outside the buffer.
  \<open>remaining\<close> and the lengths are C integers; the comparison with \<open>sizeof\<close> in \<open>nla_ok\<close> converts
  \<open>remaining\<close> to an unsigned 64-bit number, and the model does the same.
\<close>

section \<open>Constants and data\<close>

definition NLA_HDRLEN :: int where "NLA_HDRLEN = 4"

definition NLMSG_HDRLEN :: int where "NLMSG_HDRLEN = 16"

definition NLA_ALIGN :: "int \<Rightarrow> int" where
  "NLA_ALIGN len = and (len + 4 - 1) (not (4 - 1))"

definition NLA_TYPE_MASK :: u16 where
  "NLA_TYPE_MASK = not (or (push_bit 15 1) (push_bit 14 1))"

text \<open>The standard attribute types of the validation policies.\<close>

definition LIBBPF_NLA_UNSPEC :: u16 where "LIBBPF_NLA_UNSPEC = 0"
definition LIBBPF_NLA_U32 :: u16 where "LIBBPF_NLA_U32 = 3"
definition LIBBPF_NLA_STRING :: u16 where "LIBBPF_NLA_STRING = 5"
definition LIBBPF_NLA_TYPE_MAX :: u16 where "LIBBPF_NLA_TYPE_MAX = 8"

record libbpf_nla_policy =
  pol_type :: u16
  pol_minlen :: u16
  pol_maxlen :: u16

definition nla_attr_minlen :: "nat list" where
  "nla_attr_minlen = [0, 1, 2, 4, 8, 1, 0, 0, 0]"

section \<open>Operations\<close>

definition nla_len_field :: "u8 list \<Rightarrow> nat \<Rightarrow> int option" where
  "nla_len_field buf nla = map_option uint (rd16 buf nla)"

definition libbpf_nla_data :: "nat \<Rightarrow> nat" where
  "libbpf_nla_data nla = nla + nat NLA_HDRLEN"

definition libbpf_nla_getattr_u8 :: "u8 list \<Rightarrow> nat \<Rightarrow> u8 option" where
  "libbpf_nla_getattr_u8 buf nla = rd8 buf (libbpf_nla_data nla)"

definition libbpf_nla_getattr_u32 :: "u8 list \<Rightarrow> nat \<Rightarrow> u32 option" where
  "libbpf_nla_getattr_u32 buf nla = rd32 buf (libbpf_nla_data nla)"

definition libbpf_nla_len :: "u8 list \<Rightarrow> nat \<Rightarrow> int option" where
  "libbpf_nla_len buf nla = map_option (\<lambda>len. len - NLA_HDRLEN) (nla_len_field buf nla)"

definition nla_next :: "u8 list \<Rightarrow> nat \<Rightarrow> int \<Rightarrow> (nat \<times> int) option" where
  "nla_next buf nla remaining =
     do {
       len \<leftarrow> nla_len_field buf nla;
       let totlen = NLA_ALIGN len;
       Some (nla + nat totlen, remaining - totlen)
     }"

definition nla_ok :: "u8 list \<Rightarrow> nat \<Rightarrow> int \<Rightarrow> bool option" where
  "nla_ok buf nla remaining =
     (if \<not> (word_of_int remaining :: u64) \<ge> 4 then Some False
      else map_option (\<lambda>len. len \<ge> 4 \<and> len \<le> remaining) (nla_len_field buf nla))"

definition nla_type :: "u8 list \<Rightarrow> nat \<Rightarrow> nat option" where
  "nla_type buf nla = map_option (\<lambda>t. unat (and t NLA_TYPE_MASK)) (rd16 buf (nla + 2))"

definition validate_nla :: "u8 list \<Rightarrow> nat \<Rightarrow> nat \<Rightarrow> libbpf_nla_policy list \<Rightarrow> int option" where
  "validate_nla buf nla maxtype policy =
     do {
       type \<leftarrow> nla_type buf nla;
       if type > maxtype then Some 0
       else if \<not> type < length policy then None
       else
         let pt = policy ! type in
         if pol_type pt > LIBBPF_NLA_TYPE_MAX then Some 0
         else
           let minlen = (if pol_minlen pt \<noteq> 0 then unat (pol_minlen pt)
                         else if pol_type pt \<noteq> LIBBPF_NLA_UNSPEC
                         then nla_attr_minlen ! unat (pol_type pt) else 0)
           in do {
             len \<leftarrow> libbpf_nla_len buf nla;
             if (word_of_int len :: u32) < of_nat minlen then Some (- 1)
             else if pol_maxlen pt \<noteq> 0 \<and> len > uint (pol_maxlen pt) then Some (- 1)
             else if pol_type pt = LIBBPF_NLA_STRING then
               do {
                 c \<leftarrow> (let pos = int (libbpf_nla_data nla) + len - 1 in
                      if pos < 0 then None else rd8 buf (nat pos));
                 Some (if c \<noteq> 0 then - 1 else 0)
               }
             else Some 0
           }
     }"

text \<open>
  The loop of \<open>libbpf_nla_parse\<close>. \<open>tb\<close> holds the offset of the attribute stored for each type. The
  message about a repeated type has no effect on the result.
\<close>

definition nla_parse_one ::
  "u8 list \<Rightarrow> nat \<Rightarrow> libbpf_nla_policy list option \<Rightarrow> nat \<Rightarrow> nat option list \<Rightarrow> (int \<times> nat option list) option"
where
  "nla_parse_one buf maxtype policy nla tb =
     do {
       type \<leftarrow> nla_type buf nla;
       if type > maxtype then Some (0, tb)
       else
         do {
           err \<leftarrow> (case policy of None \<Rightarrow> Some 0 | Some p \<Rightarrow> validate_nla buf nla maxtype p);
           Some (if err < 0 then (err, tb) else (0, tb[type := Some nla]))
         }
     }"

function nla_parse_loop ::
  "u8 list \<Rightarrow> nat \<Rightarrow> libbpf_nla_policy list option \<Rightarrow> nat \<Rightarrow> int \<Rightarrow> nat option list \<Rightarrow>
     (int \<times> nat option list) option"
where
  "nla_parse_loop buf maxtype policy nla rem tb =
     (case nla_ok buf nla rem of
        None \<Rightarrow> None
      | Some False \<Rightarrow> Some (0, tb)
      | Some True \<Rightarrow>
          (case nla_parse_one buf maxtype policy nla tb of
             None \<Rightarrow> None
           | Some (err, tb) \<Rightarrow>
               if err < 0 then Some (err, tb)
               else (case nla_next buf nla rem of
                       None \<Rightarrow> None
                     | Some (nla, rem) \<Rightarrow> nla_parse_loop buf maxtype policy nla rem tb)))"
  by pat_completeness auto

lemma NLA_ALIGN_eq [simp]: "NLA_ALIGN len = (len + 3) div 4 * 4"
proof -
  have "and (len + 3) (not (mask 2)) = push_bit 2 (drop_bit 2 (len + 3))"
    by (rule bit_eqI) (auto simp: bit_simps simp flip: add_2_eq_Suc)
  then show ?thesis
    by (simp add: NLA_ALIGN_def push_bit_eq_mult drop_bit_eq_div mask_eq_exp_minus_1 add.commute)
qed

lemma nla_ok_True:
  "nla_ok buf nla rem = Some True \<longleftrightarrow>
     (\<exists>len. nla_len_field buf nla = Some len \<and> 4 \<le> len \<and> len \<le> rem) \<and>
     4 \<le> (word_of_int rem :: u64)"
  by (auto simp: nla_ok_def)

lemma nla_next_less:
  assumes "nla_ok buf nla rem = Some True" "nla_next buf nla rem = Some (nla', rem')"
  shows "rem' < rem" "0 < rem"
  using assms by (auto simp: nla_ok_True nla_next_def Let_def)

termination nla_parse_loop
  by (relation "measure (\<lambda>(buf, maxtype, policy, nla, rem, tb). nat rem)")
     (auto intro: nla_next_less)

declare nla_parse_loop.simps [simp del]

definition libbpf_nla_parse ::
  "u8 list \<Rightarrow> nat \<Rightarrow> nat \<Rightarrow> int \<Rightarrow> libbpf_nla_policy list option \<Rightarrow> (int \<times> nat option list) option"
where
  "libbpf_nla_parse buf maxtype head len policy =
     nla_parse_loop buf maxtype policy head len (replicate (maxtype + 1) None)"

definition libbpf_nla_parse_nested ::
  "u8 list \<Rightarrow> nat \<Rightarrow> nat \<Rightarrow> libbpf_nla_policy list option \<Rightarrow> (int \<times> nat option list) option"
where
  "libbpf_nla_parse_nested buf maxtype nla policy =
     do {
       len \<leftarrow> libbpf_nla_len buf nla;
       libbpf_nla_parse buf maxtype (libbpf_nla_data nla) len policy
     }"

section \<open>Extended acknowledgements\<close>

text \<open>
  A message header and the payload of an error message: \<open>nlmsg_len\<close> at offset 0, type 4, flags 6,
  sequence number 8, port 12; then the error code and the header of the message it answers.
\<close>

definition NLM_F_CAPPED :: u16 where "NLM_F_CAPPED = 0x100"
definition NLM_F_ACK_TLVS :: u16 where "NLM_F_ACK_TLVS = 0x200"
definition NLMSGERR_ATTR_MSG :: nat where "NLMSGERR_ATTR_MSG = 1"
definition NLMSGERR_ATTR_OFFS :: nat where "NLMSGERR_ATTR_OFFS = 2"
definition NLMSGERR_ATTR_MAX :: nat where "NLMSGERR_ATTR_MAX = 3"

definition nlmsg_len :: "u8 list \<Rightarrow> nat \<Rightarrow> int option" where
  "nlmsg_len buf nlh = map_option (\<lambda>len. sint (len - word_of_int NLMSG_HDRLEN)) (rd32 buf nlh)"

definition extack_policy :: "libbpf_nla_policy list" where
  "extack_policy =
     (replicate (NLMSGERR_ATTR_MAX + 1) \<lparr>pol_type = LIBBPF_NLA_UNSPEC, pol_minlen = 0, pol_maxlen = 0\<rparr>)
       [NLMSGERR_ATTR_MSG := \<lparr>pol_type = LIBBPF_NLA_STRING, pol_minlen = 0, pol_maxlen = 0\<rparr>,
        NLMSGERR_ATTR_OFFS := \<lparr>pol_type = LIBBPF_NLA_U32, pol_minlen = 0, pol_maxlen = 0\<rparr>]"

text \<open>What the function prints; it returns 0 in every case. The message is the offset of a C string.\<close>

datatype extack_report = NoReport | ParseWarning | KernelMessage "nat option"

text \<open>Where the attributes start and how many bytes of them the code expects.\<close>

definition extack_span :: "u8 list \<Rightarrow> nat \<Rightarrow> u16 \<Rightarrow> (int \<times> int) option" where
  "extack_span buf nlh flags =
     do {
       let err = nlh + nat NLMSG_HDRLEN;
       hlen \<leftarrow> (if and flags NLM_F_CAPPED = 0
               then map_option (\<lambda>l. 20 + l) (nlmsg_len buf (err + 4)) else Some 20);
       len \<leftarrow> rd32 buf nlh;
       Some (int err + hlen, sint (len - word_of_int hlen))
     }"

definition libbpf_nla_dump_errormsg :: "u8 list \<Rightarrow> nat \<Rightarrow> (int \<times> extack_report) option" where
  "libbpf_nla_dump_errormsg buf nlh =
     do {
       flags \<leftarrow> rd16 buf (nlh + 6);
       if and flags NLM_F_ACK_TLVS = 0 then Some (0, NoReport)
       else
         do {
           (attr, alen) \<leftarrow> extack_span buf nlh flags;
           if attr < 0 then None
           else
             do {
               (rc, tb) \<leftarrow> libbpf_nla_parse buf NLMSGERR_ATTR_MAX (nat attr) alen (Some extack_policy);
               if rc \<noteq> 0 then Some (0, ParseWarning)
               else Some (0, KernelMessage (map_option libbpf_nla_data (tb ! NLMSGERR_ATTR_MSG)))
             }
         }
     }"

section \<open>Attributes inside their stream\<close>

lemma size_compare:
  "- (2 ^ 63) \<le> rem \<Longrightarrow> rem < 2 ^ 63 \<Longrightarrow> 4 \<le> (word_of_int rem :: u64) \<longleftrightarrow> rem < 0 \<or> 4 \<le> rem"
proof -
  assume "- (2 ^ 63) \<le> rem" "rem < 2 ^ 63"
  then have "rem mod 18446744073709551616 = (if rem < 0 then rem + 18446744073709551616 else rem)"
    using mod_add_self2 [of rem 18446744073709551616] mod_pos_pos_trivial [of "rem + 18446744073709551616"]
    by (auto simp del: mod_add_self2 simp: mod_pos_pos_trivial)
  then show ?thesis using \<open>- (2 ^ 63) \<le> rem\<close>
    by (simp add: word_le_def uint_word_of_int take_bit_eq_mod)
qed

text \<open>An attribute whose header and payload lie between two offsets.\<close>

definition attr_within :: "u8 list \<Rightarrow> nat \<Rightarrow> nat \<Rightarrow> nat \<Rightarrow> bool" where
  "attr_within buf lo hi p \<longleftrightarrow> lo \<le> p \<and> p + 4 \<le> hi \<and>
     (\<exists>l. nla_len_field buf p = Some l \<and> 4 \<le> l \<and> int p + l \<le> int hi)"

definition tb_ok ::
  "u8 list \<Rightarrow> nat \<Rightarrow> nat \<Rightarrow> nat \<Rightarrow> libbpf_nla_policy list option \<Rightarrow> nat option list \<Rightarrow> bool" where
  "tb_ok buf lo hi maxtype policy tb \<longleftrightarrow> length tb = maxtype + 1 \<and>
     (\<forall>t p. t \<le> maxtype \<longrightarrow> tb ! t = Some p \<longrightarrow> attr_within buf lo hi p \<and> nla_type buf p = Some t \<and>
        (\<forall>pol. policy = Some pol \<longrightarrow> validate_nla buf p maxtype pol = Some 0))"

lemma u16_range: "uint (x :: u16) < 65536"
  using unsigned_less [of x, where ?'a = int] by simp

lemma nla_len_field_range: "nla_len_field buf p = Some l \<Longrightarrow> 0 \<le> l \<and> l < 65536"
  using u16_range by (auto simp: nla_len_field_def)

lemma nla_type_inside: "p + 4 \<le> length buf \<Longrightarrow> \<exists>t. nla_type buf p = Some t"
  by (auto simp: nla_type_def rd16_def)

lemma nla_len_inside: "p + 4 \<le> length buf \<Longrightarrow> \<exists>l. nla_len_field buf p = Some l"
  by (auto simp: nla_len_field_def rd16_def)

lemma nla_attr_minlen_string: "nla_attr_minlen ! 5 = 1"
  by (simp add: nla_attr_minlen_def)

lemma nla_attr_minlen_le: "i \<le> 8 \<Longrightarrow> nla_attr_minlen ! i \<le> 8"
  by (cases "i = 0 \<or> i = 1 \<or> i = 2 \<or> i = 3 \<or> i = 4 \<or> i = 5 \<or> i = 6 \<or> i = 7 \<or> i = 8")
     (auto simp: nla_attr_minlen_def)

lemma u32_compare:
  "0 \<le> len \<Longrightarrow> len < 65536 \<Longrightarrow> n < 65536 \<Longrightarrow>
     (word_of_int len :: u32) < of_nat n \<longleftrightarrow> len < int n"
  by (simp add: word_less_def uint_word_of_int take_bit_eq_mod unsigned_of_nat)

text \<open>Validation stays inside an attribute that lies in the buffer.\<close>

lemma validate_nla_inside:
  assumes within: "attr_within buf lo hi p" and hi: "hi \<le> length buf" and pol: "maxtype < length policy"
  shows "\<exists>rc. validate_nla buf p maxtype policy = Some rc \<and> (rc = 0 \<or> rc = - 1)"
proof -
  obtain l where l: "nla_len_field buf p = Some l" "4 \<le> l" "int p + l \<le> int hi"
    using within by (auto simp: attr_within_def)
  obtain t where t: "nla_type buf p = Some t"
    using nla_type_inside [of p buf] within hi by (auto simp: attr_within_def)
  let ?pt = "policy ! t"
  let ?minlen = "if pol_minlen ?pt \<noteq> 0 then unat (pol_minlen ?pt)
     else if pol_type ?pt \<noteq> LIBBPF_NLA_UNSPEC then nla_attr_minlen ! unat (pol_type ?pt) else 0"
  show ?thesis
  proof (cases "t > maxtype \<or> pol_type ?pt > LIBBPF_NLA_TYPE_MAX")
    case True
    then show ?thesis using pol t by (auto simp: validate_nla_def)
  next
    case False
    then have small: "unat (pol_type ?pt) \<le> 8"
      by (simp add: LIBBPF_NLA_TYPE_MAX_def word_le_nat_alt not_less)
    have "unat (pol_minlen ?pt) < 65536" using unsigned_less [of "pol_minlen ?pt"] by simp
    then have min: "?minlen < 65536" using nla_attr_minlen_le [OF small] by auto
    have len: "libbpf_nla_len buf p = Some (l - 4)" by (simp add: libbpf_nla_len_def l NLA_HDRLEN_def)
    have string: "\<exists>c. rd8 buf (nat (int (libbpf_nla_data p) + (l - 4) - 1)) = Some c \<and>
        \<not> int (libbpf_nla_data p) + (l - 4) - 1 < 0"
      if "\<not> l - 4 < int ?minlen" "pol_type ?pt = LIBBPF_NLA_STRING"
    proof -
      have "0 < ?minlen"
        using that(2) nla_attr_minlen_string unat_gt_0 [of "pol_minlen ?pt"]
        by (auto simp: LIBBPF_NLA_STRING_def LIBBPF_NLA_UNSPEC_def)
      with that(1) have "5 \<le> l" by linarith
      then show ?thesis using l(3) hi by (simp add: rd8_def libbpf_nla_data_def NLA_HDRLEN_def nat_less_iff)
    qed
    have cmp: "(word_of_int (l - 4) :: u32) < of_nat ?minlen \<longleftrightarrow> l - 4 < int ?minlen"
      using nla_len_field_range [OF l(1)] l(2) min by (intro u32_compare) auto
    show ?thesis using False pol t len cmp string
      by (auto simp: validate_nla_def Let_def split: if_splits)
  qed
qed

lemma nla_parse_one_inside:
  assumes within: "attr_within buf lo hi p" and hi: "hi \<le> length buf"
    and pol: "\<And>pol. policy = Some pol \<Longrightarrow> maxtype < length pol"
    and tb: "tb_ok buf lo hi maxtype policy tb"
  shows "\<exists>rc tb'. nla_parse_one buf maxtype policy p tb = Some (rc, tb') \<and> (rc = 0 \<or> rc = - 1) \<and>
    tb_ok buf lo hi maxtype policy tb'"
proof -
  obtain t where t: "nla_type buf p = Some t"
    using nla_type_inside [of p buf] within hi by (auto simp: attr_within_def)
  obtain err where err: "(case policy of None \<Rightarrow> Some 0 | Some pol \<Rightarrow> validate_nla buf p maxtype pol) = Some err"
    "err = 0 \<or> err = - 1"
    using validate_nla_inside [OF within hi] pol by (cases policy) auto
  have "tb_ok buf lo hi maxtype policy (tb[t := Some p])" if "err = 0" "t \<le> maxtype"
    using tb t err(1) within that by (auto simp: tb_ok_def nth_list_update_cases split: if_splits)
  then show ?thesis using t err tb by (auto simp: nla_parse_one_def not_less)
qed

lemma nla_parse_loop_inside:
  assumes "int nla + rem = int hi" "0 \<le> rem" "rem < 2 ^ 31" "4 dvd rem" "lo \<le> nla"
    "hi \<le> length buf" "\<And>pol. policy = Some pol \<Longrightarrow> maxtype < length pol"
    "tb_ok buf lo hi maxtype policy tb"
  shows "\<exists>rc tb'. nla_parse_loop buf maxtype policy nla rem tb = Some (rc, tb') \<and>
    (rc = 0 \<or> rc = - 1) \<and> tb_ok buf lo hi maxtype policy tb'"
  using assms
proof (induction buf maxtype policy nla rem tb rule: nla_parse_loop.induct)
  case (1 buf maxtype policy nla rem tb)
  note prems = "1.prems"
  note step = nla_parse_loop.simps [of buf maxtype policy nla rem tb]
  have cmp: "4 \<le> (word_of_int rem :: u64) \<longleftrightarrow> 4 \<le> rem"
    using size_compare [of rem] prems(2,3) by simp
  show ?case
  proof (cases "nla_ok buf nla rem")
    case None
    then show ?thesis using nla_len_inside [of nla buf] prems(1,6)
      by (auto simp: nla_ok_def cmp split: if_splits)
  next
    case (Some ok)
    show ?thesis
    proof (cases ok)
      case False
      then show ?thesis using Some step prems(8) by simp
    next
      case True
      with Some have ok: "nla_ok buf nla rem = Some True" by simp
      then obtain l where l: "nla_len_field buf nla = Some l" "4 \<le> l" "l \<le> rem"
        by (auto simp: nla_ok_True)
      have within: "attr_within buf lo hi nla" using l prems(1,5) by (auto simp: attr_within_def)
      obtain rc tb' where one: "nla_parse_one buf maxtype policy nla tb = Some (rc, tb')"
        "rc = 0 \<or> rc = - 1" "tb_ok buf lo hi maxtype policy tb'"
        using nla_parse_one_inside [OF within prems(6) prems(7,8)] by blast
      let ?t = "(l + 3) div 4 * 4"
      have nx: "nla_next buf nla rem = Some (nla + nat ?t, rem - ?t)"
        using l by (simp add: nla_next_def Let_def)
      have "4 dvd rem - ?t" using prems(4) by (rule dvd_diff) simp
      moreover have "?t \<le> rem" using l(3) prems(4) by (auto simp: dvd_def)
      ultimately show ?thesis
        using "1.IH" [OF ok refl one(1) refl _ nx refl] ok step one nx l prems
        by auto
    qed
  qed
qed

text \<open>C26: on a stream whose length is a multiple of four, inside its buffer, the parser never reads
  outside the buffer whatever the bytes are; it returns 0 or -1, and every attribute it indexes has the
  type it is indexed by, lies with its payload inside the stream and passed the validation policy.\<close>

theorem nla_parse_safe:
  assumes "0 \<le> len" "len < 2 ^ 31" "4 dvd len" "head + nat len \<le> length buf"
    "\<And>pol. policy = Some pol \<Longrightarrow> maxtype < length pol"
  shows "\<exists>rc tb. libbpf_nla_parse buf maxtype head len policy = Some (rc, tb) \<and> (rc = 0 \<or> rc = - 1) \<and>
    tb_ok buf head (head + nat len) maxtype policy tb"
  unfolding libbpf_nla_parse_def
  by (rule nla_parse_loop_inside) (use assms in \<open>auto simp: tb_ok_def simp del: replicate_Suc\<close>)

theorem nla_parse_safe_witness:
  "\<exists>rc tb. libbpf_nla_parse [9, 0, 1, 0, 5, 6, 7, 8] 2 0 8 None = Some (rc, tb) \<and> (rc = 0 \<or> rc = - 1) \<and>
    tb_ok [9, 0, 1, 0, 5, 6, 7, 8] 0 (0 + nat 8) 2 None tb"
  by (rule nla_parse_safe) simp_all

section \<open>Unaligned streams\<close>

lemma uint_of_nat_u16: "n < 65536 \<Longrightarrow> uint (of_nat n :: u16) = int n"
  by (simp add: unsigned_of_nat take_bit_nat_eq_self)

lemma align_strict:
  fixes x :: int
  assumes "\<not> 4 dvd x"
  shows "x < (x + 3) div 4 * 4" "(x + 3) div 4 * 4 < x + 4"
proof -
  have "(x + 3) div 4 = x div 4 + 1"
  proof -
    have "0 < x mod 4"
      using assms pos_mod_sign [of 4 x] by (simp add: dvd_eq_mod_eq_0 order.strict_iff_order)
    then show ?thesis
      using div_mult_mod_eq [of x 4] pos_mod_bound [of 4 x]
      by (intro int_div_pos_eq [of _ _ _ "x mod 4 - 1"]) (simp_all add: algebra_simps)
  qed
  then show "x < (x + 3) div 4 * 4" "(x + 3) div 4 * 4 < x + 4"
    using assms div_mult_mod_eq [of x 4] pos_mod_bound [of 4 x] pos_mod_sign [of 4 x]
    by (auto simp: dvd_eq_mod_eq_0)
qed

lemma nla_fields_at:
  assumes "drop p buf = enc16 x @ enc16 y @ r"
  shows "rd16 buf p = Some x" "rd16 buf (p + 2) = Some y"
proof -
  have "length buf - p = 4 + length r" using arg_cong [OF assms, of length] by simp
  moreover have "drop (p + 2) buf = enc16 y @ r"
    using arg_cong [OF assms, of "drop 2"] by (simp add: add.commute)
  ultimately show "rd16 buf p = Some x" "rd16 buf (p + 2) = Some y"
    using assms by (simp_all add: rd16_def)
qed

text \<open>C31: the parser reads past its stream. On a stream of one attribute, parsed without a policy, whose
  payload length is not a multiple of four and with which the buffer ends, \<open>remaining\<close> becomes negative, the comparison with \<open>sizeof\<close> in \<open>nla_ok\<close>
  takes it for a large unsigned number, and the next length field is read behind the buffer.\<close>

theorem nla_parse_reads_past:
  assumes "length payload < 65532" "\<not> 4 dvd length payload"
    and buf: "buf = enc16 (of_nat (4 + length payload)) @ enc16 t @ payload"
  shows "libbpf_nla_parse buf maxtype 0 (int (length buf)) None = None"
proof -
  let ?n = "length payload" and ?rem = "int (4 + length payload)"
  have len: "nla_len_field buf 0 = Some ?rem"
  proof -
    have "rd16 buf 0 = Some (of_nat (4 + ?n))" by (rule nla_fields_at(1)) (simp add: buf)
    then show ?thesis using uint_of_nat_u16 [of "4 + ?n"] assms(1) by (simp add: nla_len_field_def)
  qed
  have size: "length buf = 4 + ?n" by (simp add: buf)
  then obtain ty where ty: "nla_type buf 0 = Some ty"
    using nla_type_inside [of 0 buf] by auto
  have ok: "nla_ok buf 0 ?rem = Some True"
    using len assms(1) size_compare [of ?rem] by (simp add: nla_ok_def)
  define al where "al = (?rem + 3) div 4 * 4"
  have al: "?rem < al" "al < ?rem + 4"
    using align_strict [of ?rem] assms(2) int_dvd_int_iff [of 4 "4 + ?n"]
    unfolding al_def by simp_all
  have nx: "nla_next buf 0 ?rem = Some (nat al, ?rem - al)"
    using len by (simp add: nla_next_def Let_def al_def)
  have "nla_len_field buf (nat al) = None"
    using al(1) size by (auto simp: nla_len_field_def rd16_None nat_less_iff)
  moreover have "4 \<le> (word_of_int (?rem - al) :: u64)"
    using al assms(1) size_compare [of "?rem - al"] by simp
  ultimately have "nla_ok buf (nat al) (?rem - al) = None" by (simp add: nla_ok_def)
  then have "nla_parse_loop buf maxtype None (nat al) (?rem - al) tb = None" for tb
    by (simp add: nla_parse_loop.simps)
  moreover obtain tb where "nla_parse_one buf maxtype None 0 (replicate (maxtype + 1) None) = Some (0, tb)"
    using ty by (cases "ty > maxtype") (simp_all add: nla_parse_one_def)
  ultimately show ?thesis
    unfolding libbpf_nla_parse_def size using ok nx by (simp add: nla_parse_loop.simps [of _ _ _ 0])
qed

theorem nla_parse_reads_past_witness:
  "libbpf_nla_parse (enc16 (of_nat (4 + length [7 :: u8])) @ enc16 1 @ [7]) 2 0
     (int (length (enc16 (of_nat (4 + length [7 :: u8])) @ enc16 1 @ [7]))) None = None"
  by (rule nla_parse_reads_past [OF _ _ refl]) simp_all

section \<open>Round trip\<close>

text \<open>An attribute as a sender lays it out: header, payload, padding to a multiple of four.\<close>

definition nla_put :: "u16 \<times> u8 list \<Rightarrow> u8 list" where
  "nla_put a = enc16 (of_nat (4 + length (snd a))) @ enc16 (fst a) @ snd a @
     replicate ((3 * length (snd a)) mod 4) 0"

definition put_type :: "u16 \<times> u8 list \<Rightarrow> nat" where
  "put_type a = unat (and (fst a) NLA_TYPE_MASK)"

definition attr_payload :: "u8 list \<Rightarrow> nat \<Rightarrow> u8 list option" where
  "attr_payload buf nla =
     do {
       len \<leftarrow> libbpf_nla_len buf nla;
       if 0 \<le> len \<and> int (libbpf_nla_data nla) + len \<le> int (length buf)
       then Some (take (nat len) (drop (libbpf_nla_data nla) buf)) else None
     }"

text \<open>
  An attribute index that holds, for each type, the payload of the last attribute of that type in a
  list, and is empty where there is none.
\<close>

definition attr_map :: "(u16 \<times> u8 list) list \<Rightarrow> nat \<Rightarrow> u8 list option" where
  "attr_map as = map_of (rev (map (\<lambda>a. (put_type a, snd a)) as))"

definition tb_matches :: "u8 list \<Rightarrow> nat \<Rightarrow> nat option list \<Rightarrow> (u16 \<times> u8 list) list \<Rightarrow> bool" where
  "tb_matches buf maxtype tb as \<longleftrightarrow>
     (\<forall>t \<le> maxtype. case attr_map as t of
        None \<Rightarrow> tb ! t = None
      | Some pl \<Rightarrow> \<exists>p. tb ! t = Some p \<and> attr_payload buf p = Some pl)"

lemma attr_map_simps [simp]:
  "attr_map [] = (\<lambda>t. None)" "attr_map (as @ [a]) = (attr_map as)(put_type a \<mapsto> snd a)"
  by (simp_all add: attr_map_def fun_eq_iff)

lemma attr_map_Cons: "attr_map (a # as) t =
    (case attr_map as t of None \<Rightarrow> if put_type a = t then Some (snd a) else None | Some pl \<Rightarrow> Some pl)"
  by (auto simp: attr_map_def map_add_def split: option.splits)

lemma tb_matches_init: "tb_matches buf maxtype (replicate (maxtype + 1) None) []"
  by (simp add: tb_matches_def del: replicate_Suc)

lemma tb_matches_none: "tb_matches buf maxtype tb as \<Longrightarrow> t \<le> maxtype \<Longrightarrow> attr_map as t = None \<Longrightarrow>
    tb ! t = None"
  by (auto simp: tb_matches_def split: option.splits)

lemma tb_matches_some: "tb_matches buf maxtype tb as \<Longrightarrow> t \<le> maxtype \<Longrightarrow> attr_map as t = Some pl \<Longrightarrow>
    \<exists>p. tb ! t = Some p \<and> attr_payload buf p = Some pl"
  by (auto simp: tb_matches_def split: option.splits)

lemma length_nla_put: "int (length (nla_put a)) = (int (length (snd a)) + 7) div 4 * 4"
proof -
  have "n + 3 * n mod 4 = (n + 3) div 4 * (4 :: nat)" for n
  proof -
    obtain q r where n: "n = 4 * q + r" "r < 4" by (metis mod_less_divisor mult_div_mod_eq zero_less_numeral)
    then have "r = 0 \<or> r = 1 \<or> r = 2 \<or> r = 3" by linarith
    with n show ?thesis by (auto simp: algebra_simps) presburger+
  qed
  then have "length (nla_put a) = (length (snd a) + 3) div 4 * 4 + 4" by (simp add: nla_put_def)
  moreover have "(int (length (snd a)) + 7) div 4 = (int (length (snd a)) + 3) div 4 + 1"
    using div_add_self2 [of 4 "int (length (snd a)) + 3"] by simp
  ultimately show ?thesis by (simp add: zdiv_int)
qed

lemma nla_put_fields:
  assumes "drop p buf = nla_put a @ r" "length (snd a) < 65532"
  shows "nla_len_field buf p = Some (int (4 + length (snd a)))"
    "nla_type buf p = Some (put_type a)" "attr_payload buf p = Some (snd a)"
proof -
  note rd = nla_fields_at [of p buf, OF assms(1) [unfolded nla_put_def, simplified]]
  have "drop (p + 4) buf = drop 4 (nla_put a @ r)"
    using arg_cong [OF assms(1), of "drop 4"] by (simp add: add.commute)
  moreover show "nla_len_field buf p = Some (int (4 + length (snd a)))"
    using rd(1) uint_of_nat_u16 [of "4 + length (snd a)"] assms(2) by (simp add: nla_len_field_def)
  moreover have "p + 4 + length (snd a) \<le> length buf"
    using arg_cong [OF assms(1), of length] by (simp add: nla_put_def)
  ultimately show "attr_payload buf p = Some (snd a)"
    by (simp add: attr_payload_def libbpf_nla_len_def libbpf_nla_data_def NLA_HDRLEN_def nla_put_def Let_def)
  show "nla_type buf p = Some (put_type a)"
    using rd(2) by (simp add: nla_type_def put_type_def)
qed

lemma nla_parse_loop_put:
  assumes "buf = pre @ concat (map nla_put (bs @ as)) @ post" "\<forall>a \<in> set as. length (snd a) < 65532"
    "nla = length pre + length (concat (map nla_put bs))" "rem = int (length (concat (map nla_put as)))"
    "rem < 2 ^ 31" "length tb = maxtype + 1"
    "tb_matches buf maxtype tb bs"
  shows "\<exists>tb'. nla_parse_loop buf maxtype None nla rem tb = Some (0, tb') \<and>
    tb_matches buf maxtype tb' (bs @ as)"
  using assms
proof (induction as arbitrary: bs nla rem tb)
  case Nil
  then show ?case by (simp add: nla_parse_loop.simps nla_ok_def)
next
  case (Cons a as)
  let ?t = "put_type a"
  have drop: "drop nla buf = nla_put a @ concat (map nla_put as) @ post"
    by (simp add: Cons.prems(1,3))
  note fields = nla_put_fields [OF drop]
  have len: "length (snd a) < 65532" using Cons.prems(2) by simp
  have size: "rem = int (length (nla_put a)) + int (length (concat (map nla_put as)))"
    using Cons.prems(4) by simp
  have "int (4 + length (snd a)) \<le> int (length (nla_put a))" by (simp add: nla_put_def)
  then have ok: "nla_ok buf nla rem = Some True"
    using fields(1) [OF len] size size_compare [of rem] Cons.prems(5)
    by (simp add: nla_ok_def del: of_nat_add)
  have nx: "nla_next buf nla rem = Some (nla + length (nla_put a), int (length (concat (map nla_put as))))"
  proof -
    have "NLA_ALIGN (int (4 + length (snd a))) = int (length (nla_put a))"
      using length_nla_put [of a] by (simp add: ac_simps)
    then show ?thesis
      using fields(1) [OF len] size by (simp add: nla_next_def Let_def del: of_nat_add NLA_ALIGN_eq)
  qed
  let ?tb = "if ?t > maxtype then tb else tb[?t := Some nla]"
  have one: "nla_parse_one buf maxtype None nla tb = Some (0, ?tb)"
    using fields(2) [OF len] by (simp add: nla_parse_one_def)
  have "\<exists>tb'. nla_parse_loop buf maxtype None (nla + length (nla_put a))
      (int (length (concat (map nla_put as)))) ?tb = Some (0, tb') \<and>
    tb_matches buf maxtype tb' ((bs @ [a]) @ as)"
  proof (rule Cons.IH)
    show "tb_matches buf maxtype ?tb (bs @ [a])"
      using Cons.prems(6,7) fields(3) [OF len]
      by (auto simp: tb_matches_def nth_list_update_cases split: option.splits)
  qed (use Cons.prems size in auto)
  then show ?case using ok one nx by (simp add: nla_parse_loop.simps [of _ _ _ nla])
qed

lemma nla_parse_put_at:
  assumes "\<forall>a \<in> set as. length (snd a) < 65532" "length (concat (map nla_put as)) < 2 ^ 31"
    and buf: "buf = pre @ concat (map nla_put as) @ post"
  shows "\<exists>tb. libbpf_nla_parse buf maxtype (length pre) (int (length (concat (map nla_put as)))) None =
      Some (0, tb) \<and>
    tb_matches buf maxtype tb as"
  unfolding libbpf_nla_parse_def
  using nla_parse_loop_put [of buf pre "[]" as post "length pre" _ "replicate (maxtype + 1) None" maxtype]
    assms tb_matches_init by (simp del: replicate_Suc)

text \<open>C27: parsing what a sender put together gives every attribute back: for a stream of attributes with
  any types and payloads, padded as the kernel pads them, the entry of a type holds the payload of the
  last attribute of that type, and is empty when there is none.\<close>

theorem nla_parse_put:
  assumes "\<forall>a \<in> set as. length (snd a) < 65532" "length (concat (map nla_put as)) < 2 ^ 31"
    and buf: "buf = pre @ concat (map nla_put as) @ post"
  shows "\<exists>tb. libbpf_nla_parse buf maxtype (length pre) (int (length (concat (map nla_put as)))) None =
      Some (0, tb) \<and>
    tb_matches buf maxtype tb as"
  by (rule nla_parse_put_at [OF assms])

theorem nla_parse_put_witness:
  "\<exists>tb. libbpf_nla_parse ([0, 0] @ concat (map nla_put [(1, [5]), (2, []), (1, [6, 7])]) @ [])
      3 (length [0, 0 :: u8]) (int (length (concat (map nla_put [(1, [5]), (2, []), (1, [6, 7])])))) None =
      Some (0, tb) \<and>
    tb_matches ([0, 0] @ concat (map nla_put [(1, [5]), (2, []), (1, [6, 7])]) @ []) 3 tb
      [(1, [5]), (2, []), (1, [6, 7])]"
  by (rule nla_parse_put [OF _ _ refl]) (simp_all add: nla_put_def)

text \<open>Reading an attribute whose payload is known.\<close>

lemma attr_payload_at:
  assumes "attr_payload buf nla = Some pl"
  shows "libbpf_nla_len buf nla = Some (int (length pl))"
    "\<exists>r. drop (libbpf_nla_data nla) buf = pl @ r" "libbpf_nla_data nla + length pl \<le> length buf"
proof -
  have len: "libbpf_nla_len buf nla = Some (int (length pl))"
    and pl: "pl = take (length pl) (drop (libbpf_nla_data nla) buf)"
    and fits: "libbpf_nla_data nla + length pl \<le> length buf"
    using assms by (auto simp: attr_payload_def min_absorb2 le_diff_conv2 nat_le_iff
        split: if_splits bind_splits)
  show "libbpf_nla_len buf nla = Some (int (length pl))" by (rule len)
  show "\<exists>r. drop (libbpf_nla_data nla) buf = pl @ r"
    using append_take_drop_id [of "length pl" "drop (libbpf_nla_data nla) buf"] pl by metis
  show "libbpf_nla_data nla + length pl \<le> length buf" by (rule fits)
qed

lemma getattr_u32: "attr_payload buf nla = Some (enc32 x) \<Longrightarrow> libbpf_nla_getattr_u32 buf nla = Some x"
  using attr_payload_at [of buf nla "enc32 x"] by (auto simp: libbpf_nla_getattr_u32_def rd32_def)

lemma getattr_u8: "attr_payload buf nla = Some [x] \<Longrightarrow> libbpf_nla_getattr_u8 buf nla = Some x"
  using attr_payload_at [of buf nla "[x]"]
  by (auto simp: libbpf_nla_getattr_u8_def rd8_def hd_drop_conv_nth [symmetric])

lemma nla_parse_nested_put:
  assumes "\<forall>a \<in> set as. length (snd a) < 65532"
    and pl: "attr_payload buf nla = Some (concat (map nla_put as))"
  shows "\<exists>tb. libbpf_nla_parse_nested buf maxtype nla None = Some (0, tb) \<and>
    tb_matches buf maxtype tb as"
proof -
  obtain r where r: "drop (libbpf_nla_data nla) buf = concat (map nla_put as) @ r"
    using attr_payload_at(2) [OF pl] by blast
  have len: "libbpf_nla_data nla \<le> length buf" using attr_payload_at(3) [OF pl] by simp
  have buf: "buf = take (libbpf_nla_data nla) buf @ concat (map nla_put as) @ r"
    by (simp flip: r)
  have "length (concat (map nla_put as)) < 2 ^ 31"
    using attr_payload_at(1) [OF pl] nla_len_field_range [of buf nla]
    by (auto simp: libbpf_nla_len_def NLA_HDRLEN_def)
  from nla_parse_put_at [OF assms(1) this buf, of maxtype] show ?thesis
    using attr_payload_at(1) [OF pl] len by (simp add: libbpf_nla_parse_nested_def min_absorb2)
qed

text \<open>The length that \<open>libbpf_nla_dump_errormsg\<close> gives the attribute parser does not take off the
  header of the message: the stream it parses ends 16 bytes after the end of the message.\<close>

theorem extack_span_overruns:
  assumes "rd32 buf nlh = Some len" "and flags NLM_F_CAPPED \<noteq> 0" "36 \<le> uint len" "uint len < 2 ^ 31"
  shows "\<exists>attr alen. extack_span buf nlh flags = Some (attr, alen) \<and> attr = int nlh + 36 \<and>
    attr + alen = int nlh + uint len + 16"
proof -
  have "sint (len - 20) = uint len - 20"
    using assms(3,4) by (simp add: sint_uint uint_word_ariths signed_take_bit_eq_take_bit_shift take_bit_eq_mod)
  then show ?thesis using assms by (simp add: extack_span_def NLMSG_HDRLEN_def Let_def)
qed

theorem extack_span_overruns_witness:
  "\<exists>attr alen. extack_span (enc32 36 @ replicate 32 0) 0 NLM_F_CAPPED = Some (attr, alen) \<and>
    attr = int 0 + 36 \<and> attr + alen = int 0 + uint (36 :: u32) + 16"
  by (rule extack_span_overruns) (simp_all add: NLM_F_CAPPED_def)

end
