(* ===== verification/Netlink.thy ===== *)
theory Netlink
  imports Nlattr
begin

text \<open>
  The netlink client of the bundled libbpf, \<open>libbpf/src/netlink.c\<close>: requests, the receive loop over
  multipart answers, and the query of the XDP program of a network interface. System calls are
  arguments: what \<open>socket\<close>, \<open>bind\<close>, \<open>getsockname\<close> and \<open>send\<close> answer, and the list of what the calls of
  \<open>recv\<close> return. The numbers of \<open>linux/rtnetlink.h\<close>, which is not part of the repository, are a
  parameter as well.
\<close>

section \<open>Constants and data\<close>

record rtnetlink =
  RTM_GETLINK :: u16
  RTM_SETLINK :: u16
  RTM_GETTCLASS :: u16
  RTM_GETQDISC :: u16
  RTM_GETTFILTER :: u16
  TCA_MAX :: nat
  AF_PACKET :: u8

definition NLM_F_REQUEST :: u16 where "NLM_F_REQUEST = 0x01"
definition NLM_F_MULTI :: u16 where "NLM_F_MULTI = 0x02"
definition NLM_F_ACK :: u16 where "NLM_F_ACK = 0x04"
definition NLM_F_DUMP :: u16 where "NLM_F_DUMP = or 0x100 0x200"
definition NLMSG_ERROR :: u16 where "NLMSG_ERROR = 0x2"
definition NLMSG_DONE :: u16 where "NLMSG_DONE = 0x3"
definition NLA_F_NESTED :: u16 where "NLA_F_NESTED = push_bit 15 1"

definition IFLA_MAX :: nat where "IFLA_MAX = 53"
definition IFLA_XDP :: nat where "IFLA_XDP = 43"
definition IFLA_XDP_FD :: nat where "IFLA_XDP_FD = 1"
definition IFLA_XDP_ATTACHED :: nat where "IFLA_XDP_ATTACHED = 2"
definition IFLA_XDP_FLAGS :: nat where "IFLA_XDP_FLAGS = 3"
definition IFLA_XDP_PROG_ID :: nat where "IFLA_XDP_PROG_ID = 4"
definition IFLA_XDP_DRV_PROG_ID :: nat where "IFLA_XDP_DRV_PROG_ID = 5"
definition IFLA_XDP_SKB_PROG_ID :: nat where "IFLA_XDP_SKB_PROG_ID = 6"
definition IFLA_XDP_HW_PROG_ID :: nat where "IFLA_XDP_HW_PROG_ID = 7"
definition IFLA_XDP_MAX :: nat where "IFLA_XDP_MAX = 7"

definition XDP_FLAGS_UPDATE_IF_NOEXIST :: u32 where "XDP_FLAGS_UPDATE_IF_NOEXIST = push_bit 0 1"
definition XDP_FLAGS_SKB_MODE :: u32 where "XDP_FLAGS_SKB_MODE = push_bit 1 1"
definition XDP_FLAGS_DRV_MODE :: u32 where "XDP_FLAGS_DRV_MODE = push_bit 2 1"
definition XDP_FLAGS_HW_MODE :: u32 where "XDP_FLAGS_HW_MODE = push_bit 3 1"

definition XDP_FLAGS_MODES :: u32 where
  "XDP_FLAGS_MODES = or XDP_FLAGS_SKB_MODE (or XDP_FLAGS_DRV_MODE XDP_FLAGS_HW_MODE)"

definition XDP_FLAGS_MASK :: u32 where
  "XDP_FLAGS_MASK = or XDP_FLAGS_UPDATE_IF_NOEXIST XDP_FLAGS_MODES"

definition XDP_ATTACHED_NONE :: u8 where "XDP_ATTACHED_NONE = 0"
definition XDP_ATTACHED_MULTI :: u8 where "XDP_ATTACHED_MULTI = 4"

abbreviation (input) LIBBPF_ERRNO__INTERNAL :: int where "LIBBPF_ERRNO__INTERNAL \<equiv> 4004"
abbreviation (input) LIBBPF_ERRNO__WRNGPID :: int where "LIBBPF_ERRNO__WRNGPID \<equiv> 4011"
abbreviation (input) LIBBPF_ERRNO__INVSEQ :: int where "LIBBPF_ERRNO__INVSEQ \<equiv> 4012"
abbreviation (input) LIBBPF_ERRNO__NLPARSE :: int where "LIBBPF_ERRNO__NLPARSE \<equiv> 4013"

record xdp_link_info =
  prog_id :: u32
  drv_prog_id :: u32
  hw_prog_id :: u32
  skb_prog_id :: u32
  attach_mode :: u8

record xdp_id_md =
  md_ifindex :: u32
  md_flags :: u32
  md_info :: xdp_link_info

section \<open>System calls\<close>

text \<open>
  Answers of the calls that open the socket; an error is the value of \<open>errno\<close>. \<open>getsockname\<close> gives
  the length of the address and the port of the socket.
\<close>

record netlink_env =
  env_socket :: "int + int"
  env_bind :: "int option"
  env_getsockname :: "int + nat \<times> u32"
  env_send :: "int option"

datatype recv_result = RecvErr int | RecvBytes "u8 list"

text \<open>A call that receives ends, waits for an answer that never comes, or reads outside its buffer.\<close>

datatype 'a netcall = NetDone 'a | NetWait | NetFault

definition libbpf_netlink_open :: "netlink_env \<Rightarrow> int + int \<times> u32" where
  "libbpf_netlink_open env =
     (case env_socket env of
        Inl e \<Rightarrow> Inl (- e)
      | Inr sock \<Rightarrow>
          (case env_bind env of
             Some e \<Rightarrow> Inl (- e)
           | None \<Rightarrow>
               (case env_getsockname env of
                  Inl e \<Rightarrow> Inl (- e)
                | Inr (addrlen, pid) \<Rightarrow>
                    if addrlen \<noteq> 12 then Inl (- LIBBPF_ERRNO__INTERNAL) else Inr (sock, pid))))"

section \<open>Receiving\<close>

text \<open>A callback of type \<open>__dump_nlmsg_t\<close> with its cookie: return code and new cookie.\<close>

type_synonym 'c dump_nlmsg = "u8 list \<Rightarrow> nat \<Rightarrow> 'c \<Rightarrow> (int \<times> 'c) option"

definition NLMSG_ALIGN :: "int \<Rightarrow> int" where
  "NLMSG_ALIGN len = and (len + 4 - 1) (not (4 - 1))"

definition NLMSG_OK :: "u8 list \<Rightarrow> nat \<Rightarrow> int \<Rightarrow> bool option" where
  "NLMSG_OK buf nh len =
     (if \<not> len \<ge> 16 then Some False
      else map_option (\<lambda>l. l \<ge> 16 \<and> l \<le> (word_of_int len :: u32)) (rd32 buf nh))"

definition NLMSG_NEXT :: "u8 list \<Rightarrow> nat \<Rightarrow> int \<Rightarrow> (nat \<times> int) option" where
  "NLMSG_NEXT buf nh len =
     map_option (\<lambda>l. (nh + nat (NLMSG_ALIGN (uint l)), len - NLMSG_ALIGN (uint l))) (rd32 buf nh)"

text \<open>
  The body of the inner loop: \<open>Inl\<close> leaves the function with a return code, \<open>Inr\<close> goes on to the next
  message with the new value of \<open>multipart\<close>.
\<close>

definition recv_message ::
  "u32 \<Rightarrow> u32 \<Rightarrow> 'c dump_nlmsg option \<Rightarrow> u8 list \<Rightarrow> nat \<Rightarrow> bool \<Rightarrow> 'c \<Rightarrow> (int + bool) option \<times> 'c"
where
  "recv_message nl_pid seq fn buf nh multipart cookie =
     (case (rd32 buf (nh + 12), rd32 buf (nh + 8), rd16 buf (nh + 6), rd16 buf (nh + 4)) of
        (Some pid, Some sq, Some flags, Some ty) \<Rightarrow>
          if pid \<noteq> nl_pid then (Some (Inl (- LIBBPF_ERRNO__WRNGPID)), cookie)
          else if sq \<noteq> seq then (Some (Inl (- LIBBPF_ERRNO__INVSEQ)), cookie)
          else
            let multipart = (multipart \<or> and flags NLM_F_MULTI \<noteq> 0);
                handle = (case fn of
                            None \<Rightarrow> (Some (Inr multipart), cookie)
                          | Some f \<Rightarrow>
                              (case f buf nh cookie of
                                 None \<Rightarrow> (None, cookie)
                               | Some (ret, cookie) \<Rightarrow>
                                   (Some (if ret \<noteq> 0 then Inl ret else Inr multipart), cookie)))
            in if ty = NLMSG_ERROR then
                 (case rd32 buf (nh + nat NLMSG_HDRLEN) of
                    None \<Rightarrow> (None, cookie)
                  | Some err \<Rightarrow>
                      if err = 0 then (Some (Inr multipart), cookie)
                      else (map_option (\<lambda>_. Inl (sint err)) (libbpf_nla_dump_errormsg buf nh), cookie))
               else if ty = NLMSG_DONE then (Some (Inl 0), cookie)
               else handle
      | _ \<Rightarrow> (None, cookie))"

function recv_messages ::
  "u32 \<Rightarrow> u32 \<Rightarrow> 'c dump_nlmsg option \<Rightarrow> u8 list \<Rightarrow> nat \<Rightarrow> int \<Rightarrow> bool \<Rightarrow> 'c \<Rightarrow> (int + bool) option \<times> 'c"
where
  "recv_messages nl_pid seq fn buf nh len multipart cookie =
     (case NLMSG_OK buf nh len of
        None \<Rightarrow> (None, cookie)
      | Some False \<Rightarrow> (Some (Inr multipart), cookie)
      | Some True \<Rightarrow>
          (case recv_message nl_pid seq fn buf nh multipart cookie of
             (Some (Inr multipart), cookie) \<Rightarrow>
               (case NLMSG_NEXT buf nh len of
                  None \<Rightarrow> (None, cookie)
                | Some (nh, len) \<Rightarrow> recv_messages nl_pid seq fn buf nh len multipart cookie)
           | (r, cookie) \<Rightarrow> (r, cookie)))"
  by pat_completeness auto

lemma NLMSG_ALIGN_eq [simp]: "NLMSG_ALIGN len = (len + 3) div 4 * 4"
  using NLA_ALIGN_eq [of len] unfolding NLA_ALIGN_def NLMSG_ALIGN_def .

lemma nlmsg_next_less:
  assumes "NLMSG_OK buf nh len = Some True" "NLMSG_NEXT buf nh len = Some (nh', len')"
  shows "len' < len" "0 < len"
  using assms by (auto simp: NLMSG_OK_def NLMSG_NEXT_def word_le_def split: if_splits)

termination recv_messages
  by (relation "measure (\<lambda>(nl_pid, seq, fn, buf, nh, len, multipart, cookie). nat len)")
     (auto intro: nlmsg_next_less)

declare recv_messages.simps [simp del]

text \<open>What \<open>recv\<close> leaves in the 4096 byte buffer, and the length it returns.\<close>

definition recv_into :: "u8 list \<Rightarrow> u8 list \<Rightarrow> u8 list \<times> int" where
  "recv_into buf data =
     (let d = take (length buf) data in (d @ drop (length d) buf, int (length d)))"

fun bpf_netlink_recv ::
  "recv_result list \<Rightarrow> u8 list \<Rightarrow> u32 \<Rightarrow> u32 \<Rightarrow> 'c dump_nlmsg option \<Rightarrow> 'c \<Rightarrow> (int \<times> 'c) netcall"
where
  "bpf_netlink_recv [] buf nl_pid seq fn cookie = NetWait"
| "bpf_netlink_recv (RecvErr e # rs) buf nl_pid seq fn cookie = NetDone (- e, cookie)"
| "bpf_netlink_recv (RecvBytes data # rs) buf nl_pid seq fn cookie =
     (let (buf, len) = recv_into buf data in
      if len = 0 then NetDone (0, cookie)
      else
        (case recv_messages nl_pid seq fn buf 0 len False cookie of
           (None, cookie) \<Rightarrow> NetFault
         | (Some (Inl ret), cookie) \<Rightarrow> NetDone (ret, cookie)
         | (Some (Inr multipart), cookie) \<Rightarrow>
             if multipart then bpf_netlink_recv rs buf nl_pid seq fn cookie
             else NetDone (0, cookie)))"

section \<open>Requests\<close>

definition nlmsghdr_bytes :: "u32 \<Rightarrow> u16 \<Rightarrow> u16 \<Rightarrow> u32 \<Rightarrow> u32 \<Rightarrow> u8 list" where
  "nlmsghdr_bytes len ty flags seq pid = enc32 len @ enc16 ty @ enc16 flags @ enc32 seq @ enc32 pid"

definition ifinfomsg_bytes :: "u8 \<Rightarrow> u32 \<Rightarrow> u8 list" where
  "ifinfomsg_bytes family ifindex =
     [family, 0] @ enc16 0 @ enc32 ifindex @ enc32 0 @ enc32 0"

definition tcmsg_bytes :: "u8 \<Rightarrow> u32 \<Rightarrow> u32 \<Rightarrow> u8 list" where
  "tcmsg_bytes family ifindex parent =
     [family, 0] @ enc16 0 @ enc32 ifindex @ enc32 0 @ enc32 parent @ enc32 0"

text \<open>The request of \<open>bpf_set_link_xdp_fd\<close>: a nested attribute with the program and the flags.\<close>

definition xdp_attr :: "nat \<Rightarrow> u32 \<Rightarrow> u8 list" where
  "xdp_attr ty x = enc16 (of_int (NLA_HDRLEN + 4)) @ enc16 (of_nat ty) @ enc32 x"

definition xdp_request :: "rtnetlink \<Rightarrow> u32 \<Rightarrow> u32 \<Rightarrow> u32 \<Rightarrow> u8 list" where
  "xdp_request K ifindex fd flags =
     (let nla_len = NLA_HDRLEN;
          attrs = xdp_attr IFLA_XDP_FD fd;
          nla_len = nla_len + (NLA_HDRLEN + 4);
          (attrs, nla_len) =
            (if flags \<noteq> 0 then (attrs @ xdp_attr IFLA_XDP_FLAGS flags, nla_len + (NLA_HDRLEN + 4))
             else (attrs, nla_len));
          nlmsg_len = (16 + NLMSG_HDRLEN) + NLA_ALIGN nla_len
      in take (nat nlmsg_len)
           (nlmsghdr_bytes (of_int nlmsg_len) (RTM_SETLINK K) (or NLM_F_REQUEST NLM_F_ACK) 1 0 @
            ifinfomsg_bytes 0 ifindex @
            enc16 (of_int nla_len) @ enc16 (or NLA_F_NESTED (of_nat IFLA_XDP)) @ attrs @
            replicate (64 - 4 - length attrs) 0))"

text \<open>The bytes sent, if the program came that far, and the result.\<close>

definition bpf_set_link_xdp_fd ::
  "rtnetlink \<Rightarrow> netlink_env \<Rightarrow> recv_result list \<Rightarrow> u8 list \<Rightarrow> u32 \<Rightarrow> u32 \<Rightarrow> u32 \<Rightarrow> u8 list option \<times> int netcall"
where
  "bpf_set_link_xdp_fd K env rs stack ifindex fd flags =
     (case libbpf_netlink_open env of
        Inl e \<Rightarrow> (None, NetDone e)
      | Inr (sock, nl_pid) \<Rightarrow>
          (case env_send env of
             Some e \<Rightarrow> (None, NetDone (- e))
           | None \<Rightarrow>
               (Some (xdp_request K ifindex fd flags),
                case bpf_netlink_recv rs stack nl_pid 1 None () of
                  NetDone (ret, _) \<Rightarrow> NetDone ret | NetWait \<Rightarrow> NetWait | NetFault \<Rightarrow> NetFault)))"

section \<open>Dumps\<close>

text \<open>The callback of the user: buffer, cookie, offset of the family header, attribute index.\<close>

type_synonym 'c dump_fn = "u8 list \<Rightarrow> 'c \<Rightarrow> nat \<Rightarrow> nat option list \<Rightarrow> (int \<times> 'c) option"

text \<open>
  \<open>__dump_link_nlmsg\<close> and its siblings differ in the size of the family header and the number of
  attribute types. The length is an unsigned difference stored in an int.
\<close>

definition dump_attrs :: "nat \<Rightarrow> nat \<Rightarrow> 'c dump_fn \<Rightarrow> 'c dump_nlmsg" where
  "dump_attrs hdr_size maxtype dump_fn buf nlh cookie =
     do {
       l \<leftarrow> rd32 buf nlh;
       let len = sint (l - (of_nat hdr_size + word_of_int NLMSG_HDRLEN));
       (rc, tb) \<leftarrow> libbpf_nla_parse buf maxtype
                  (nlh + nat NLMSG_HDRLEN + nat (NLMSG_ALIGN (int hdr_size))) len None;
       if rc \<noteq> 0 then Some (- LIBBPF_ERRNO__NLPARSE, cookie)
       else dump_fn buf cookie (nlh + nat NLMSG_HDRLEN) tb
     }"

definition dump_link_nlmsg :: "'c dump_fn \<Rightarrow> 'c dump_nlmsg" where
  "dump_link_nlmsg = dump_attrs 16 IFLA_MAX"

definition dump_class_nlmsg :: "rtnetlink \<Rightarrow> 'c dump_fn \<Rightarrow> 'c dump_nlmsg" where
  "dump_class_nlmsg K = dump_attrs 20 (TCA_MAX K)"

definition dump_qdisc_nlmsg :: "rtnetlink \<Rightarrow> 'c dump_fn \<Rightarrow> 'c dump_nlmsg" where
  "dump_qdisc_nlmsg K = dump_attrs 20 (TCA_MAX K)"

definition dump_filter_nlmsg :: "rtnetlink \<Rightarrow> 'c dump_fn \<Rightarrow> 'c dump_nlmsg" where
  "dump_filter_nlmsg K = dump_attrs 20 (TCA_MAX K)"

definition send_and_dump ::
  "netlink_env \<Rightarrow> recv_result list \<Rightarrow> u8 list \<Rightarrow> u32 \<Rightarrow> u32 \<Rightarrow> u8 list \<Rightarrow> 'c dump_nlmsg \<Rightarrow> 'c \<Rightarrow>
     u8 list option \<times> (int \<times> 'c) netcall"
where
  "send_and_dump env rs stack nl_pid seq req fn cookie =
     (case env_send env of
        Some e \<Rightarrow> (None, NetDone (- e, cookie))
      | None \<Rightarrow> (Some req, bpf_netlink_recv rs stack nl_pid seq (Some fn) cookie))"

definition libbpf_nl_get_link where
  "libbpf_nl_get_link K env rs stack nl_pid time fn cookie =
     send_and_dump env rs stack nl_pid time
       (nlmsghdr_bytes 32 (RTM_GETLINK K) (or NLM_F_DUMP NLM_F_REQUEST) time 0 @
        ifinfomsg_bytes (AF_PACKET K) 0)
       (dump_link_nlmsg fn) cookie"

definition libbpf_nl_get_class where
  "libbpf_nl_get_class K env rs stack nl_pid time ifindex fn cookie =
     send_and_dump env rs stack nl_pid time
       (nlmsghdr_bytes 36 (RTM_GETTCLASS K) (or NLM_F_DUMP NLM_F_REQUEST) time 0 @
        tcmsg_bytes 0 ifindex 0)
       (dump_class_nlmsg K fn) cookie"

definition libbpf_nl_get_qdisc where
  "libbpf_nl_get_qdisc K env rs stack nl_pid time ifindex fn cookie =
     send_and_dump env rs stack nl_pid time
       (nlmsghdr_bytes 36 (RTM_GETQDISC K) (or NLM_F_DUMP NLM_F_REQUEST) time 0 @
        tcmsg_bytes 0 ifindex 0)
       (dump_qdisc_nlmsg K fn) cookie"

definition libbpf_nl_get_filter where
  "libbpf_nl_get_filter K env rs stack nl_pid time ifindex handle fn cookie =
     send_and_dump env rs stack nl_pid time
       (nlmsghdr_bytes 36 (RTM_GETTFILTER K) (or NLM_F_DUMP NLM_F_REQUEST) time 0 @
        tcmsg_bytes 0 ifindex handle)
       (dump_filter_nlmsg K fn) cookie"

section \<open>XDP program of an interface\<close>

text \<open>An optional 32-bit attribute of the nested index.\<close>

definition get_id :: "u8 list \<Rightarrow> nat option list \<Rightarrow> nat \<Rightarrow> u32 \<Rightarrow> u32 option" where
  "get_id buf tb t old =
     (case tb ! t of None \<Rightarrow> Some old | Some nla \<Rightarrow> libbpf_nla_getattr_u32 buf nla)"

definition get_xdp_info :: "xdp_id_md dump_fn" where
  "get_xdp_info buf xdp_id ifinfo tb =
     do {
       ifi_index \<leftarrow> rd32 buf (ifinfo + 4);
       if md_ifindex xdp_id \<noteq> 0 \<and> md_ifindex xdp_id \<noteq> ifi_index then Some (0, xdp_id)
       else
         (case tb ! IFLA_XDP of
            None \<Rightarrow> Some (0, xdp_id)
          | Some nla \<Rightarrow>
              do {
                (ret, xdp_tb) \<leftarrow> libbpf_nla_parse_nested buf IFLA_XDP_MAX nla None;
                if ret \<noteq> 0 then Some (ret, xdp_id)
                else
                  (case xdp_tb ! IFLA_XDP_ATTACHED of
                     None \<Rightarrow> Some (0, xdp_id)
                   | Some att \<Rightarrow>
                       do {
                         mode \<leftarrow> libbpf_nla_getattr_u8 buf att;
                         let info = (md_info xdp_id)\<lparr>attach_mode := mode\<rparr>;
                         if mode = XDP_ATTACHED_NONE then Some (0, xdp_id\<lparr>md_info := info\<rparr>)
                         else
                           do {
                             prog \<leftarrow> get_id buf xdp_tb IFLA_XDP_PROG_ID (prog_id info);
                             skb \<leftarrow> get_id buf xdp_tb IFLA_XDP_SKB_PROG_ID (skb_prog_id info);
                             drv \<leftarrow> get_id buf xdp_tb IFLA_XDP_DRV_PROG_ID (drv_prog_id info);
                             hw \<leftarrow> get_id buf xdp_tb IFLA_XDP_HW_PROG_ID (hw_prog_id info);
                             Some (0, xdp_id\<lparr>md_info := info\<lparr>prog_id := prog, skb_prog_id := skb,
                                                            drv_prog_id := drv, hw_prog_id := hw\<rparr>\<rparr>)
                           }
                       })
              })
     }"

definition xdp_info_zero :: xdp_link_info where
  "xdp_info_zero = \<lparr>prog_id = 0, drv_prog_id = 0, hw_prog_id = 0, skb_prog_id = 0, attach_mode = 0\<rparr>"

text \<open>The structure in memory: 20 bytes, of which the last three are padding.\<close>

definition xdp_info_bytes :: "xdp_link_info \<Rightarrow> u8 list" where
  "xdp_info_bytes x = enc32 (prog_id x) @ enc32 (drv_prog_id x) @ enc32 (hw_prog_id x) @
     enc32 (skb_prog_id x) @ [attach_mode x, 0, 0, 0]"

definition xdp_info_read :: "u8 list \<Rightarrow> xdp_link_info option" where
  "xdp_info_read b =
     do {
       prog \<leftarrow> rd32 b 0;
       drv \<leftarrow> rd32 b 4;
       hw \<leftarrow> rd32 b 8;
       skb \<leftarrow> rd32 b 12;
       mode \<leftarrow> rd8 b 16;
       Some \<lparr>prog_id = prog, drv_prog_id = drv, hw_prog_id = hw, skb_prog_id = skb, attach_mode = mode\<rparr>
     }"

text \<open>
  The flags are checked before anything else. The information is copied to the buffer of the caller:
  as much of it as the caller's \<open>info_size\<close> has room for, and zeros behind it. The result is the return
  code and the buffer; a buffer shorter than the caller says is written past its end.
\<close>

definition xdp_flags_ok :: "u32 \<Rightarrow> nat \<Rightarrow> bool" where
  "xdp_flags_ok flags info_size \<longleftrightarrow>
     \<not> (and flags (not XDP_FLAGS_MASK) \<noteq> 0 \<or> info_size = 0) \<and>
     (let flags = and flags (or XDP_FLAGS_SKB_MODE (or XDP_FLAGS_DRV_MODE XDP_FLAGS_HW_MODE));
          mask = flags - 1
      in \<not> (flags \<noteq> 0 \<and> and flags mask \<noteq> 0))"

definition bpf_get_link_xdp_info ::
  "rtnetlink \<Rightarrow> netlink_env \<Rightarrow> recv_result list \<Rightarrow> u8 list \<Rightarrow> u32 \<Rightarrow> u32 \<Rightarrow> u8 list \<Rightarrow> nat \<Rightarrow> u32 \<Rightarrow>
     (int \<times> u8 list) netcall"
where
  "bpf_get_link_xdp_info K env rs stack time ifindex info info_size flags =
     (if \<not> xdp_flags_ok flags info_size then NetDone (- EINVAL, info)
      else
        (case libbpf_netlink_open env of
           Inl e \<Rightarrow> NetDone (e, info)
         | Inr (sock, nl_pid) \<Rightarrow>
             let xdp_id = \<lparr>md_ifindex = ifindex,
                           md_flags = and flags (or XDP_FLAGS_SKB_MODE (or XDP_FLAGS_DRV_MODE XDP_FLAGS_HW_MODE)),
                           md_info = xdp_info_zero\<rparr>
             in (case snd (libbpf_nl_get_link K env rs stack nl_pid time get_xdp_info xdp_id) of
                   NetDone (ret, xdp_id) \<Rightarrow>
                     if ret = 0 then
                       let image = xdp_info_bytes (md_info xdp_id);
                           sz = min info_size (length image)
                       in if length info < info_size then NetFault
                          else NetDone (ret, take sz image @ replicate (info_size - sz) 0 @ drop info_size info)
                     else NetDone (ret, info)
                 | NetWait \<Rightarrow> NetWait
                 | NetFault \<Rightarrow> NetFault)))"

definition get_xdp_id :: "xdp_link_info \<Rightarrow> u32 \<Rightarrow> u32" where
  "get_xdp_id info flags =
     (if attach_mode info \<noteq> XDP_ATTACHED_MULTI then prog_id info
      else if and flags XDP_FLAGS_DRV_MODE \<noteq> 0 then drv_prog_id info
      else if and flags XDP_FLAGS_HW_MODE \<noteq> 0 then hw_prog_id info
      else if and flags XDP_FLAGS_SKB_MODE \<noteq> 0 then skb_prog_id info
      else 0)"

text \<open>
  The structure the query fills is a local variable, \<open>frame\<close> its bytes before the call. The result is
  the return code and the value stored to \<open>*prog_id\<close>, if any.
\<close>

definition bpf_get_link_xdp_id ::
  "rtnetlink \<Rightarrow> netlink_env \<Rightarrow> recv_result list \<Rightarrow> u8 list \<Rightarrow> u32 \<Rightarrow> u32 \<Rightarrow> u8 list \<Rightarrow> u32 \<Rightarrow>
     (int \<times> u32 option) netcall"
where
  "bpf_get_link_xdp_id K env rs stack time ifindex frame flags =
     (case bpf_get_link_xdp_info K env rs stack time ifindex frame 20 flags of
        NetDone (ret, info) \<Rightarrow>
          if ret = 0 then
            (case xdp_info_read info of
               None \<Rightarrow> NetFault
             | Some x \<Rightarrow> NetDone (ret, Some (get_xdp_id x flags)))
          else NetDone (ret, None)
      | NetWait \<Rightarrow> NetWait
      | NetFault \<Rightarrow> NetFault)"

section \<open>The request, as its receiver reads it\<close>

definition xdp_attrs :: "u32 \<Rightarrow> u32 \<Rightarrow> (u16 \<times> u8 list) list" where
  "xdp_attrs fd flags =
     (of_nat IFLA_XDP_FD, enc32 fd) # (if flags = 0 then [] else [(of_nat IFLA_XDP_FLAGS, enc32 flags)])"

lemma xdp_attr_put: "xdp_attr t x = nla_put (of_nat t, enc32 x)"
  by (simp add: xdp_attr_def nla_put_def NLA_HDRLEN_def)

lemma length_hdrs [simp]:
  "length (nlmsghdr_bytes l t f s p) = 16" "length (ifinfomsg_bytes fam i) = 16"
  "length (tcmsg_bytes fam i h) = 20"
  by (simp_all add: nlmsghdr_bytes_def ifinfomsg_bytes_def tcmsg_bytes_def)

definition xdp_nested :: "u32 \<Rightarrow> u32 \<Rightarrow> u16 \<times> u8 list" where
  "xdp_nested fd flags =
     (or NLA_F_NESTED (of_nat IFLA_XDP), concat (map nla_put (xdp_attrs fd flags)))"

lemma length_xdp_attrs:
  "length (concat (map nla_put (xdp_attrs fd flags))) = (if flags = 0 then 8 else 16)"
  by (simp add: xdp_attrs_def nla_put_def)

lemma xdp_request_eq:
  "xdp_request K ifindex fd flags =
     (nlmsghdr_bytes (if flags = 0 then 44 else 52) (RTM_SETLINK K) (or NLM_F_REQUEST NLM_F_ACK) 1 0 @
      ifinfomsg_bytes 0 ifindex) @ concat (map nla_put [xdp_nested fd flags])"
  by (simp add: xdp_request_def xdp_attr_put xdp_nested_def xdp_attrs_def NLA_HDRLEN_def NLMSG_HDRLEN_def
      nla_put_def)

lemma xdp_types [simp]:
  "put_type (or NLA_F_NESTED (of_nat IFLA_XDP), pl) = IFLA_XDP"
  "put_type (of_nat IFLA_XDP, pl) = IFLA_XDP"
  "put_type (of_nat IFLA_XDP_FD, pl) = IFLA_XDP_FD" "put_type (of_nat IFLA_XDP_FLAGS, pl) = IFLA_XDP_FLAGS"
  by (simp_all add: put_type_def NLA_F_NESTED_def NLA_TYPE_MASK_def IFLA_XDP_def IFLA_XDP_FD_def
      IFLA_XDP_FLAGS_def)

lemma IFLA_XDP_le: "IFLA_XDP \<le> IFLA_MAX" by (simp add: IFLA_XDP_def IFLA_MAX_def)

lemma IFLA_XDP_neqs:
  "IFLA_XDP_FD \<noteq> IFLA_XDP_FLAGS" "IFLA_XDP_FLAGS \<noteq> IFLA_XDP_FD"
  "IFLA_XDP_FD \<le> IFLA_XDP_MAX" "IFLA_XDP_FLAGS \<le> IFLA_XDP_MAX"
  by (simp_all add: IFLA_XDP_FD_def IFLA_XDP_FLAGS_def IFLA_XDP_MAX_def)

lemma attr_map_xdp:
  "attr_map (xdp_attrs fd flags) IFLA_XDP_FD = Some (enc32 fd)"
  "attr_map (xdp_attrs fd flags) IFLA_XDP_FLAGS = (if flags = 0 then None else Some (enc32 flags))"
  by (cases "flags = 0"; simp add: xdp_attrs_def attr_map_Cons IFLA_XDP_neqs)+

text \<open>The fields of a message header and of the interface header behind it.\<close>

lemma nlmsghdr_fields:
  "rd32 (nlmsghdr_bytes l t f s p @ r) 0 = Some l" "rd16 (nlmsghdr_bytes l t f s p @ r) 4 = Some t"
  "rd16 (nlmsghdr_bytes l t f s p @ r) 6 = Some f" "rd32 (nlmsghdr_bytes l t f s p @ r) 8 = Some s"
  "rd32 (nlmsghdr_bytes l t f s p @ r) 12 = Some p"
  by (simp_all add: nlmsghdr_bytes_def rd32_def rd16_def)

lemma ifinfomsg_index:
  "rd32 (nlmsghdr_bytes l t f s p @ ifinfomsg_bytes fam i @ r) 20 = Some i"
  by (simp add: nlmsghdr_bytes_def ifinfomsg_bytes_def rd32_def)

text \<open>C29: the request of \<open>bpf_set_link_xdp_fd\<close> fits the buffer it is built in, its length field is its
  length, and a receiver that parses it finds the interface, the program and, exactly when they are not
  zero, the flags in the nested XDP attribute.\<close>

theorem xdp_request_parses:
  fixes K ifindex fd flags
  defines "req \<equiv> xdp_request K ifindex fd flags"
  shows "length req \<le> 96 \<and> rd32 req 0 = Some (of_nat (length req)) \<and>
    rd16 req 4 = Some (RTM_SETLINK K) \<and> rd32 req 20 = Some ifindex \<and>
    (\<exists>tb nla xdp_tb. libbpf_nla_parse req IFLA_MAX 32 (int (length req) - 32) None = Some (0, tb) \<and>
       tb ! IFLA_XDP = Some nla \<and>
       libbpf_nla_parse_nested req IFLA_XDP_MAX nla None = Some (0, xdp_tb) \<and>
       Option.bind (xdp_tb ! IFLA_XDP_FD) (libbpf_nla_getattr_u32 req) = Some fd \<and>
       Option.bind (xdp_tb ! IFLA_XDP_FLAGS) (libbpf_nla_getattr_u32 req) =
         (if flags = 0 then None else Some flags))"
proof -
  let ?hdr = "nlmsghdr_bytes (if flags = 0 then 44 else 52) (RTM_SETLINK K) (or NLM_F_REQUEST NLM_F_ACK) 1 0 @
      ifinfomsg_bytes 0 ifindex"
  have req: "req = ?hdr @ concat (map nla_put [xdp_nested fd flags]) @ []"
    by (simp add: req_def xdp_request_eq)
  have len: "length (concat (map nla_put [xdp_nested fd flags])) = (if flags = 0 then 12 else 20)"
    by (simp add: nla_put_def xdp_nested_def length_xdp_attrs)
  have size: "length req = (if flags = 0 then 44 else 52)" unfolding req using len by simp
  have small: "\<forall>a \<in> set [xdp_nested fd flags]. length (snd a) < 65532"
    using length_xdp_attrs [of fd flags] by (simp add: xdp_nested_def)
  obtain tb where tb: "libbpf_nla_parse req IFLA_MAX 32 (int (length req) - 32) None = Some (0, tb)"
    "tb_matches req IFLA_MAX tb [xdp_nested fd flags]"
  proof -
    have hdr: "length ?hdr = 32" by simp
    have lt: "length (concat (map nla_put [xdp_nested fd flags])) < 2 ^ 31" using len by simp
    have diff: "int (length req) - 32 = int (length (concat (map nla_put [xdp_nested fd flags])))"
      using len size by simp
    from nla_parse_put_at [OF small lt req, of IFLA_MAX] show thesis
      unfolding hdr diff [symmetric] using that by blast
  qed
  obtain nla where nla: "tb ! IFLA_XDP = Some nla"
    "attr_payload req nla = Some (concat (map nla_put (xdp_attrs fd flags)))"
    using tb_matches_some [OF tb(2) IFLA_XDP_le] by (auto simp: attr_map_Cons xdp_nested_def)
  have small': "\<forall>a \<in> set (xdp_attrs fd flags). length (snd a) < 65532" by (simp add: xdp_attrs_def)
  obtain xdp_tb where xdp_tb: "libbpf_nla_parse_nested req IFLA_XDP_MAX nla None = Some (0, xdp_tb)"
    "tb_matches req IFLA_XDP_MAX xdp_tb (xdp_attrs fd flags)"
    using nla_parse_nested_put [OF small' nla(2)] by blast
  have "Option.bind (xdp_tb ! IFLA_XDP_FD) (libbpf_nla_getattr_u32 req) = Some fd"
    using tb_matches_some [OF xdp_tb(2) IFLA_XDP_neqs(3) attr_map_xdp(1)] getattr_u32 by auto
  moreover have "Option.bind (xdp_tb ! IFLA_XDP_FLAGS) (libbpf_nla_getattr_u32 req) =
      (if flags = 0 then None else Some flags)"
    using tb_matches_some [OF xdp_tb(2) IFLA_XDP_neqs(4), of "enc32 flags"]
      tb_matches_none [OF xdp_tb(2) IFLA_XDP_neqs(4)] attr_map_xdp(2) [of fd flags] getattr_u32
    by (cases "flags = 0") auto
  moreover have "rd32 req 0 = Some (of_nat (length req)) \<and> rd16 req 4 = Some (RTM_SETLINK K) \<and>
      rd32 req 20 = Some ifindex"
    using size unfolding req by (simp add: nlmsghdr_fields ifinfomsg_index)
  ultimately show ?thesis using size tb(1) nla(1) xdp_tb(1) by auto
qed

section \<open>Multipart answers\<close>

text \<open>A message as the kernel sends it: type, flags and payload, padded to a multiple of four.\<close>

type_synonym nlmsg = "u16 \<times> u16 \<times> u8 list"

definition nlmsg_bytes :: "u32 \<Rightarrow> u32 \<Rightarrow> nlmsg \<Rightarrow> u8 list" where
  "nlmsg_bytes seq pid m =
     (case m of (ty, flags, pl) \<Rightarrow>
        nlmsghdr_bytes (of_nat (16 + length pl)) ty flags seq pid @ pl @
        replicate (3 * length pl mod 4) 0)"

definition stream_bytes :: "u32 \<Rightarrow> u32 \<Rightarrow> nlmsg list \<Rightarrow> u8 list" where
  "stream_bytes seq pid ms = concat (map (nlmsg_bytes seq pid) ms)"

definition plain_msg :: "nlmsg \<Rightarrow> bool" where
  "plain_msg m \<longleftrightarrow> (case m of (ty, flags, pl) \<Rightarrow>
     ty \<noteq> NLMSG_ERROR \<and> ty \<noteq> NLMSG_DONE \<and> and flags NLM_F_MULTI \<noteq> 0)"

lemma stream_bytes_simps [simp]:
  "stream_bytes seq pid [] = []"
  "stream_bytes seq pid (m # ms) = nlmsg_bytes seq pid m @ stream_bytes seq pid ms"
  "stream_bytes seq pid (ms @ ms') = stream_bytes seq pid ms @ stream_bytes seq pid ms'"
  by (simp_all add: stream_bytes_def)

lemma length_nlmsg_bytes:
  "int (length (nlmsg_bytes seq pid (ty, flags, pl))) = NLMSG_ALIGN (int (16 + length pl))"
proof -
  have "int (length (nlmsg_bytes seq pid (ty, flags, pl))) =
      int (length (nla_put (0, pl))) + 12"
    by (simp add: nlmsg_bytes_def nla_put_def)
  also have "\<dots> = NLMSG_ALIGN (int (16 + length pl))"
    using length_nla_put [of "(0, pl)"] div_add1_eq [of "int (length pl) + 7" 12 4] by (simp add: ac_simps)
  finally show ?thesis .
qed

lemma uint_of_nat_u32: "n < 4294967296 \<Longrightarrow> uint (of_nat n :: u32) = int n"
  by (simp add: unsigned_of_nat take_bit_nat_eq_self)

lemma msg_fields:
  assumes "drop nh buf = nlmsg_bytes seq pid (ty, flags, pl) @ r"
  shows "rd32 buf nh = Some (of_nat (16 + length pl))" "rd16 buf (nh + 4) = Some ty"
    "rd16 buf (nh + 6) = Some flags" "rd32 buf (nh + 8) = Some seq" "rd32 buf (nh + 12) = Some pid"
proof -
  note f = nlmsghdr_fields [of "of_nat (16 + length pl)" ty flags seq pid
      "pl @ replicate (3 * length pl mod 4) 0 @ r"]
  have buf: "drop nh buf = nlmsghdr_bytes (of_nat (16 + length pl)) ty flags seq pid @
      pl @ replicate (3 * length pl mod 4) 0 @ r"
    using assms by (simp add: nlmsg_bytes_def)
  show "rd32 buf nh = Some (of_nat (16 + length pl))" "rd16 buf (nh + 4) = Some ty"
    "rd16 buf (nh + 6) = Some flags" "rd32 buf (nh + 8) = Some seq" "rd32 buf (nh + 12) = Some pid"
    using f [folded buf] rd_drop(1) [of nh buf] rd_drop(2) [of nh buf] by auto
qed

lemma msg_framing:
  assumes "drop nh buf = nlmsg_bytes seq pid (ty, flags, pl) @ r"
    and len: "len = int (length (nlmsg_bytes seq pid (ty, flags, pl))) + len'" "0 \<le> len'" "len < 2 ^ 31"
  shows "NLMSG_OK buf nh len = Some True"
    "NLMSG_NEXT buf nh len = Some (nh + length (nlmsg_bytes seq pid (ty, flags, pl)), len')"
proof -
  let ?n = "16 + length pl"
  have ge: "int ?n \<le> NLMSG_ALIGN (int ?n)" by simp
  then have n: "int ?n \<le> len" using len length_nlmsg_bytes [of seq pid ty flags pl] by simp
  then have u: "uint (of_nat ?n :: u32) = int ?n" using len(3) by (intro uint_of_nat_u32) simp
  have w: "uint (word_of_int len :: u32) = len"
    using n len(3) by (simp add: uint_word_of_int take_bit_eq_mod)
  show "NLMSG_OK buf nh len = Some True"
    using msg_fields(1) [OF assms(1)] n u w by (simp add: NLMSG_OK_def word_le_def del: of_nat_add)
  show "NLMSG_NEXT buf nh len = Some (nh + length (nlmsg_bytes seq pid (ty, flags, pl)), len')"
    using msg_fields(1) [OF assms(1)] u len(1) length_nlmsg_bytes [of seq pid ty flags pl]
    by (simp add: NLMSG_NEXT_def del: of_nat_add NLMSG_ALIGN_eq)
qed

lemma recv_messages_prefix:
  assumes "drop nh buf = stream_bytes seq pid ms @ r" "\<forall>m \<in> set ms. plain_msg m"
    "\<And>nh m c r. m \<in> set ms \<Longrightarrow> drop nh buf = nlmsg_bytes seq pid m @ r \<Longrightarrow> f buf nh c = Some (0, g m c)"
    "len = int (length (stream_bytes seq pid ms)) + len'" "0 \<le> len'" "len < 2 ^ 31"
  shows "recv_messages pid seq (Some f) buf nh len mp c =
    recv_messages pid seq (Some f) buf (nh + length (stream_bytes seq pid ms)) len'
      (mp \<or> ms \<noteq> []) (foldl (\<lambda>c m. g m c) c ms)"
  using assms
proof (induction ms arbitrary: nh len mp c)
  case (Cons m ms)
  obtain ty flags pl where m: "m = (ty, flags, pl)" by (cases m)
  let ?rest = "stream_bytes seq pid ms"
  have buf: "drop nh buf = nlmsg_bytes seq pid (ty, flags, pl) @ (?rest @ r)"
    using Cons.prems(1) by (simp add: m)
  have "len = int (length (nlmsg_bytes seq pid (ty, flags, pl))) + (int (length ?rest) + len')"
    using Cons.prems(4) by (simp add: m)
  note frame = msg_framing [OF buf this _ Cons.prems(6)]
  have plain: "ty \<noteq> NLMSG_ERROR" "ty \<noteq> NLMSG_DONE" "and flags NLM_F_MULTI \<noteq> 0"
    using Cons.prems(2) by (simp_all add: m plain_msg_def)
  have "recv_message pid seq (Some f) buf nh mp c = (Some (Inr True), g m c)"
    using msg_fields [OF buf] plain Cons.prems(3) [of m nh "?rest @ r" c] buf
    by (simp add: recv_message_def m)
  then have step: "recv_messages pid seq (Some f) buf nh len mp c =
      recv_messages pid seq (Some f) buf (nh + length (nlmsg_bytes seq pid m))
        (int (length ?rest) + len') True (g m c)"
    using frame Cons.prems(5) by (simp add: recv_messages.simps [of _ _ _ _ nh] m)
  have "drop (nh + length (nlmsg_bytes seq pid m)) buf = ?rest @ r"
    using arg_cong [OF Cons.prems(1), of "drop (length (nlmsg_bytes seq pid m))"]
    by (simp add: add.commute)
  then show ?case
    using Cons.IH [of "nh + length (nlmsg_bytes seq pid m)" "int (length ?rest) + len'" True "g m c"]
      Cons.prems step by (simp add: add.assoc)
qed simp

text \<open>An answer to a dump request: some datagrams with messages, the last one closed by \<open>NLMSG_DONE\<close>.\<close>

definition done_msg :: "nlmsg" where
  "done_msg = (NLMSG_DONE, NLM_F_MULTI, enc32 0)"

definition dump_answer :: "u32 \<Rightarrow> u32 \<Rightarrow> nlmsg list list \<Rightarrow> nlmsg list \<Rightarrow> recv_result list" where
  "dump_answer seq pid chunks final =
     map (\<lambda>c. RecvBytes (stream_bytes seq pid c)) chunks @
       [RecvBytes (stream_bytes seq pid (final @ [done_msg]))]"

definition dump_ok :: "u32 \<Rightarrow> u32 \<Rightarrow> nlmsg list list \<Rightarrow> nlmsg list \<Rightarrow> bool" where
  "dump_ok seq pid chunks final \<longleftrightarrow>
     (\<forall>c \<in> set chunks. c \<noteq> [] \<and> length (stream_bytes seq pid c) \<le> 4096 \<and> (\<forall>m \<in> set c. plain_msg m)) \<and>
     length (stream_bytes seq pid (final @ [done_msg])) \<le> 4096 \<and> (\<forall>m \<in> set final. plain_msg m)"

lemma recv_into_fits:
  "length data \<le> length buf \<Longrightarrow>
     recv_into buf data = (data @ drop (length data) buf, int (length data))"
  by (simp add: recv_into_def Let_def)

lemma nlmsg_bytes_pos: "0 < length (nlmsg_bytes seq pid m)"
  by (cases m) (simp add: nlmsg_bytes_def)

lemma recv_messages_end:
  "recv_messages pid seq fn buf nh 0 mp c = (Some (Inr mp), c)"
  by (simp add: recv_messages.simps NLMSG_OK_def)

lemma recv_messages_done:
  assumes "drop nh buf = nlmsg_bytes seq pid done_msg @ r"
  shows "recv_messages pid seq (Some f) buf nh (int (length (nlmsg_bytes seq pid done_msg))) mp c =
    (Some (Inl 0), c)"
proof -
  note buf = assms [unfolded done_msg_def]
  have "length (nlmsg_bytes seq pid done_msg) = 20" by (simp add: nlmsg_bytes_def done_msg_def)
  with msg_framing(1) [OF buf, of _ 0] msg_fields [OF buf] show ?thesis
    by (simp add: recv_messages.simps recv_message_def done_msg_def NLMSG_ERROR_def NLMSG_DONE_def)
qed

lemma netlink_dump_run:
  assumes "length stack = 4096" "dump_ok seq pid chunks final"
    "\<And>buf nh m c r. m \<in> set (concat chunks @ final) \<Longrightarrow> drop nh buf = nlmsg_bytes seq pid m @ r \<Longrightarrow>
       f buf nh c = Some (0, g m c)"
  shows "bpf_netlink_recv (dump_answer seq pid chunks final) stack pid seq (Some f) c =
    NetDone (0, foldl (\<lambda>c m. g m c) c (concat chunks @ final))"
  using assms
proof (induction chunks arbitrary: stack c)
  case Nil
  let ?ms = "stream_bytes seq pid final" and ?done = "nlmsg_bytes seq pid done_msg"
  let ?buf = "(?ms @ ?done) @ drop (length (?ms @ ?done)) stack"
  have size: "length (?ms @ ?done) \<le> 4096" "0 < length ?done"
    using Nil.prems(2) nlmsg_bytes_pos by (simp_all add: dump_ok_def)
  have "recv_messages pid seq (Some f) ?buf 0 (int (length (?ms @ ?done))) False c =
      recv_messages pid seq (Some f) ?buf (0 + length ?ms) (int (length ?done)) (False \<or> final \<noteq> [])
        (foldl (\<lambda>c m. g m c) c final)"
    by (rule recv_messages_prefix) (use Nil.prems size in \<open>auto simp: dump_ok_def\<close>)
  then have "recv_messages pid seq (Some f) ?buf 0 (int (length (?ms @ ?done))) False c =
      (Some (Inl 0), foldl (\<lambda>c m. g m c) c final)"
    using recv_messages_done [of "length ?ms" ?buf seq pid "drop (length (?ms @ ?done)) stack"] by simp
  moreover have "length ?done = 20" by (simp add: done_msg_def nlmsg_bytes_def)
  ultimately show ?case using Nil.prems(1) size
    by (simp add: dump_answer_def recv_into_fits)
next
  case (Cons ms chunks)
  let ?ms = "stream_bytes seq pid ms"
  let ?buf = "?ms @ drop (length ?ms) stack"
  have ms: "ms \<noteq> []" "length ?ms \<le> 4096" "\<forall>m \<in> set ms. plain_msg m"
    and rest: "dump_ok seq pid chunks final"
    using Cons.prems(2) by (simp_all add: dump_ok_def)
  have pos: "0 < length ?ms" using ms(1) nlmsg_bytes_pos by (cases ms) auto
  have "recv_messages pid seq (Some f) ?buf 0 (int (length ?ms)) False c =
      recv_messages pid seq (Some f) ?buf (0 + length ?ms) 0 (False \<or> ms \<noteq> [])
        (foldl (\<lambda>c m. g m c) c ms)"
    by (rule recv_messages_prefix) (use Cons.prems(3) ms in auto)
  also have "\<dots> = (Some (Inr True), foldl (\<lambda>c m. g m c) c ms)"
    using ms(1) by (simp add: recv_messages_end)
  finally have "bpf_netlink_recv (dump_answer seq pid (ms # chunks) final) stack pid seq (Some f) c =
      bpf_netlink_recv (dump_answer seq pid chunks final) ?buf pid seq (Some f)
        (foldl (\<lambda>c m. g m c) c ms)"
    using Cons.prems(1) ms(2) pos by (simp add: dump_answer_def recv_into_fits)
  also have "\<dots> = NetDone (0, foldl (\<lambda>c m. g m c) (foldl (\<lambda>c m. g m c) c ms) (concat chunks @ final))"
    using Cons.prems rest ms(2) by (intro Cons.IH) auto
  finally show ?case by simp
qed

text \<open>C28: the receive loop delivers a whole dump. When the kernel answers with any number of datagrams,
  each with complete messages for this socket and request, the last closed by \<open>NLMSG_DONE\<close>, the
  callback is called on every message once and in order, and the call returns 0.\<close>

theorem netlink_dump_delivers:
  assumes "length stack = 4096" "dump_ok seq pid chunks final"
    "\<And>buf nh m c r. m \<in> set (concat chunks @ final) \<Longrightarrow> drop nh buf = nlmsg_bytes seq pid m @ r \<Longrightarrow>
       f buf nh c = Some (0, g m c)"
  shows "bpf_netlink_recv (dump_answer seq pid chunks final) stack pid seq (Some f) c =
    NetDone (0, foldl (\<lambda>c m. g m c) c (concat chunks @ final))"
  by (rule netlink_dump_run [OF assms])

theorem netlink_dump_delivers_witness:
  "bpf_netlink_recv (dump_answer 7 9 [[(16, 2, [1]), (16, 2, [])]] [(16, 2, [])]) (replicate 4096 0) 9 7
      (Some (\<lambda>buf nh c. Some (0, c + 1))) (0 :: nat) =
    NetDone (0, foldl (\<lambda>c m. c + 1) 0
       (concat [[(16, 2, [1]), (16, 2, [])]] @ [(16 :: u16, 2 :: u16, [] :: u8 list)]))"
  by (rule netlink_dump_delivers [where g = "\<lambda>m c. c + 1"])
     (simp_all add: dump_ok_def plain_msg_def NLMSG_ERROR_def NLMSG_DONE_def NLM_F_MULTI_def done_msg_def
       nlmsg_bytes_def nlmsghdr_bytes_def)

section \<open>The XDP query against a kernel\<close>

text \<open>
  A network interface as the kernel reports it: family, index, other attributes, and when an XDP
  program may be attached the mode and the program ids by attribute type.
\<close>

record link =
  l_family :: u8
  l_index :: u32
  l_attrs :: "(u16 \<times> u8 list) list"
  l_xdp :: "(u8 \<times> (nat \<times> u32) list) option"

definition xdp_report_attrs :: "u8 \<Rightarrow> (nat \<times> u32) list \<Rightarrow> (u16 \<times> u8 list) list" where
  "xdp_report_attrs mode ids =
     (of_nat IFLA_XDP_ATTACHED, [mode]) # map (\<lambda>(t, x). (of_nat t, enc32 x)) ids"

definition link_attrs :: "link \<Rightarrow> (u16 \<times> u8 list) list" where
  "link_attrs l = l_attrs l @
     (case l_xdp l of
        None \<Rightarrow> []
      | Some (mode, ids) \<Rightarrow>
          [(or NLA_F_NESTED (of_nat IFLA_XDP), concat (map nla_put (xdp_report_attrs mode ids)))])"

definition link_msg :: "u16 \<Rightarrow> link \<Rightarrow> nlmsg" where
  "link_msg ty l =
     (ty, NLM_F_MULTI, ifinfomsg_bytes (l_family l) (l_index l) @ concat (map nla_put (link_attrs l)))"

definition link_ok :: "link \<Rightarrow> bool" where
  "link_ok l \<longleftrightarrow>
     (\<forall>a \<in> set (l_attrs l). length (snd a) < 65532 \<and> put_type a \<noteq> IFLA_XDP) \<and>
     length (concat (map nla_put (link_attrs l))) < 2 ^ 30 \<and>
     (\<forall>mode ids. l_xdp l = Some (mode, ids) \<longrightarrow>
        length (concat (map nla_put (xdp_report_attrs mode ids))) < 65532 \<and>
        (\<forall>(t, x) \<in> set ids. 4 \<le> t \<and> t \<le> IFLA_XDP_MAX))"

definition xdp_report :: "u8 \<Rightarrow> (nat \<times> u32) list \<Rightarrow> xdp_link_info \<Rightarrow> xdp_link_info" where
  "xdp_report mode ids info =
     (if mode = XDP_ATTACHED_NONE then info\<lparr>attach_mode := mode\<rparr>
      else
        let pick = (\<lambda>t old. case map_of (rev ids) t of None \<Rightarrow> old | Some x \<Rightarrow> x) in
        \<lparr>prog_id = pick IFLA_XDP_PROG_ID (prog_id info),
         drv_prog_id = pick IFLA_XDP_DRV_PROG_ID (drv_prog_id info),
         hw_prog_id = pick IFLA_XDP_HW_PROG_ID (hw_prog_id info),
         skb_prog_id = pick IFLA_XDP_SKB_PROG_ID (skb_prog_id info),
         attach_mode = mode\<rparr>)"

definition link_effect :: "link \<Rightarrow> xdp_id_md \<Rightarrow> xdp_id_md" where
  "link_effect l c =
     (if md_ifindex c \<noteq> 0 \<and> md_ifindex c \<noteq> l_index l then c
      else
        (case l_xdp l of
           None \<Rightarrow> c
         | Some (mode, ids) \<Rightarrow> c\<lparr>md_info := xdp_report mode ids (md_info c)\<rparr>))"

lemma put_type_small: "t \<le> 7 \<Longrightarrow> put_type (of_nat t, pl) = t"
proof -
  assume "t \<le> 7"
  then have "t = 0 \<or> t = 1 \<or> t = 2 \<or> t = 3 \<or> t = 4 \<or> t = 5 \<or> t = 6 \<or> t = 7" by linarith
  then show ?thesis by (auto simp: put_type_def NLA_TYPE_MASK_def)
qed

lemma attr_map_ids:
  assumes "\<forall>(t, x) \<in> set ids. 4 \<le> t \<and> t \<le> IFLA_XDP_MAX"
  shows "attr_map (xdp_report_attrs mode ids) IFLA_XDP_ATTACHED = Some [mode]"
    "4 \<le> t \<Longrightarrow> attr_map (xdp_report_attrs mode ids) t = map_option enc32 (map_of (rev ids) t)"
proof -
  have ids: "attr_map (map (\<lambda>(t, x). (of_nat t, enc32 x)) ids) t = map_option enc32 (map_of (rev ids) t)" for t
    using assms
  proof (induction ids rule: rev_induct)
    case (snoc p ids)
    obtain t' x where p: "p = (t', x)" by (cases p)
    have "put_type (of_nat t', enc32 x) = t'"
      using snoc.prems put_type_small by (auto simp: p IFLA_XDP_MAX_def)
    then show ?case using snoc by (simp add: p)
  qed simp
  have "map_of (rev ids) IFLA_XDP_ATTACHED = None"
    using assms by (auto simp: map_of_eq_None_iff IFLA_XDP_ATTACHED_def)
  then show "attr_map (xdp_report_attrs mode ids) IFLA_XDP_ATTACHED = Some [mode]"
    using put_type_small [of 2] by (simp add: xdp_report_attrs_def attr_map_Cons ids IFLA_XDP_ATTACHED_def)
  show "4 \<le> t \<Longrightarrow> attr_map (xdp_report_attrs mode ids) t = map_option enc32 (map_of (rev ids) t)"
    using put_type_small [of 2]
    by (auto simp: xdp_report_attrs_def attr_map_Cons ids IFLA_XDP_ATTACHED_def split: option.splits)
qed

lemma attr_map_link:
  assumes "link_ok l"
  shows "attr_map (link_attrs l) IFLA_XDP = (case l_xdp l of None \<Rightarrow> None
    | Some (mode, ids) \<Rightarrow> Some (concat (map nla_put (xdp_report_attrs mode ids))))"
proof -
  have "attr_map (l_attrs l) IFLA_XDP = None"
    using assms by (auto simp: attr_map_def map_of_eq_None_iff link_ok_def)
  then show ?thesis by (simp add: link_attrs_def split: option.splits prod.splits)
qed

lemma get_id_report:
  assumes "tb_matches buf IFLA_XDP_MAX tb (xdp_report_attrs mode ids)"
    "\<forall>(t, x) \<in> set ids. 4 \<le> t \<and> t \<le> IFLA_XDP_MAX" "4 \<le> t" "t \<le> IFLA_XDP_MAX"
  shows "get_id buf tb t old = Some (case map_of (rev ids) t of None \<Rightarrow> old | Some x \<Rightarrow> x)"
  using tb_matches_none [OF assms(1,4)] tb_matches_some [OF assms(1,4)]
    attr_map_ids(2) [OF assms(2,3), of mode] getattr_u32
  by (fastforce simp: get_id_def split: option.splits)

lemma get_xdp_info_effect:
  assumes ok: "link_ok l" and idx: "rd32 buf (ifi + 4) = Some (l_index l)"
    and tb: "tb_matches buf IFLA_MAX tb (link_attrs l)"
  shows "get_xdp_info buf c ifi tb = Some (0, link_effect l c)"
proof (cases "md_ifindex c \<noteq> 0 \<and> md_ifindex c \<noteq> l_index l")
  case True
  then show ?thesis by (simp add: get_xdp_info_def link_effect_def idx)
next
  case match: False
  show ?thesis
  proof (cases "l_xdp l")
    case None
    then have "tb ! IFLA_XDP = None"
      using tb_matches_none [OF tb IFLA_XDP_le] attr_map_link [OF ok] by simp
    with match None show ?thesis by (auto simp: get_xdp_info_def link_effect_def idx)
  next
    case (Some p)
    obtain mode ids where p: "l_xdp l = Some (mode, ids)" using Some by (cases p) auto
    have ids: "\<forall>(t, x) \<in> set ids. 4 \<le> t \<and> t \<le> IFLA_XDP_MAX" using ok p by (simp add: link_ok_def)
    obtain nla where nla: "tb ! IFLA_XDP = Some nla"
      "attr_payload buf nla = Some (concat (map nla_put (xdp_report_attrs mode ids)))"
      using tb_matches_some [OF tb IFLA_XDP_le] attr_map_link [OF ok] p by auto
    have "\<forall>a \<in> set (xdp_report_attrs mode ids). length (snd a) < 65532"
      by (auto simp: xdp_report_attrs_def)
    then obtain xtb where xtb: "libbpf_nla_parse_nested buf IFLA_XDP_MAX nla None = Some (0, xtb)"
      "tb_matches buf IFLA_XDP_MAX xtb (xdp_report_attrs mode ids)"
      using nla_parse_nested_put [OF _ nla(2)] by blast
    obtain att where att: "xtb ! IFLA_XDP_ATTACHED = Some att" "attr_payload buf att = Some [mode]"
      using tb_matches_some [OF xtb(2) _ attr_map_ids(1) [OF ids]]
      by (auto simp: IFLA_XDP_ATTACHED_def IFLA_XDP_MAX_def)
    note id = get_id_report [OF xtb(2) ids]
    have id: "get_id buf xtb IFLA_XDP_PROG_ID old = Some (case map_of (rev ids) IFLA_XDP_PROG_ID of None \<Rightarrow> old | Some x \<Rightarrow> x)"
      "get_id buf xtb IFLA_XDP_SKB_PROG_ID old = Some (case map_of (rev ids) IFLA_XDP_SKB_PROG_ID of None \<Rightarrow> old | Some x \<Rightarrow> x)"
      "get_id buf xtb IFLA_XDP_DRV_PROG_ID old = Some (case map_of (rev ids) IFLA_XDP_DRV_PROG_ID of None \<Rightarrow> old | Some x \<Rightarrow> x)"
      "get_id buf xtb IFLA_XDP_HW_PROG_ID old = Some (case map_of (rev ids) IFLA_XDP_HW_PROG_ID of None \<Rightarrow> old | Some x \<Rightarrow> x)"
      for old
      by (rule id; simp add: IFLA_XDP_PROG_ID_def IFLA_XDP_SKB_PROG_ID_def IFLA_XDP_DRV_PROG_ID_def
          IFLA_XDP_HW_PROG_ID_def IFLA_XDP_MAX_def)+
    show ?thesis
      using nla(1) xtb(1) att(1) getattr_u8 [OF att(2)] p
      by (simp add: get_xdp_info_def link_effect_def if_not_P [OF match] idx id xdp_report_def Let_def)
  qed
qed

lemma sint_of_nat_u32: "n < 2147483648 \<Longrightarrow> sint (of_nat n :: u32) = int n"
  by (simp add: signed_of_nat signed_take_bit_int_eq_self)

lemma dump_link_effect:
  assumes ok: "link_ok l" and drop: "drop nh buf = nlmsg_bytes seq pid (link_msg ty l) @ r"
  shows "dump_link_nlmsg get_xdp_info buf nh c = Some (0, link_effect l c)"
proof -
  let ?attrs = "concat (map nla_put (link_attrs l))"
  let ?hdr = "nlmsghdr_bytes (of_nat (16 + (16 + length ?attrs))) ty NLM_F_MULTI seq pid"
  obtain r' where r': "drop nh buf = ?hdr @ ifinfomsg_bytes (l_family l) (l_index l) @ ?attrs @ r'"
    using drop by (auto simp: nlmsg_bytes_def link_msg_def)
  have nh: "nh + 32 \<le> length buf" using arg_cong [OF r', of length] by simp
  have buf: "buf = (take nh buf @ ?hdr @ ifinfomsg_bytes (l_family l) (l_index l)) @ ?attrs @ r'"
    by (simp only: append_assoc r' [symmetric] append_take_drop_id)
  have small: "\<forall>a \<in> set (link_attrs l). length (snd a) < 65532" "length ?attrs < 2 ^ 31"
    using ok by (auto simp: link_ok_def link_attrs_def split: option.splits)
  have pos: "length (take nh buf @ ?hdr @ ifinfomsg_bytes (l_family l) (l_index l)) = nh + 16 + 16"
    using nh by simp
  obtain tb where tb: "libbpf_nla_parse buf IFLA_MAX (nh + 16 + 16) (int (length ?attrs)) None = Some (0, tb)"
    "tb_matches buf IFLA_MAX tb (link_attrs l)"
    using nla_parse_put_at [OF small buf, of IFLA_MAX] unfolding pos by blast
  have len: "rd32 buf nh = Some (of_nat (length ?attrs + 32))"
    using nlmsghdr_fields(1) [of "of_nat (16 + (16 + length ?attrs))" ty NLM_F_MULTI seq pid
        "ifinfomsg_bytes (l_family l) (l_index l) @ ?attrs @ r'", folded r'] rd_drop(2) [of nh buf 0]
    by (simp add: add.commute)
  have index: "rd32 buf (nh + 16 + 4) = Some (l_index l)"
    using ifinfomsg_index [of "of_nat (16 + (16 + length ?attrs))" ty NLM_F_MULTI seq pid
        "l_family l" "l_index l" "?attrs @ r'", folded r'] rd_drop(2) [of nh buf 20]
    by (simp add: add.assoc)
  have "sint (of_nat (length ?attrs + 32) - 32 :: u32) = int (length ?attrs)"
    using sint_of_nat_u32 [of "length ?attrs"] small(2) by simp
  then show ?thesis
    using len tb get_xdp_info_effect [OF ok index tb(2)]
    by (simp add: dump_link_nlmsg_def dump_attrs_def NLMSG_HDRLEN_def Let_def del: of_nat_add)
qed

lemma foldl_link_effect:
  assumes "md_ifindex c \<noteq> 0"
  shows "foldl (\<lambda>c l. link_effect l c) c ls =
    foldl (\<lambda>c l. link_effect l c) c (filter (\<lambda>l. l_index l = md_ifindex c) ls)"
  using assms
proof (induction ls arbitrary: c)
  case (Cons l ls)
  have "md_ifindex (link_effect l c) = md_ifindex c"
    by (simp add: link_effect_def split: option.splits prod.splits)
  moreover have "l_index l \<noteq> md_ifindex c \<Longrightarrow> link_effect l c = c"
    using Cons.prems by (auto simp: link_effect_def)
  ultimately show ?case using Cons.IH [of "link_effect l c"] Cons.prems by auto
qed simp

text \<open>A socket that opens and sends, with the port the kernel gave it.\<close>

definition env_ok :: "netlink_env \<Rightarrow> u32 \<Rightarrow> bool" where
  "env_ok env pid \<longleftrightarrow> (\<exists>fd. env_socket env = Inr fd) \<and> env_bind env = None \<and>
     env_getsockname env = Inr (12, pid) \<and> env_send env = None"

lemma env_ok_open: "env_ok env pid \<Longrightarrow> \<exists>fd. libbpf_netlink_open env = Inr (fd, pid)"
  by (auto simp: env_ok_def libbpf_netlink_open_def)

text \<open>The buffer of the caller after a successful query.\<close>

definition xdp_info_put :: "nat \<Rightarrow> u8 list \<Rightarrow> xdp_link_info \<Rightarrow> u8 list" where
  "xdp_info_put info_size info x =
     take info_size (xdp_info_bytes x) @ replicate (info_size - 20) 0 @ drop info_size info"

lemma length_xdp_info_bytes [simp]: "length (xdp_info_bytes x) = 20"
  by (simp add: xdp_info_bytes_def)

lemma xdp_info_read_bytes: "xdp_info_read (xdp_info_bytes x @ r) = Some x"
proof -
  have fields: "rd32 (enc32 x1 @ b) 4 = rd32 b 0" "rd32 (enc32 x1 @ enc32 x2 @ b) 8 = rd32 b 0"
    "rd32 (enc32 x1 @ enc32 x2 @ enc32 x3 @ b) 12 = rd32 b 0"
    "rd8 (enc32 x1 @ enc32 x2 @ enc32 x3 @ enc32 x4 @ b) 16 = rd8 b 0" for x1 x2 x3 x4 b
    using rd32_skip [of "enc32 x1" b 0] rd32_skip [of "enc32 x1 @ enc32 x2" b 0]
      rd32_skip [of "enc32 x1 @ enc32 x2 @ enc32 x3" b 0]
      rd8_skip [of "enc32 x1 @ enc32 x2 @ enc32 x3 @ enc32 x4" b 0]
    by simp_all
  show ?thesis by (simp add: xdp_info_read_def xdp_info_bytes_def fields, simp add: rd8_def)
qed

lemma xdp_info_put_min:
  "xdp_info_put n info x =
     take (min n 20) (xdp_info_bytes x) @ replicate (n - min n 20) 0 @ drop n info"
  by (cases "n \<le> 20") (simp_all add: xdp_info_put_def min_def)

lemma xdp_info_put_read: "xdp_info_read (xdp_info_put 20 info x) = Some x"
  by (simp add: xdp_info_put_def xdp_info_read_bytes)

lemma xdp_query_run:
  assumes "env_ok env pid" "length stack = 4096" "xdp_flags_ok flags info_size"
    and dump: "dump_ok time pid (map (map (link_msg ty)) chunks) (map (link_msg ty) final)"
    and links: "\<forall>l \<in> set (concat chunks @ final). link_ok l" and room: "info_size \<le> length info"
  shows "bpf_get_link_xdp_info K env (dump_answer time pid (map (map (link_msg ty)) chunks)
      (map (link_msg ty) final)) stack time ifindex info info_size flags =
    NetDone (0, xdp_info_put info_size info (md_info (foldl (\<lambda>c l. link_effect l c)
      \<lparr>md_ifindex = ifindex,
       md_flags = and flags (or XDP_FLAGS_SKB_MODE (or XDP_FLAGS_DRV_MODE XDP_FLAGS_HW_MODE)),
       md_info = xdp_info_zero\<rparr> (concat chunks @ final))))"
proof -
  let ?g = "\<lambda>m c. snd (the (dump_link_nlmsg get_xdp_info (nlmsg_bytes time pid m) 0 c))"
  have same: "?g (link_msg ty l) c = link_effect l c" if l: "link_ok l" for l c
    using dump_link_effect [OF l, of 0 "nlmsg_bytes time pid (link_msg ty l)" time pid ty "[]" c] by simp
  have run: "bpf_netlink_recv (dump_answer time pid (map (map (link_msg ty)) chunks)
      (map (link_msg ty) final)) stack pid time (Some (dump_link_nlmsg get_xdp_info)) c =
    NetDone (0, foldl (\<lambda>c m. ?g m c) c (concat (map (map (link_msg ty)) chunks) @ map (link_msg ty) final))"
    for c
  proof (rule netlink_dump_run [OF assms(2) dump])
    fix buf nh m c r
    assume m: "m \<in> set (concat (map (map (link_msg ty)) chunks) @ map (link_msg ty) final)"
      and drop: "drop nh buf = nlmsg_bytes time pid m @ r"
    obtain l where "link_ok l" "m = link_msg ty l" using m links by auto
    then show "dump_link_nlmsg get_xdp_info buf nh c = Some (0, ?g m c)"
      using dump_link_effect [of l nh buf time pid ty r c] drop same [of l c] by simp
  qed
  have fold: "foldl (\<lambda>c m. ?g m c) c (map (link_msg ty) ls) = foldl (\<lambda>c l. link_effect l c) c ls"
    if "\<forall>l \<in> set ls. link_ok l" for c ls
    using that by (induction ls arbitrary: c) (simp_all add: same)
  obtain fd where "libbpf_netlink_open env = Inr (fd, pid)" using env_ok_open [OF assms(1)] by blast
  moreover have "env_send env = None" using assms(1) by (simp add: env_ok_def)
  ultimately show ?thesis
    using run fold [OF links] assms(3) room
    by (simp add: bpf_get_link_xdp_info_def xdp_info_put_min libbpf_nl_get_link_def send_and_dump_def Let_def
        map_concat [symmetric])
qed

section \<open>Flags\<close>

lemma low_bits_cases:
  assumes "and x (not 15) = (0 :: u32)"
  shows "x \<in> {0, 1, 2, 3, 4, 5, 6, 7, 8, 9, 10, 11, 12, 13, 14, 15}"
proof -
  have mask: "(15 :: u32) = mask 4" by (simp add: mask_eq_exp_minus_1)
  have "\<not> bit x n" if "4 \<le> n" "n < 32" for n
  proof
    assume "bit x n"
    then have "bit (and x (not (mask 4))) n" using that by (simp add: bit_simps)
    with assms show False by (simp add: mask)
  qed
  then have "take_bit 4 x = x"
    by (intro bit_word_eqI) (auto simp: bit_simps, meson not_le)
  then have "unat x = unat x mod 16"
    using unsigned_take_bit_eq [of 4 x, where ?'a = nat] by (simp add: take_bit_eq_mod)
  then have "unat x < 16" by (metis mod_less_divisor zero_less_numeral)
  then have "unat x \<in> {0, 1, 2, 3, 4, 5, 6, 7, 8, 9, 10, 11, 12, 13, 14, 15}"
    by (auto simp: numeral_eq_Suc less_Suc_eq)
  then show ?thesis unfolding insert_iff empty_iff by (simp add: word_unat_eq_iff)
qed

lemma xdp_flags_ok_values:
  "xdp_flags_ok flags info_size \<longleftrightarrow> info_size \<noteq> 0 \<and>
     (flags = 0 \<or> flags = 1 \<or> flags = 2 \<or> flags = 3 \<or> flags = 4 \<or> flags = 5 \<or> flags = 8 \<or> flags = 9)"
proof (cases "and flags (not 15) = 0")
  case True
  have mask: "XDP_FLAGS_MASK = 15"
    by (simp add: XDP_FLAGS_MASK_def XDP_FLAGS_MODES_def XDP_FLAGS_UPDATE_IF_NOEXIST_def
        XDP_FLAGS_SKB_MODE_def XDP_FLAGS_DRV_MODE_def XDP_FLAGS_HW_MODE_def)
  from low_bits_cases [OF True] show ?thesis
    unfolding insert_iff empty_iff
    by (elim disjE) (simp_all add: xdp_flags_ok_def mask XDP_FLAGS_SKB_MODE_def XDP_FLAGS_DRV_MODE_def
        XDP_FLAGS_HW_MODE_def)
next
  case False
  have mask: "XDP_FLAGS_MASK = 15"
    by (simp add: XDP_FLAGS_MASK_def XDP_FLAGS_MODES_def XDP_FLAGS_UPDATE_IF_NOEXIST_def
        XDP_FLAGS_SKB_MODE_def XDP_FLAGS_DRV_MODE_def XDP_FLAGS_HW_MODE_def)
  have "flags \<notin> {0, 1, 2, 3, 4, 5, 8, 9}" using False by auto
  with False show ?thesis by (simp add: xdp_flags_ok_def mask)
qed

lemma xdp_flags_ok_cases:
  "xdp_flags_ok flags info_size \<Longrightarrow>
     flags = 0 \<or> flags = 1 \<or> flags = 2 \<or> flags = 3 \<or> flags = 4 \<or> flags = 5 \<or> flags = 8 \<or> flags = 9"
  by (simp add: xdp_flags_ok_values)

text \<open>What an interface reports: the id its attributes give for a number, zero if it gives none or
  says that nothing is attached. The id a query asks for: the program of the only mode there is, or
  with several programs attached that of the mode in the flags.\<close>

definition xdp_reported :: "u8 \<Rightarrow> (nat \<times> u32) list \<Rightarrow> nat \<Rightarrow> u32" where
  "xdp_reported mode ids t =
     (if mode = XDP_ATTACHED_NONE then 0 else case map_of (rev ids) t of None \<Rightarrow> 0 | Some x \<Rightarrow> x)"

definition xdp_asked :: "u8 \<Rightarrow> (nat \<times> u32) list \<Rightarrow> u32 \<Rightarrow> u32" where
  "xdp_asked mode ids flags =
     (let rep = xdp_reported mode ids in
      if mode \<noteq> XDP_ATTACHED_MULTI then rep IFLA_XDP_PROG_ID
      else
        (case map_of [(XDP_FLAGS_SKB_MODE, rep IFLA_XDP_SKB_PROG_ID),
                      (XDP_FLAGS_DRV_MODE, rep IFLA_XDP_DRV_PROG_ID),
                      (XDP_FLAGS_HW_MODE, rep IFLA_XDP_HW_PROG_ID)] (and flags XDP_FLAGS_MODES) of
           None \<Rightarrow> 0
         | Some x \<Rightarrow> x))"

lemma xdp_report_zero:
  "xdp_report mode ids xdp_info_zero =
     \<lparr>prog_id = xdp_reported mode ids IFLA_XDP_PROG_ID,
      drv_prog_id = xdp_reported mode ids IFLA_XDP_DRV_PROG_ID,
      hw_prog_id = xdp_reported mode ids IFLA_XDP_HW_PROG_ID,
      skb_prog_id = xdp_reported mode ids IFLA_XDP_SKB_PROG_ID, attach_mode = mode\<rparr>"
  by (simp add: xdp_report_def xdp_reported_def xdp_info_zero_def Let_def)

lemma get_xdp_id_asked:
  assumes "xdp_flags_ok flags info_size"
  shows "get_xdp_id (xdp_report mode ids xdp_info_zero) flags = xdp_asked mode ids flags"
proof (cases "mode = XDP_ATTACHED_MULTI")
  case True
  have mask: "XDP_FLAGS_MODES = 14" "XDP_FLAGS_SKB_MODE = 2" "XDP_FLAGS_DRV_MODE = 4" "XDP_FLAGS_HW_MODE = 8"
    by (simp_all add: XDP_FLAGS_MODES_def XDP_FLAGS_SKB_MODE_def XDP_FLAGS_DRV_MODE_def XDP_FLAGS_HW_MODE_def)
  from xdp_flags_ok_cases [OF assms] show ?thesis
    by (elim disjE) (simp_all add: get_xdp_id_def xdp_asked_def xdp_report_zero True mask)
qed (simp add: get_xdp_id_def xdp_asked_def xdp_report_zero)

text \<open>C25: the query for the XDP program of an interface. When the socket opens, the flags are accepted and
  the kernel answers the dump request with any number of interfaces in any number of datagrams, exactly
  one with the index asked for and a program attached, then both forms of the query return 0. The
  caller's structure holds that interface's ids for the single, driver, hardware and generic mode and its
  attachment mode, cut off at \<open>info_size\<close> and followed by zeros up to \<open>info_size\<close>, and nothing behind
  it is touched; the id is that of the one attached program, or with several attached that of the mode
  the flags ask for, and 0 when they ask for none.\<close>

theorem xdp_query_correct:
  assumes "env_ok env pid" "length stack = 4096" "xdp_flags_ok flags info_size" "ifindex \<noteq> 0"
    "dump_ok time pid (map (map (link_msg ty)) chunks) (map (link_msg ty) final)"
    "\<forall>l \<in> set (concat chunks @ final). link_ok l"
    "filter (\<lambda>l. l_index l = ifindex) (concat chunks @ final) = [l]" "l_xdp l = Some (mode, ids)"
    "info_size \<le> length info" "length frame = 20"
  shows "bpf_get_link_xdp_info K env (dump_answer time pid (map (map (link_msg ty)) chunks)
        (map (link_msg ty) final)) stack time ifindex info info_size flags =
      NetDone (0, take info_size (enc32 (xdp_reported mode ids IFLA_XDP_PROG_ID) @
        enc32 (xdp_reported mode ids IFLA_XDP_DRV_PROG_ID) @ enc32 (xdp_reported mode ids IFLA_XDP_HW_PROG_ID) @
        enc32 (xdp_reported mode ids IFLA_XDP_SKB_PROG_ID) @ [mode, 0, 0, 0]) @
        replicate (info_size - 20) 0 @ drop info_size info) \<and>
    bpf_get_link_xdp_id K env (dump_answer time pid (map (map (link_msg ty)) chunks)
        (map (link_msg ty) final)) stack time ifindex frame flags =
      NetDone (0, Some (xdp_asked mode ids flags))"
proof -
  have "l_index l = ifindex" using arg_cong [OF assms(7), of set] by auto
  then have run: "bpf_get_link_xdp_info K env (dump_answer time pid (map (map (link_msg ty)) chunks)
        (map (link_msg ty) final)) stack time ifindex b n flags =
      NetDone (0, xdp_info_put n b (xdp_report mode ids xdp_info_zero))"
    if "xdp_flags_ok flags n" "n \<le> length b" for n b
    unfolding xdp_query_run [OF assms(1,2) that(1) assms(5,6) that(2)]
    by (subst foldl_link_effect) (use assms(4,7,8) in \<open>simp_all add: link_effect_def\<close>)
  have "xdp_flags_ok flags 20" using assms(3) by (simp add: xdp_flags_ok_def)
  then show ?thesis
    using run [OF assms(3,9)] run [of 20 frame] assms(10) get_xdp_id_asked [OF assms(3), of mode ids]
    by (simp add: bpf_get_link_xdp_id_def xdp_info_put_read, simp add: xdp_info_put_def xdp_info_bytes_def
        xdp_report_zero)
qed

definition sample_env :: netlink_env where
  "sample_env = \<lparr>env_socket = Inr 3, env_bind = None, env_getsockname = Inr (12, 77), env_send = None\<rparr>"

definition sample_lo :: link where
  "sample_lo = \<lparr>l_family = 0, l_index = 1, l_attrs = [(3, [108, 111, 0])], l_xdp = Some (0, [])\<rparr>"

definition sample_eth :: link where
  "sample_eth =
     \<lparr>l_family = 0, l_index = 2, l_attrs = [(3, [101, 0])], l_xdp = Some (4, [(5, 99), (7, 100)])\<rparr>"

definition sample_rtnetlink :: rtnetlink where
  "sample_rtnetlink = \<lparr>RTM_GETLINK = 18, RTM_SETLINK = 19, RTM_GETTCLASS = 42, RTM_GETQDISC = 38,
     RTM_GETTFILTER = 46, TCA_MAX = 15, AF_PACKET = 17\<rparr>"

lemma sample_links_ok:
  "link_ok sample_lo" "link_ok sample_eth"
  "dump_ok 5 77 (map (map (link_msg 16)) [[sample_lo]]) (map (link_msg 16) [sample_eth])"
  by (simp_all add: link_ok_def sample_lo_def sample_eth_def put_type_def NLA_TYPE_MASK_def IFLA_XDP_def
      link_attrs_def xdp_report_attrs_def nla_put_def IFLA_XDP_MAX_def dump_ok_def link_msg_def
      nlmsg_bytes_def done_msg_def plain_msg_def NLMSG_ERROR_def NLMSG_DONE_def NLM_F_MULTI_def)

lemma sample_lo_index:
  "l_index sample_lo = 1" "l_index sample_eth = 2" "l_xdp sample_eth = Some (4, [(5, 99), (7, 100)])"
  by (simp_all add: sample_lo_def sample_eth_def)

theorem xdp_query_correct_witness:
  "bpf_get_link_xdp_info sample_rtnetlink sample_env
      (dump_answer 5 77 (map (map (link_msg 16)) [[sample_lo]]) (map (link_msg 16) [sample_eth]))
      (replicate 4096 0) 5 2 (replicate 24 255) 22 8 =
    NetDone (0, [0, 0, 0, 0, 99, 0, 0, 0, 100, 0, 0, 0, 0, 0, 0, 0, 4, 0, 0, 0, 0, 0, 255, 255]) \<and>
   bpf_get_link_xdp_id sample_rtnetlink sample_env
      (dump_answer 5 77 (map (map (link_msg 16)) [[sample_lo]]) (map (link_msg 16) [sample_eth]))
      (replicate 4096 0) 5 2 (replicate 20 255) 8 = NetDone (0, Some 100)"
proof -
  have ids: "xdp_reported 4 [(5, 99), (7, 100)] 4 = 0" "xdp_reported 4 [(5, 99), (7, 100)] 5 = 99"
    "xdp_reported 4 [(5, 99), (7, 100)] 6 = 0" "xdp_reported 4 [(5, 99), (7, 100)] 7 = 100"
    by (simp_all add: xdp_reported_def XDP_ATTACHED_NONE_def)
  have asked: "xdp_asked 4 [(5, 99), (7, 100)] 8 = 100"
    by (simp add: xdp_asked_def XDP_ATTACHED_MULTI_def XDP_FLAGS_MODES_def XDP_FLAGS_SKB_MODE_def
        XDP_FLAGS_DRV_MODE_def XDP_FLAGS_HW_MODE_def IFLA_XDP_HW_PROG_ID_def ids)
  have two: "replicate 2 x = [x, x]" for x :: u8 by (simp add: numeral_2_eq_2)
  have len: "(22::nat) \<le> length (replicate 24 (255 :: u8))" "length (replicate 20 (255 :: u8)) = 20"
    by simp_all
  show ?thesis
    using xdp_query_correct [where l = sample_eth and mode = 4 and ids = "[(5, 99), (7, 100)]" and K = sample_rtnetlink
      and flags = 8, OF _ _ _ _ sample_links_ok(3) _ _ _ len, where env = sample_env and ifindex = 2]
    by (simp add: env_ok_def sample_env_def xdp_flags_ok_def sample_links_ok sample_lo_index
        XDP_FLAGS_MASK_def XDP_FLAGS_MODES_def XDP_FLAGS_SKB_MODE_def XDP_FLAGS_UPDATE_IF_NOEXIST_def
        XDP_FLAGS_DRV_MODE_def XDP_FLAGS_HW_MODE_def IFLA_XDP_PROG_ID_def IFLA_XDP_DRV_PROG_ID_def
        IFLA_XDP_HW_PROG_ID_def IFLA_XDP_SKB_PROG_ID_def ids asked enc32_def two)
qed

section \<open>Accepted flags\<close>

text \<open>C30: the flags of a query are accepted exactly when they are known, and select at most one of the
  three attachment modes: the bit trick with \<open>flags - 1\<close> rejects every combination of modes.\<close>

theorem xdp_flags_ok_iff:
  "xdp_flags_ok flags info_size \<longleftrightarrow>
     info_size \<noteq> 0 \<and>
     (\<exists>mode. (mode = 0 \<or> mode = XDP_FLAGS_SKB_MODE \<or> mode = XDP_FLAGS_DRV_MODE \<or> mode = XDP_FLAGS_HW_MODE) \<and>
        (flags = mode \<or> flags = or XDP_FLAGS_UPDATE_IF_NOEXIST mode))"
proof -
  have "(\<exists>mode. (mode = 0 \<or> mode = XDP_FLAGS_SKB_MODE \<or> mode = XDP_FLAGS_DRV_MODE \<or>
        mode = XDP_FLAGS_HW_MODE) \<and> (flags = mode \<or> flags = or XDP_FLAGS_UPDATE_IF_NOEXIST mode)) \<longleftrightarrow>
      flags = 0 \<or> flags = 1 \<or> flags = 2 \<or> flags = 3 \<or> flags = 4 \<or> flags = 5 \<or> flags = 8 \<or> flags = 9"
    by (simp add: XDP_FLAGS_UPDATE_IF_NOEXIST_def XDP_FLAGS_SKB_MODE_def XDP_FLAGS_DRV_MODE_def
        XDP_FLAGS_HW_MODE_def conj_disj_distribR ex_disj_distrib)
  then show ?thesis by (simp only: xdp_flags_ok_values)
qed

end
