(* ===== verification/Xsk_Ring.thy ===== *)
theory Xsk_Ring
  imports Kmon_Prelude
begin

text \<open>
  The rings that an AF_XDP socket shares with the kernel, \<open>libbpf/src/xsk.h\<close>: single producer, single
  consumer, with free-running 32-bit indices and a power of two of slots. Each side keeps its own copy
  of the indices. The second half runs both sides against one shared memory, in any interleaving of whole
  operations. In the program the kernel is one of the two sides of each ring; here both sides use the
  operations of \<open>xsk.h\<close>, the only form in which the repository holds the protocol.
\<close>

section \<open>Data\<close>

text \<open>One side of a ring, \<open>DEFINE_XSK_RING\<close>, and the memory shared by both sides.\<close>

record xsk_ring =
  cached_prod :: u32
  cached_cons :: u32
  mask :: u32
  ring_size :: u32

record 'a ring_mem =
  producer :: u32
  consumer :: u32
  ring_flags :: u32
  ring :: "'a list"

section \<open>Operations\<close>

text \<open>The slot of an index; the four accessors differ in the type of the entries only.\<close>

definition xsk_ring_prod__fill_addr :: "xsk_ring \<Rightarrow> u32 \<Rightarrow> nat" where
  "xsk_ring_prod__fill_addr fill idx = unat (and idx (mask fill))"

definition xsk_ring_cons__comp_addr :: "xsk_ring \<Rightarrow> u32 \<Rightarrow> nat" where
  "xsk_ring_cons__comp_addr cr idx = unat (and idx (mask cr))"

definition xsk_ring_prod__tx_desc :: "xsk_ring \<Rightarrow> u32 \<Rightarrow> nat" where
  "xsk_ring_prod__tx_desc tx idx = unat (and idx (mask tx))"

definition xsk_ring_cons__rx_desc :: "xsk_ring \<Rightarrow> u32 \<Rightarrow> nat" where
  "xsk_ring_cons__rx_desc rx idx = unat (and idx (mask rx))"

definition xsk_ring_prod__needs_wakeup :: "'a ring_mem \<Rightarrow> bool" where
  "xsk_ring_prod__needs_wakeup m \<longleftrightarrow> and (ring_flags m) 1 \<noteq> 0"

definition xsk_prod_nb_free :: "'a ring_mem \<Rightarrow> xsk_ring \<Rightarrow> u32 \<Rightarrow> u32 \<times> xsk_ring" where
  "xsk_prod_nb_free m r nb =
     (let free_entries = cached_cons r - cached_prod r in
      if free_entries \<ge> nb then (free_entries, r)
      else
        let r = r\<lparr>cached_cons := consumer m + ring_size r\<rparr>
        in (cached_cons r - cached_prod r, r))"

definition xsk_cons_nb_avail :: "'a ring_mem \<Rightarrow> xsk_ring \<Rightarrow> u32 \<Rightarrow> u32 \<times> xsk_ring" where
  "xsk_cons_nb_avail m r nb =
     (let entries = cached_prod r - cached_cons r;
          (entries, r) =
            (if entries = 0
             then let r = r\<lparr>cached_prod := producer m\<rparr> in (cached_prod r - cached_cons r, r)
             else (entries, r))
      in (if entries > nb then nb else entries, r))"

text \<open>Reserve and peek give the number of entries and, unless it is 0, the first index.\<close>

definition xsk_ring_prod__reserve :: "'a ring_mem \<Rightarrow> xsk_ring \<Rightarrow> u64 \<Rightarrow> u64 \<times> u32 option \<times> xsk_ring" where
  "xsk_ring_prod__reserve m p nb =
     (let (nb_free, p) = xsk_prod_nb_free m p (ucast nb) in
      if ucast nb_free < nb then (0, None, p)
      else (nb, Some (cached_prod p), p\<lparr>cached_prod := cached_prod p + ucast nb\<rparr>))"

definition xsk_ring_prod__submit :: "'a ring_mem \<Rightarrow> u64 \<Rightarrow> 'a ring_mem" where
  "xsk_ring_prod__submit m nb = m\<lparr>producer := producer m + ucast nb\<rparr>"

definition xsk_ring_cons__peek :: "'a ring_mem \<Rightarrow> xsk_ring \<Rightarrow> u64 \<Rightarrow> u64 \<times> u32 option \<times> xsk_ring" where
  "xsk_ring_cons__peek m c nb =
     (let (entries, c) = xsk_cons_nb_avail m c (ucast nb) in
      if entries > 0
      then (ucast entries, Some (cached_cons c),
            c\<lparr>cached_cons := cached_cons c + entries\<rparr>)
      else (0, None, c))"

definition xsk_ring_cons__release :: "'a ring_mem \<Rightarrow> u64 \<Rightarrow> 'a ring_mem" where
  "xsk_ring_cons__release m nb = m\<lparr>consumer := consumer m + ucast nb\<rparr>"

section \<open>Addresses\<close>

definition xsk_umem__extract_addr :: "u64 \<Rightarrow> u64" where
  "xsk_umem__extract_addr addr = and addr (push_bit 48 1 - 1)"

definition xsk_umem__extract_offset :: "u64 \<Rightarrow> u64" where
  "xsk_umem__extract_offset addr = drop_bit 48 addr"

definition xsk_umem__add_offset_to_addr :: "u64 \<Rightarrow> u64" where
  "xsk_umem__add_offset_to_addr addr = xsk_umem__extract_addr addr + xsk_umem__extract_offset addr"

section \<open>Two sides on one ring\<close>

text \<open>
  The producer's and the consumer's copy, the shared memory, and two histories: the values in the order
  they were submitted, and the values the consumer had in its slots when it released them.
\<close>

record 'a xsk_sys =
  sys_prod :: xsk_ring
  sys_cons :: xsk_ring
  sys_mem :: "'a ring_mem"
  sent :: "'a list"
  got :: "'a list"

text \<open>
  The set-up of a ring in \<open>xsk_umem__create\<close> and \<open>xsk_socket__create\<close>. The structures \<open>p\<close> and \<open>c\<close> are the
  caller's, the shared memory \<open>m\<close> is what \<open>mmap\<close> returned. The code assigns the mask and the size, and
  \<open>cached_cons\<close> of a producer; \<open>cached_prod\<close> of either side and \<open>cached_cons\<close> of a consumer keep what the
  caller's memory holds.
\<close>

definition xsk_prod_setup :: "u32 \<Rightarrow> xsk_ring \<Rightarrow> xsk_ring" where
  "xsk_prod_setup n p = p\<lparr>mask := n - 1, ring_size := n, cached_cons := n\<rparr>"

definition xsk_cons_setup :: "u32 \<Rightarrow> xsk_ring \<Rightarrow> xsk_ring" where
  "xsk_cons_setup n c = c\<lparr>mask := n - 1, ring_size := n\<rparr>"

definition xsk_init :: "u32 \<Rightarrow> xsk_ring \<Rightarrow> xsk_ring \<Rightarrow> 'a ring_mem \<Rightarrow> 'a xsk_sys" where
  "xsk_init n p c m =
     \<lparr>sys_prod = xsk_prod_setup n p, sys_cons = xsk_cons_setup n c, sys_mem = m, sent = [], got = []\<rparr>"

text \<open>
  What the code relies on: the caller has cleared its two structures, and the kernel starts a ring with
  both indices 0 and \<open>2 ^ k\<close> slots.
\<close>

definition xsk_cleared :: "nat \<Rightarrow> xsk_ring \<Rightarrow> xsk_ring \<Rightarrow> 'a ring_mem \<Rightarrow> bool" where
  "xsk_cleared k p c m \<longleftrightarrow> cached_prod p = 0 \<and> cached_prod c = 0 \<and> cached_cons c = 0 \<and>
     producer m = 0 \<and> consumer m = 0 \<and> length (ring m) = 2 ^ k"

definition slots_from :: "'a xsk_sys \<Rightarrow> u32 \<Rightarrow> nat \<Rightarrow> 'a list" where
  "slots_from s start n =
     map (\<lambda>i. ring (sys_mem s) ! xsk_ring_cons__rx_desc (sys_cons s) (start + of_nat i)) [0..<n]"

text \<open>
  The steps of the two sides, in any order. The discipline of the callers is in the guards: a side
  writes, submits and releases only what it has reserved or peeked.
\<close>

inductive xsk_step :: "'a xsk_sys \<Rightarrow> 'a xsk_sys \<Rightarrow> bool" where
  reserve: "xsk_ring_prod__reserve (sys_mem s) (sys_prod s) nb = (n, idx, p) \<Longrightarrow>
     xsk_step s (s\<lparr>sys_prod := p\<rparr>)"
| store: "off < unat (cached_prod (sys_prod s) - producer (sys_mem s)) \<Longrightarrow>
     slot = xsk_ring_prod__tx_desc (sys_prod s) (producer (sys_mem s) + of_nat off) \<Longrightarrow>
     xsk_step s (s\<lparr>sys_mem := (sys_mem s)\<lparr>ring := (ring (sys_mem s))[slot := v]\<rparr>\<rparr>)"
| submit: "unat nb \<le> unat (cached_prod (sys_prod s) - producer (sys_mem s)) \<Longrightarrow>
     xsk_step s (s\<lparr>sys_mem := xsk_ring_prod__submit (sys_mem s) nb,
                  sent := sent s @ slots_from s (producer (sys_mem s)) (unat nb)\<rparr>)"
| peek: "xsk_ring_cons__peek (sys_mem s) (sys_cons s) nb = (n, idx, c) \<Longrightarrow>
     xsk_step s (s\<lparr>sys_cons := c\<rparr>)"
| release: "unat nb \<le> unat (cached_cons (sys_cons s) - consumer (sys_mem s)) \<Longrightarrow>
     xsk_step s (s\<lparr>sys_mem := xsk_ring_cons__release (sys_mem s) nb,
                  got := got s @ slots_from s (consumer (sys_mem s)) (unat nb)\<rparr>)"

definition xsk_reachable :: "nat \<Rightarrow> xsk_ring \<Rightarrow> xsk_ring \<Rightarrow> 'a ring_mem \<Rightarrow> 'a xsk_sys \<Rightarrow> bool" where
  "xsk_reachable k p c m s \<longleftrightarrow> xsk_step\<^sup>*\<^sup>* (xsk_init (2 ^ k) p c m) s"

section \<open>Invariant\<close>

text \<open>
  The indices are the low 32 bits of running counters, ordered around the ring: released, peeked, seen
  by the consumer, submitted, reserved, and the limit the producer knows.
\<close>

definition xsk_counts :: "nat \<Rightarrow> 'a xsk_sys \<Rightarrow> nat \<Rightarrow> nat \<Rightarrow> nat \<Rightarrow> nat \<Rightarrow> bool" where
  "xsk_counts k s peeked seen reserved limit \<longleftrightarrow>
     cached_cons (sys_cons s) = of_nat peeked \<and> cached_prod (sys_cons s) = of_nat seen \<and>
     cached_prod (sys_prod s) = of_nat reserved \<and> cached_cons (sys_prod s) = of_nat limit \<and>
     producer (sys_mem s) = of_nat (length (sent s)) \<and> consumer (sys_mem s) = of_nat (length (got s)) \<and>
     length (got s) \<le> peeked \<and> peeked \<le> seen \<and> seen \<le> length (sent s) \<and>
     length (sent s) \<le> reserved \<and> reserved \<le> limit \<and> limit \<le> length (got s) + 2 ^ k"

definition xsk_frame :: "nat \<Rightarrow> 'a xsk_sys \<Rightarrow> bool" where
  "xsk_frame k s \<longleftrightarrow> k < 32 \<and> length (ring (sys_mem s)) = 2 ^ k \<and>
     mask (sys_prod s) = 2 ^ k - 1 \<and> mask (sys_cons s) = 2 ^ k - 1 \<and> ring_size (sys_prod s) = 2 ^ k"

definition xsk_data :: "nat \<Rightarrow> 'a xsk_sys \<Rightarrow> bool" where
  "xsk_data k s \<longleftrightarrow>
     (\<forall>i. length (got s) \<le> i \<longrightarrow> i < length (sent s) \<longrightarrow> ring (sys_mem s) ! (i mod 2 ^ k) = sent s ! i) \<and>
     got s = take (length (got s)) (sent s)"

definition xsk_inv :: "nat \<Rightarrow> 'a xsk_sys \<Rightarrow> bool" where
  "xsk_inv k s \<longleftrightarrow> xsk_frame k s \<and> xsk_data k s \<and>
     (\<exists>peeked seen reserved limit. xsk_counts k s peeked seen reserved limit)"

lemma slot_of_nat:
  assumes "k < 32"
  shows "unat (and (of_nat i :: u32) (2 ^ k - 1)) = i mod 2 ^ k"
proof -
  have "and (of_nat i :: u32) (2 ^ k - 1) = take_bit k (of_nat i)"
    by (simp add: take_bit_eq_mask mask_eq_exp_minus_1)
  then show ?thesis using assms
    by (simp add: unsigned_take_bit_eq unsigned_of_nat take_bit_take_bit min_absorb1)
      (simp add: take_bit_eq_mod)
qed

lemma slot_simps:
  assumes "k < 32" "mask r = 2 ^ k - 1"
  shows "xsk_ring_prod__tx_desc r (of_nat i) = i mod 2 ^ k"
    "xsk_ring_cons__rx_desc r (of_nat i) = i mod 2 ^ k"
  using slot_of_nat [OF assms(1)] assms(2)
  by (simp_all add: xsk_ring_prod__tx_desc_def xsk_ring_cons__rx_desc_def)

lemma unat_diff:
  assumes "b \<le> a" "a \<le> b + 2 ^ k" "k < 32"
  shows "unat (of_nat a - of_nat b :: u32) = a - b"
proof -
  have "(2 :: nat) ^ k < 2 ^ 32" using assms(3) by (intro power_strict_increasing) auto
  then have "a - b < 2 ^ 32" using assms(2) by linarith
  then have "unat (of_nat (a - b) :: u32) = a - b" by (intro unat_of_nat_small) simp
  then show ?thesis using assms(1) by simp
qed

lemma pow_less: "k < 32 \<Longrightarrow> (2 :: nat) ^ k < 4294967296"
  using power_strict_increasing [of k 32 "2 :: nat"] by simp

lemma of_nat_u32_mod: "(of_nat a :: u32) = of_nat b \<Longrightarrow> b \<le> a \<Longrightarrow> a \<le> b + 2 ^ k \<Longrightarrow> k < 32 \<Longrightarrow> a = b"
  using unat_diff [of b a k] by simp

lemma ucast_of_nat_u32: "(ucast (nb :: u64) :: u32) = of_nat (unat nb)"
  by (simp add: of_nat_unat)

lemma xsk_inv_init:
  assumes "k < 32" "xsk_cleared k p c m"
  shows "xsk_inv k (xsk_init (2 ^ k) p c m)"
proof -
  note defs = xsk_init_def xsk_prod_setup_def xsk_cons_setup_def
  have "xsk_counts k (xsk_init (2 ^ k) p c m) 0 0 0 (2 ^ k)"
    using assms by (simp add: xsk_counts_def xsk_cleared_def defs)
  with assms show ?thesis
    unfolding xsk_inv_def by (auto simp: xsk_frame_def xsk_data_def xsk_cleared_def defs)
qed

lemma ucast_u64: "unat (ucast (x :: u32) :: u64) = unat x"
proof -
  have "unat x < 2 ^ 32" using unsigned_less [of x, where ?'a = nat] by simp
  then show ?thesis by (simp add: unsigned_ucast_eq take_bit_nat_eq_self)
qed

lemma xsk_reserve_inv:
  assumes k: "k < 32" "ring_size (sys_prod s) = 2 ^ k"
    and c: "xsk_counts k s peeked seen reserved limit"
    and res: "xsk_ring_prod__reserve (sys_mem s) (sys_prod s) nb = (n, idx, p)"
  obtains reserved' limit' where "p = (sys_prod s)\<lparr>cached_prod := of_nat reserved', cached_cons := of_nat limit'\<rparr>"
    "xsk_counts k (s\<lparr>sys_prod := p\<rparr>) peeked seen reserved' limit'"
proof -
  note c = c [unfolded xsk_counts_def]
  obtain limit' where free: "xsk_prod_nb_free (sys_mem s) (sys_prod s) (ucast nb) =
      (of_nat limit' - of_nat reserved, (sys_prod s)\<lparr>cached_cons := of_nat limit'\<rparr>)"
    "reserved \<le> limit'" "limit' \<le> length (got s) + 2 ^ k"
  proof (cases "cached_cons (sys_prod s) - cached_prod (sys_prod s) \<ge> ucast nb")
    case True
    then show thesis using c by (intro that [of limit]) (simp_all add: xsk_prod_nb_free_def)
  next
    case False
    then show thesis using c k(2)
      by (intro that [of "length (got s) + 2 ^ k"]) (simp_all add: xsk_prod_nb_free_def Let_def)
  qed
  define d :: u32 where "d = of_nat limit' - of_nat reserved"
  have diff: "unat d = limit' - reserved"
    unfolding d_def using free(2,3) c k by (intro unat_diff [of _ _ k]) auto
  note free = free [folded d_def]
  show thesis
  proof (cases "ucast d < nb")
    case True
    then have p: "p = (sys_prod s)\<lparr>cached_prod := of_nat reserved, cached_cons := of_nat limit'\<rparr>"
    proof -
      have "(sys_prod s)\<lparr>cached_prod := of_nat reserved\<rparr> = sys_prod s" using c by (cases "sys_prod s") simp
      with True show ?thesis using res free(1) by (simp add: xsk_ring_prod__reserve_def)
    qed
    show thesis using c free(2,3) by (intro that [OF p]) (simp add: xsk_counts_def p)
  next
    case False
    then have p: "p = (sys_prod s)\<lparr>cached_prod := of_nat (reserved + unat nb), cached_cons := of_nat limit'\<rparr>"
      using res free(1) c by (auto simp: xsk_ring_prod__reserve_def)
    have "unat nb \<le> unat (ucast d :: u64)"
      using False by (simp only: not_less word_le_nat_alt)
    also have "\<dots> = limit' - reserved" using diff by (simp add: ucast_u64)
    finally have "reserved + unat nb \<le> limit'" using free(2) by linarith
    with c free(3) show thesis by (intro that [OF p]) (simp add: xsk_counts_def p)
  qed
qed

lemma xsk_peek_inv:
  assumes k: "k < 32"
    and c: "xsk_counts k s peeked seen reserved limit"
    and res: "xsk_ring_cons__peek (sys_mem s) (sys_cons s) nb = (n, idx, p)"
  obtains peeked' seen' where "p = (sys_cons s)\<lparr>cached_prod := of_nat seen', cached_cons := of_nat peeked'\<rparr>"
    "xsk_counts k (s\<lparr>sys_cons := p\<rparr>) peeked' seen' reserved limit"
proof -
  note c = c [unfolded xsk_counts_def]
  have same: "(sys_cons s)\<lparr>cached_prod := of_nat seen\<rparr> = sys_cons s" using c by (cases "sys_cons s") simp
  obtain seen' where avail: "xsk_cons_nb_avail (sys_mem s) (sys_cons s) (ucast nb) =
      (let e = of_nat seen' - of_nat peeked in if e > ucast nb then ucast nb else e,
       (sys_cons s)\<lparr>cached_prod := of_nat seen'\<rparr>)"
    "peeked \<le> seen'" "seen' \<le> length (sent s)"
  proof (cases "cached_prod (sys_cons s) - cached_cons (sys_cons s) = 0")
    case True
    then show thesis using c
      by (intro that [of "length (sent s)"]) (simp_all add: xsk_cons_nb_avail_def Let_def)
  next
    case False
    then show thesis using c same
      by (intro that [of seen]) (simp_all add: xsk_cons_nb_avail_def Let_def)
  qed
  define d :: u32 where "d = of_nat seen' - of_nat peeked"
  define e where "e = (if d > ucast nb then ucast nb else d)"
  have diff: "unat d = seen' - peeked"
    unfolding d_def using avail(2,3) c k by (intro unat_diff [of _ _ k]) auto
  have "e \<le> d" by (auto simp: e_def intro: less_imp_le)
  then have e: "unat e \<le> seen' - peeked" using diff by (simp add: word_le_nat_alt)
  have res': "(if e > 0 then (sys_cons s)\<lparr>cached_prod := of_nat seen', cached_cons := of_nat peeked + e\<rparr>
      else (sys_cons s)\<lparr>cached_prod := of_nat seen'\<rparr>) = p"
    using res avail(1) c unfolding d_def [symmetric] e_def [symmetric] Let_def
    by (auto simp: xsk_ring_cons__peek_def split: if_splits)
  have p: "p = (sys_cons s)\<lparr>cached_prod := of_nat seen', cached_cons := of_nat (peeked + unat e)\<rparr>"
  proof (cases "e > 0")
    case True
    then show ?thesis using res' by simp
  next
    case False
    then have "e = 0" by (simp add: word_gt_0)
    moreover have "(sys_cons s)\<lparr>cached_cons := of_nat peeked\<rparr> = sys_cons s"
      using c by (cases "sys_cons s") simp
    ultimately show ?thesis using res' by (cases "sys_cons s") auto
  qed
  show thesis using c avail(2,3) e by (intro that [OF p]) (simp add: xsk_counts_def p)
qed

text \<open>The slots of the submitted and of the reserved region.\<close>

lemma slots_from_nat:
  assumes "xsk_frame k s"
  shows "slots_from s (of_nat a) n = map (\<lambda>i. ring (sys_mem s) ! ((a + i) mod 2 ^ k)) [0..<n]"
  using assms slot_simps(2) [of k "sys_cons s"]
  by (simp add: slots_from_def xsk_frame_def flip: of_nat_add)

lemma length_slots_from [simp]: "length (slots_from s a n) = n"
  by (simp add: slots_from_def)

lemma mod_inj:
  assumes "i < j" "j < i + 2 ^ k"
  shows "i mod 2 ^ k \<noteq> j mod (2 ^ k :: nat)"
proof
  assume "i mod 2 ^ k = j mod 2 ^ k"
  then have "(2 ^ k) dvd (j - i)" using mod_eq_dvd_iff_nat [of i j "2 ^ k"] assms by simp
  then show False using assms by (auto dest: dvd_imp_le)
qed

lemma store_data:
  assumes frame: "xsk_frame k s" and c: "xsk_counts k s peeked seen reserved limit"
    and off: "off < unat (cached_prod (sys_prod s) - producer (sys_mem s))"
    and data: "xsk_data k s"
  defines "slot \<equiv> xsk_ring_prod__tx_desc (sys_prod s) (producer (sys_mem s) + of_nat off)"
  shows "xsk_data k (s\<lparr>sys_mem := (sys_mem s)\<lparr>ring := (ring (sys_mem s))[slot := v]\<rparr>\<rparr>)"
proof -
  note c = c [unfolded xsk_counts_def] and frame = frame [unfolded xsk_frame_def]
  let ?j = "length (sent s) + off"
  have "unat (of_nat reserved - of_nat (length (sent s)) :: u32) = reserved - length (sent s)"
    using c frame by (intro unat_diff [of _ _ k]) auto
  then have j: "?j < reserved" using off c by simp
  have slot: "slot = ?j mod 2 ^ k"
    using c frame slot_simps(1) [of k "sys_prod s" ?j] by (simp add: slot_def)
  have "slot \<noteq> i mod 2 ^ k" if "length (got s) \<le> i" "i < length (sent s)" for i
    using mod_inj [of i ?j k] that j c unfolding slot by fastforce
  then show ?thesis using data by (auto simp: xsk_data_def)
qed

lemma submit_inv:
  assumes frame: "xsk_frame k s" and c: "xsk_counts k s peeked seen reserved limit"
    and data: "xsk_data k s"
    and nb: "unat nb \<le> unat (cached_prod (sys_prod s) - producer (sys_mem s))"
  defines "s' \<equiv> s\<lparr>sys_mem := xsk_ring_prod__submit (sys_mem s) nb,
                  sent := sent s @ slots_from s (producer (sys_mem s)) (unat nb)\<rparr>"
  shows "xsk_frame k s'" "xsk_counts k s' peeked seen reserved limit" "xsk_data k s'"
proof -
  note c' = c [unfolded xsk_counts_def] and frame' = frame [unfolded xsk_frame_def]
  have "unat (of_nat reserved - of_nat (length (sent s)) :: u32) = reserved - length (sent s)"
    using c' frame' by (intro unat_diff [of _ _ k]) auto
  then have n: "length (sent s) + unat nb \<le> reserved" using nb c' by auto
  show "xsk_frame k s'" using frame' by (simp add: s'_def xsk_frame_def xsk_ring_prod__submit_def)
  show "xsk_counts k s' peeked seen reserved limit"
    using c' n by (simp add: s'_def xsk_counts_def xsk_ring_prod__submit_def)
  show "xsk_data k s'"
    using data c' by (auto simp: s'_def xsk_data_def slots_from_nat [OF frame] nth_append xsk_ring_prod__submit_def)
qed

lemma release_inv:
  assumes frame: "xsk_frame k s" and c: "xsk_counts k s peeked seen reserved limit"
    and data: "xsk_data k s"
    and nb: "unat nb \<le> unat (cached_cons (sys_cons s) - consumer (sys_mem s))"
  defines "s' \<equiv> s\<lparr>sys_mem := xsk_ring_cons__release (sys_mem s) nb,
                  got := got s @ slots_from s (consumer (sys_mem s)) (unat nb)\<rparr>"
  shows "xsk_frame k s'" "xsk_counts k s' peeked seen reserved limit" "xsk_data k s'"
proof -
  note c' = c [unfolded xsk_counts_def] and frame' = frame [unfolded xsk_frame_def]
  have "unat (of_nat peeked - of_nat (length (got s)) :: u32) = peeked - length (got s)"
    using c' frame' by (intro unat_diff [of _ _ k]) auto
  then have n: "length (got s) + unat nb \<le> peeked" using nb c' by auto
  have slots: "slots_from s (consumer (sys_mem s)) (unat nb) =
      map (\<lambda>i. ring (sys_mem s) ! ((length (got s) + i) mod 2 ^ k)) [0..<unat nb]"
    using slots_from_nat [OF frame] c' by simp
  also have "\<dots> = map (\<lambda>i. sent s ! (length (got s) + i)) [0..<unat nb]"
    using data n c' by (intro map_cong) (auto simp: xsk_data_def)
  also have "\<dots> = take (unat nb) (drop (length (got s)) (sent s))"
    using n c' by (intro nth_equalityI) auto
  finally have slots: "slots_from s (consumer (sys_mem s)) (unat nb) =
      take (unat nb) (drop (length (got s)) (sent s))" .
  show "xsk_frame k s'" using frame' by (simp add: s'_def xsk_frame_def xsk_ring_cons__release_def)
  show "xsk_counts k s' peeked seen reserved limit"
    using c' n by (simp add: s'_def xsk_counts_def xsk_ring_cons__release_def)
  have "got s @ slots_from s (consumer (sys_mem s)) (unat nb) = take (length (got s) + unat nb) (sent s)"
    using data unfolding slots take_add xsk_data_def by simp
  then show "xsk_data k s'"
    using data n c' by (auto simp: s'_def xsk_data_def xsk_ring_cons__release_def min_absorb2)
qed

lemma xsk_step_inv: "xsk_step s s' \<Longrightarrow> xsk_inv k s \<Longrightarrow> xsk_inv k s'"
proof (induction rule: xsk_step.induct)
  case (reserve s nb n idx p)
  then obtain peeked seen reserved limit where i: "xsk_frame k s" "xsk_data k s"
    "xsk_counts k s peeked seen reserved limit" by (auto simp: xsk_inv_def)
  have fr: "k < 32" "ring_size (sys_prod s) = 2 ^ k" using i(1) by (simp_all add: xsk_frame_def)
  obtain reserved' limit' where
    "p = (sys_prod s)\<lparr>cached_prod := of_nat reserved', cached_cons := of_nat limit'\<rparr>"
    "xsk_counts k (s\<lparr>sys_prod := p\<rparr>) peeked seen reserved' limit'"
    by (rule xsk_reserve_inv [OF fr i(3) reserve(1)])
  then show ?case using i(1,2) unfolding xsk_inv_def by (auto simp: xsk_frame_def xsk_data_def)
next
  case (store off s slot v)
  then obtain peeked seen reserved limit where i: "xsk_frame k s" "xsk_data k s"
    "xsk_counts k s peeked seen reserved limit" by (auto simp: xsk_inv_def)
  have "xsk_data k (s\<lparr>sys_mem := (sys_mem s)\<lparr>ring := (ring (sys_mem s))[slot := v]\<rparr>\<rparr>)"
    unfolding store(2) by (rule store_data [OF i(1,3) store(1) i(2)])
  moreover have "xsk_counts k (s\<lparr>sys_mem := (sys_mem s)\<lparr>ring := (ring (sys_mem s))[slot := v]\<rparr>\<rparr>)
      peeked seen reserved limit" using i(3) by (simp add: xsk_counts_def)
  ultimately show ?case using i(1) unfolding xsk_inv_def by (auto simp: xsk_frame_def)
next
  case (submit nb s)
  then show ?case using submit_inv [of k s _ _ _ _ nb] unfolding xsk_inv_def by blast
next
  case (peek s nb n idx c)
  then obtain peeked seen reserved limit where i: "xsk_frame k s" "xsk_data k s"
    "xsk_counts k s peeked seen reserved limit" by (auto simp: xsk_inv_def)
  have fr: "k < 32" using i(1) by (simp add: xsk_frame_def)
  obtain peeked' seen' where
    "c = (sys_cons s)\<lparr>cached_prod := of_nat seen', cached_cons := of_nat peeked'\<rparr>"
    "xsk_counts k (s\<lparr>sys_cons := c\<rparr>) peeked' seen' reserved limit"
    by (rule xsk_peek_inv [OF fr i(3) peek(1)])
  then show ?case using i(1,2) unfolding xsk_inv_def by (auto simp: xsk_frame_def xsk_data_def)
next
  case (release nb s)
  then show ?case using release_inv [of k s _ _ _ _ nb] unfolding xsk_inv_def by blast
qed

lemma xsk_reachable_inv:
  assumes "xsk_reachable k p c m s" "k < 32" "xsk_cleared k p c m"
  shows "xsk_inv k s"
  using assms(1) unfolding xsk_reachable_def
  by (induction rule: rtranclp_induct) (use assms in \<open>auto intro: xsk_inv_init xsk_step_inv\<close>)

section \<open>Properties\<close>

text \<open>C22: first in, first out, across the wrap-around of the indices and under every interleaving of the
  operations of one producer and one consumer of \<open>xsk.h\<close> on one ring, each operation in one step. When the
  ring has a power of two of slots and the caller cleared its ring structures before they were set up,
  then what the consumer has taken is always a prefix of what the producer submitted, nothing lost,
  duplicated or reordered, and the entries in between never exceed the ring and lie intact in its slots.\<close>

theorem xsk_ring_fifo:
  assumes "xsk_reachable k p c m s" "k < 32" "xsk_cleared k p c m"
  shows "got s = take (length (got s)) (sent s) \<and> length (sent s) \<le> length (got s) + 2 ^ k \<and>
    slots_from s (consumer (sys_mem s)) (length (sent s) - length (got s)) = drop (length (got s)) (sent s)"
proof -
  obtain peeked seen reserved limit where i: "xsk_frame k s" "xsk_data k s"
    "xsk_counts k s peeked seen reserved limit"
    using xsk_reachable_inv [OF assms] by (auto simp: xsk_inv_def)
  note c = i(3) [unfolded xsk_counts_def]
  have "slots_from s (consumer (sys_mem s)) (length (sent s) - length (got s)) =
      map (\<lambda>j. ring (sys_mem s) ! ((length (got s) + j) mod 2 ^ k)) [0..<length (sent s) - length (got s)]"
    using c slots_from_nat [OF i(1)] by simp
  also have "\<dots> = drop (length (got s)) (sent s)"
    using i(2) by (intro nth_equalityI) (auto simp: xsk_data_def)
  finally show ?thesis using i(2) c by (auto simp: xsk_data_def)
qed

text \<open>A run on a ring of four slots, whose second batch wraps around.\<close>

definition xsk_clear :: xsk_ring where
  "xsk_clear = \<lparr>cached_prod = 0, cached_cons = 0, mask = 0, ring_size = 0\<rparr>"

definition xsk_sample ::
  "u32 \<Rightarrow> u32 \<Rightarrow> u32 \<Rightarrow> u32 \<Rightarrow> u32 \<Rightarrow> u32 \<Rightarrow> string \<Rightarrow> string \<Rightarrow> string \<Rightarrow> char xsk_sys" where
  "xsk_sample pp pc cp cc prd cns slots out inn =
     \<lparr>sys_prod = \<lparr>cached_prod = pp, cached_cons = pc, mask = 3, ring_size = 4\<rparr>,
      sys_cons = \<lparr>cached_prod = cp, cached_cons = cc, mask = 3, ring_size = 4\<rparr>,
      sys_mem = \<lparr>producer = prd, consumer = cns, ring_flags = 0, ring = slots\<rparr>, sent = out, got = inn\<rparr>"

lemma xsk_step_to:
  "xsk_ring_prod__reserve (sys_mem s) (sys_prod s) nb = (n, idx, p) \<Longrightarrow> s' = s\<lparr>sys_prod := p\<rparr> \<Longrightarrow> xsk_step s s'"
  "off < unat (cached_prod (sys_prod s) - producer (sys_mem s)) \<Longrightarrow>
     s' = s\<lparr>sys_mem := (sys_mem s)\<lparr>ring := (ring (sys_mem s))
       [xsk_ring_prod__tx_desc (sys_prod s) (producer (sys_mem s) + of_nat off) := v]\<rparr>\<rparr> \<Longrightarrow> xsk_step s s'"
  "unat nb \<le> unat (cached_prod (sys_prod s) - producer (sys_mem s)) \<Longrightarrow>
     s' = s\<lparr>sys_mem := xsk_ring_prod__submit (sys_mem s) nb,
            sent := sent s @ slots_from s (producer (sys_mem s)) (unat nb)\<rparr> \<Longrightarrow> xsk_step s s'"
  "xsk_ring_cons__peek (sys_mem s) (sys_cons s) nb = (n, idx, c) \<Longrightarrow> s' = s\<lparr>sys_cons := c\<rparr> \<Longrightarrow> xsk_step s s'"
  "unat nb \<le> unat (cached_cons (sys_cons s) - consumer (sys_mem s)) \<Longrightarrow>
     s' = s\<lparr>sys_mem := xsk_ring_cons__release (sys_mem s) nb,
            got := got s @ slots_from s (consumer (sys_mem s)) (unat nb)\<rparr> \<Longrightarrow> xsk_step s s'"
  by (auto intro: xsk_step.intros)

lemmas xsk_op_defs = xsk_ring_prod__reserve_def xsk_prod_nb_free_def xsk_ring_prod__submit_def
  xsk_ring_cons__peek_def xsk_cons_nb_avail_def xsk_ring_cons__release_def
  xsk_ring_prod__tx_desc_def xsk_ring_cons__rx_desc_def slots_from_def Let_def

lemma xsk_sample_first:
  "xsk_step\<^sup>*\<^sup>* (xsk_sample 0 4 0 0 0 0 ''abcd'' [] []) (xsk_sample 3 4 3 2 3 2 ''xyzd'' ''xyz'' ''xy'')"
proof -
  have s1: "xsk_step (xsk_sample 0 4 0 0 0 0 ''abcd'' [] [])
      (xsk_sample 3 4 0 0 0 0 ''abcd'' [] [])"
    by (rule xsk_step_to(1) [where nb = 3 and p = "sys_prod (xsk_sample 3 4 0 0 0 0 [] [] [])"])
      (simp_all add: xsk_sample_def xsk_op_defs)
  have s2: "xsk_step (xsk_sample 3 4 0 0 0 0 ''abcd'' [] [])
      (xsk_sample 3 4 0 0 0 0 ''xbcd'' [] [])"
    by (rule xsk_step_to(2) [where off = 0 and v = "CHR ''x''"]) (simp_all add: xsk_sample_def xsk_op_defs)
  have s3: "xsk_step (xsk_sample 3 4 0 0 0 0 ''xbcd'' [] [])
      (xsk_sample 3 4 0 0 0 0 ''xycd'' [] [])"
    by (rule xsk_step_to(2) [where off = 1 and v = "CHR ''y''"]) (simp_all add: xsk_sample_def xsk_op_defs)
  have s4: "xsk_step (xsk_sample 3 4 0 0 0 0 ''xycd'' [] [])
      (xsk_sample 3 4 0 0 0 0 ''xyzd'' [] [])"
    by (rule xsk_step_to(2) [where off = 2 and v = "CHR ''z''"]) (simp_all add: xsk_sample_def xsk_op_defs)
  have s5: "xsk_step (xsk_sample 3 4 0 0 0 0 ''xyzd'' [] [])
      (xsk_sample 3 4 0 0 3 0 ''xyzd'' ''xyz'' [])"
    by (rule xsk_step_to(3) [where nb = 3]) (simp_all add: xsk_sample_def xsk_op_defs upt_rec)
  have s6: "xsk_step (xsk_sample 3 4 0 0 3 0 ''xyzd'' ''xyz'' [])
      (xsk_sample 3 4 3 2 3 0 ''xyzd'' ''xyz'' [])"
    by (rule xsk_step_to(4) [where nb = 2 and c = "sys_cons (xsk_sample 3 4 3 2 3 0 [] [] [])"])
      (simp_all add: xsk_sample_def xsk_op_defs)
  have s7: "xsk_step (xsk_sample 3 4 3 2 3 0 ''xyzd'' ''xyz'' [])
      (xsk_sample 3 4 3 2 3 2 ''xyzd'' ''xyz'' ''xy'')"
    by (rule xsk_step_to(5) [where nb = 2]) (simp_all add: xsk_sample_def xsk_op_defs upt_rec)
  show ?thesis
    by (meson s1 s2 s3 s4 s5 s6 s7 converse_rtranclp_into_rtranclp rtranclp.rtrancl_refl)
qed

lemma xsk_sample_second:
  "xsk_step\<^sup>*\<^sup>* (xsk_sample 3 4 3 2 3 2 ''xyzd'' ''xyz'' ''xy'') (xsk_sample 6 6 3 2 6 2 ''vwzu'' ''xyzuvw'' ''xy'')"
proof -
  have s1: "xsk_step (xsk_sample 3 4 3 2 3 2 ''xyzd'' ''xyz'' ''xy'')
      (xsk_sample 6 6 3 2 3 2 ''xyzd'' ''xyz'' ''xy'')"
    by (rule xsk_step_to(1) [where nb = 3 and n = 3 and idx = "Some 3" and p = "sys_prod (xsk_sample 6 6 0 0 0 0 [] [] [])"])
      (simp_all add: xsk_sample_def xsk_op_defs word_le_nat_alt)
  have s2: "xsk_step (xsk_sample 6 6 3 2 3 2 ''xyzd'' ''xyz'' ''xy'')
      (xsk_sample 6 6 3 2 3 2 ''xyzu'' ''xyz'' ''xy'')"
    by (rule xsk_step_to(2) [where off = 0 and v = "CHR ''u''"]) (simp_all add: xsk_sample_def xsk_op_defs)
  have s3: "xsk_step (xsk_sample 6 6 3 2 3 2 ''xyzu'' ''xyz'' ''xy'')
      (xsk_sample 6 6 3 2 3 2 ''vyzu'' ''xyz'' ''xy'')"
    by (rule xsk_step_to(2) [where off = 1 and v = "CHR ''v''"]) (simp_all add: xsk_sample_def xsk_op_defs)
  have s4: "xsk_step (xsk_sample 6 6 3 2 3 2 ''vyzu'' ''xyz'' ''xy'')
      (xsk_sample 6 6 3 2 3 2 ''vwzu'' ''xyz'' ''xy'')"
    by (rule xsk_step_to(2) [where off = 2 and v = "CHR ''w''"]) (simp_all add: xsk_sample_def xsk_op_defs)
  have s5: "xsk_step (xsk_sample 6 6 3 2 3 2 ''vwzu'' ''xyz'' ''xy'')
      (xsk_sample 6 6 3 2 6 2 ''vwzu'' ''xyzuvw'' ''xy'')"
    by (rule xsk_step_to(3) [where nb = 3]) (simp_all add: xsk_sample_def xsk_op_defs upt_rec)
  show ?thesis
    by (meson s1 s2 s3 s4 s5 converse_rtranclp_into_rtranclp rtranclp.rtrancl_refl)
qed

definition xsk_sample_mem :: "char ring_mem" where
  "xsk_sample_mem = \<lparr>producer = 0, consumer = 0, ring_flags = 0, ring = ''abcd''\<rparr>"

lemma xsk_sample_init:
  "xsk_init (2 ^ 2) xsk_clear xsk_clear xsk_sample_mem = xsk_sample 0 4 0 0 0 0 ''abcd'' [] []"
  "xsk_cleared 2 xsk_clear xsk_clear xsk_sample_mem"
  by (simp_all add: xsk_init_def xsk_prod_setup_def xsk_cons_setup_def xsk_clear_def xsk_sample_mem_def
      xsk_sample_def xsk_cleared_def)

lemma xsk_sample_reachable:
  "xsk_reachable 2 xsk_clear xsk_clear xsk_sample_mem (xsk_sample 6 6 3 2 6 2 ''vwzu'' ''xyzuvw'' ''xy'')"
  unfolding xsk_reachable_def xsk_sample_init
  by (rule rtranclp_trans [OF xsk_sample_first xsk_sample_second])

theorem xsk_ring_fifo_witness:
  "xsk_reachable 2 xsk_clear xsk_clear xsk_sample_mem (xsk_sample 6 6 3 2 6 2 ''vwzu'' ''xyzuvw'' ''xy'') \<and>
   ''xy'' = take 2 ''xyzuvw'' \<and>
   slots_from (xsk_sample 6 6 3 2 6 2 ''vwzu'' ''xyzuvw'' ''xy'') 2 4 = ''zuvw''"
  using xsk_ring_fifo [OF xsk_sample_reachable _ xsk_sample_init(2)] xsk_sample_reachable
  by (simp add: xsk_sample_def eval_nat_numeral)

text \<open>Nothing in the set-up clears the producer's index. When the caller's memory was not zero the first
  reservation hands out the index it held, while the submission publishes the slots from index 0 on.\<close>

lemma xsk_uncleared_index:
  assumes "cached_prod p \<noteq> n"
  shows "fst (snd (xsk_ring_prod__reserve m (xsk_prod_setup n p) 1)) = Some (cached_prod p)"
proof -
  have "1 \<le> n - cached_prod p" using assms by (simp add: word_le_nat_alt Suc_le_eq unat_gt_0)
  moreover have "(ucast (n - cached_prod p) :: u64) \<noteq> 0"
    using assms ucast_u64 [of "n - cached_prod p"] by (metis right_minus_eq unat_eq_zero)
  ultimately show ?thesis
    by (simp add: xsk_ring_prod__reserve_def xsk_prod_nb_free_def xsk_prod_setup_def not_less)
qed

text \<open>A reservation succeeds exactly when the ring has that many slots free of entries the consumer
  has not released, counting what is already reserved; the check of the cached index never refuses a
  reservation that the shared index would allow.\<close>

theorem xsk_reserve_exact:
  assumes "xsk_reachable k p c m s" "k < 32" "xsk_cleared k p c m" "0 < nb" "nb < 2 ^ 32"
  shows "fst (xsk_ring_prod__reserve (sys_mem s) (sys_prod s) nb) = nb \<longleftrightarrow>
    unat nb + unat (cached_prod (sys_prod s) - consumer (sys_mem s)) \<le> 2 ^ k"
proof -
  obtain peeked seen reserved limit where i: "xsk_frame k s" "xsk_counts k s peeked seen reserved limit"
    using xsk_reachable_inv [OF assms(1-3)] by (auto simp: xsk_inv_def)
  note c = i(2) [unfolded xsk_counts_def] and frame = i(1) [unfolded xsk_frame_def]
  have used: "unat (of_nat reserved - of_nat (length (got s)) :: u32) = reserved - length (got s)"
    using c assms(2) by (intro unat_diff [of _ _ k]) auto
  have free: "unat (of_nat limit - of_nat reserved :: u32) = limit - reserved"
    "unat (of_nat (length (got s) + 2 ^ k) - of_nat reserved :: u32) = length (got s) + 2 ^ k - reserved"
    using c assms(2) by (intro unat_diff [of _ _ k]; auto)+
  have nb: "unat (ucast nb :: u32) = unat nb"
    using assms(5) by (simp add: unsigned_ucast_eq word_less_nat_alt take_bit_nat_eq_self)
  define d where "d = (of_nat limit - of_nat reserved :: u32)"
  define d' where "d' = (of_nat (length (got s) + 2 ^ k) - of_nat reserved :: u32)"
  have cmp: "ucast x < nb \<longleftrightarrow> unat x < unat nb" for x :: u32
    by (simp add: word_less_nat_alt ucast_u64)
  have cached: "ucast nb \<le> d \<longleftrightarrow> unat nb \<le> limit - reserved"
    using free(1) nb by (simp add: word_le_nat_alt d_def)
  have fst: "fst (xsk_ring_prod__reserve (sys_mem s) (sys_prod s) nb) =
      (let e = if ucast nb \<le> d then d else d' in if ucast e < nb then 0 else nb)"
    using c frame by (simp add: xsk_ring_prod__reserve_def xsk_prod_nb_free_def Let_def d_def d'_def)
  have "fst (xsk_ring_prod__reserve (sys_mem s) (sys_prod s) nb) = nb \<longleftrightarrow>
      unat nb \<le> limit - reserved \<or> unat nb \<le> length (got s) + 2 ^ k - reserved"
    unfolding fst Let_def using cached cmp assms(4) free by (auto simp: d_def d'_def word_less_nat_alt)
  also have "\<dots> \<longleftrightarrow> unat nb + (reserved - length (got s)) \<le> 2 ^ k" using c by auto
  finally show ?thesis using used c by simp
qed

theorem xsk_reserve_exact_witness:
  "fst (xsk_ring_prod__reserve (sys_mem (xsk_sample 6 6 3 2 6 2 ''vwzu'' ''xyzuvw'' ''xy''))
      (sys_prod (xsk_sample 6 6 3 2 6 2 ''vwzu'' ''xyzuvw'' ''xy'')) 1) = 1 \<longleftrightarrow> unat (1 :: u64) + unat (6 - 2 :: u32) \<le> 2 ^ 2"
  using xsk_reserve_exact [OF xsk_sample_reachable _ xsk_sample_init(2), of 1] by (simp add: xsk_sample_def)

end
