(* ===== verification/Prog_Linfo.thy ===== *)
theory Prog_Linfo
  imports Byte_Buffer
begin

text \<open>
  Line information of a loaded program, \<open>libbpf/src/bpf_prog_linfo.c\<close>. The kernel gives one array of
  source line records, sorted by instruction offset within each function, and one of addresses in the
  translated code; \<open>dissect_jited_func\<close> splits the second by function, and the two searches find the
  record of an address or an instruction. Records are read at their byte offset, with the record size
  the kernel reports; a read outside an array has the result \<open>None\<close>.
\<close>

section \<open>Data\<close>

record bpf_prog_linfo =
  raw_linfo :: "u8 list"
  raw_jited_linfo :: "u8 list"
  nr_jited_linfo_per_func :: "u32 list"
  jited_linfo_func_idx :: "u32 list"
  nr_linfo :: u32
  nr_jited_func :: u32
  rec_size :: u32
  jited_rec_size :: u32

text \<open>The part of \<open>struct bpf_prog_info\<close> that is used; an array that is null is \<open>None\<close>.\<close>

record bpf_prog_info =
  nr_line_info :: u32
  line_info_rec_size :: u32
  line_info :: "u8 list"
  nr_jited_line_info :: u32
  jited_line_info_rec_size :: u32
  jited_line_info :: "u8 list option"
  nr_jited_ksyms :: u32
  jited_ksyms :: "u64 list option"
  nr_jited_func_lens :: u32
  jited_func_lens :: "u32 list option"

definition rd64 :: "u8 list \<Rightarrow> nat \<Rightarrow> u64 option" where
  "rd64 buf pos = (if pos + 8 \<le> length buf then Some (le64 (drop pos buf)) else None)"

text \<open>Reading and writing an array at an index; outside of it is \<open>None\<close>.\<close>

definition arr_get :: "'a list \<Rightarrow> nat \<Rightarrow> 'a option" where
  "arr_get xs i = (if i < length xs then Some (xs ! i) else None)"

definition arr_set :: "'a list \<Rightarrow> nat \<Rightarrow> 'a \<Rightarrow> 'a list option" where
  "arr_set xs i x = (if i < length xs then Some (xs[i := x]) else None)"

section \<open>Splitting the addresses by function\<close>

text \<open>
  The state of the loop: the index into the addresses, the index of the last function start, the
  number of the next function, the two result arrays, and the address before. The result is the return
  code with the arrays; \<open>None\<close> is an access outside an array.
\<close>

function dissect_loop ::
  "u8 list \<Rightarrow> u32 \<Rightarrow> u32 \<Rightarrow> u32 \<Rightarrow> u64 list \<Rightarrow> u32 list \<Rightarrow> nat \<Rightarrow> nat \<Rightarrow> nat \<Rightarrow> u64 \<Rightarrow>
   u32 list \<Rightarrow> u32 list \<Rightarrow> (int + nat \<times> nat \<times> u32 list \<times> u32 list) option"
where
  "dissect_loop raw rsize n nf ksym_func ksym_len i prev_i f before per_func func_idx =
     (if \<not> (i < unat n \<and> f < unat nf) then Some (Inr (prev_i, f, per_func, func_idx))
      else
        do {
          cur \<leftarrow> rd64 raw (i * unat rsize);
          sym \<leftarrow> arr_get ksym_func f;
          if sym = cur then
            do {
              func_idx \<leftarrow> arr_set func_idx f (of_nat i);
              prev_sym \<leftarrow> arr_get ksym_func (f - 1);
              len \<leftarrow> arr_get ksym_len (f - 1);
              if before - prev_sym + 1 > ucast len then Some (Inl (- EINVAL))
              else
                do {
                  per_func \<leftarrow> arr_set per_func (f - 1) (of_nat i - of_nat prev_i);
                  dissect_loop raw rsize n nf ksym_func ksym_len (i + 1) i (f + 1) cur
                    per_func func_idx
                }
            }
          else if cur \<le> before then Some (Inl (- EINVAL))
          else dissect_loop raw rsize n nf ksym_func ksym_len (i + 1) prev_i f cur
                 per_func func_idx
        })"
  by pat_completeness auto

termination dissect_loop
  by (relation "measure (\<lambda>(raw, rsize, n, nf, ks, kl, i, prev_i, f, before, pf, fi).
        unat n - i)") auto

declare dissect_loop.simps [simp del]

definition dissect_jited_func ::
  "bpf_prog_linfo \<Rightarrow> u64 list \<Rightarrow> u32 list \<Rightarrow> (int + bpf_prog_linfo) option"
where
  "dissect_jited_func p ksym_func ksym_len =
     do {
       sym0 \<leftarrow> arr_get ksym_func 0;
       addr0 \<leftarrow> rd64 (raw_jited_linfo p) 0;
       if sym0 \<noteq> addr0 then Some (Inl (- EINVAL))
       else
         do {
           func_idx \<leftarrow> arr_set (jited_linfo_func_idx p) 0 0;
           r \<leftarrow> dissect_loop (raw_jited_linfo p) (jited_rec_size p) (nr_linfo p) (nr_jited_func p)
                 ksym_func ksym_len 1 0 1 addr0 (nr_jited_linfo_per_func p) func_idx;
           (case r of
              Inl e \<Rightarrow> Some (Inl e)
            | Inr (prev_i, f, per_func, func_idx) \<Rightarrow>
                if f \<noteq> unat (nr_jited_func p) then Some (Inl (- EINVAL))
                else
                  do {
                    per_func \<leftarrow> arr_set per_func (unat (nr_jited_func p - 1)) (nr_linfo p - of_nat prev_i);
                    Some (Inr (p\<lparr>nr_jited_linfo_per_func := per_func, jited_linfo_func_idx := func_idx\<rparr>))
                  })
         }
     }"

section \<open>Construction\<close>

text \<open>
  \<open>allocs\<close> says which of the five allocations succeed; \<open>junk\<close> is what fresh memory holds. \<open>memcpy\<close> from
  the kernel's arrays reads exactly the announced number of bytes.
\<close>

definition copy_bytes :: "u8 list \<Rightarrow> nat \<Rightarrow> u8 list option" where
  "copy_bytes src n = (if n \<le> length src then Some (take n src) else None)"

definition bpf_prog_linfo__new ::
  "(nat \<Rightarrow> bool) \<Rightarrow> u32 \<Rightarrow> bpf_prog_info \<Rightarrow> bpf_prog_linfo option option"
where
  "bpf_prog_linfo__new allocs junk info =
     (if nr_line_info info = 0 then Some None
      else if line_info_rec_size info < 4 then Some None
      else if \<not> allocs 0 then Some None
      else if \<not> allocs 1 then Some None
      else
        do {
          raw \<leftarrow> copy_bytes (line_info info) (unat (nr_line_info info) * unat (line_info_rec_size info));
          let p = \<lparr>raw_linfo = raw, raw_jited_linfo = [], nr_jited_linfo_per_func = [],
                   jited_linfo_func_idx = [], nr_linfo = nr_line_info info, nr_jited_func = 0,
                   rec_size = line_info_rec_size info, jited_rec_size = 0\<rparr>;
          (case (jited_line_info info, jited_ksyms info, jited_func_lens info) of
             (Some jited, Some ksyms, Some lens) \<Rightarrow>
               if nr_jited_ksyms info = 0 \<or> nr_jited_line_info info \<noteq> nr_line_info info \<or>
                  jited_line_info_rec_size info < 8 \<or> nr_jited_func_lens info \<noteq> nr_jited_ksyms info
               then Some (Some p)
               else if \<not> allocs 2 then Some None
               else
                 do {
                   raw_jited \<leftarrow> copy_bytes jited
                     (unat (nr_line_info info) * unat (jited_line_info_rec_size info));
                   if \<not> allocs 3 then Some None
                   else if \<not> allocs 4 then Some None
                   else
                     do {
                       let p = p\<lparr>nr_jited_func := nr_jited_ksyms info,
                                 jited_rec_size := jited_line_info_rec_size info,
                                 raw_jited_linfo := raw_jited,
                                 nr_jited_linfo_per_func := replicate (unat (nr_jited_ksyms info)) junk,
                                 jited_linfo_func_idx := replicate (unat (nr_jited_ksyms info)) junk\<rparr>;
                       r \<leftarrow> dissect_jited_func p ksyms lens;
                       (case r of Inl e \<Rightarrow> Some None | Inr p \<Rightarrow> Some (Some p))
                     }
                 }
           | _ \<Rightarrow> Some (Some p))
        })"

section \<open>Searches\<close>

text \<open>
  The scan reads \<open>key\<close> of each record from \<open>pos\<close> on and stops at the first one above \<open>x\<close>, or after \<open>n\<close>
  records. It checks before it advances, so it gives the position of the record behind the last one
  that is not above \<open>x\<close>.
\<close>

fun scan_linfo :: "(nat \<Rightarrow> 'w::linorder option) \<Rightarrow> 'w \<Rightarrow> nat \<Rightarrow> nat \<Rightarrow> nat option" where
  "scan_linfo key x 0 pos = Some pos"
| "scan_linfo key x (Suc n) pos =
     (case key pos of
        None \<Rightarrow> None
      | Some a \<Rightarrow> if x < a then Some pos else scan_linfo key x n (pos + 1))"

text \<open>
  The result of both searches is a byte offset into the line records, or null. \<open>start * rec_size\<close> is a
  product of 32-bit numbers.
\<close>

definition bpf_prog_linfo__lfind_addr_func ::
  "bpf_prog_linfo \<Rightarrow> u64 \<Rightarrow> u32 \<Rightarrow> u32 \<Rightarrow> nat option option"
where
  "bpf_prog_linfo__lfind_addr_func p addr func_idx nr_skip =
     (if func_idx \<ge> nr_jited_func p then Some None
      else
        do {
          cnt \<leftarrow> arr_get (nr_jited_linfo_per_func p) (unat func_idx);
          if nr_skip \<ge> cnt then Some None
          else
            do {
              first \<leftarrow> arr_get (jited_linfo_func_idx p) (unat func_idx);
              let start = first + nr_skip;
              let key = (\<lambda>i. rd64 (raw_jited_linfo p)
                               (unat (start * jited_rec_size p) + i * unat (jited_rec_size p)));
              a \<leftarrow> key 0;
              if addr < a then Some None
              else
                do {
                  i \<leftarrow> scan_linfo key addr (unat (cnt - nr_skip)) 0;
                  Some (Some (unat (start * rec_size p) + i * unat (rec_size p) - unat (rec_size p)))
                }
            }
        })"

definition bpf_prog_linfo__lfind :: "bpf_prog_linfo \<Rightarrow> u32 \<Rightarrow> u32 \<Rightarrow> nat option option" where
  "bpf_prog_linfo__lfind p insn_off nr_skip =
     (if nr_skip \<ge> nr_linfo p then Some None
      else
        let key = (\<lambda>i. rd32 (raw_linfo p)
                         (unat (nr_skip * rec_size p) + i * unat (rec_size p)))
        in do {
             a \<leftarrow> key 0;
             if insn_off < a then Some None
             else
               do {
                 i \<leftarrow> scan_linfo key insn_off (unat (nr_linfo p - nr_skip)) 0;
                 Some (Some (unat (nr_skip * rec_size p) + i * unat (rec_size p) - unat (rec_size p)))
               }
           })"

section \<open>What the split gives\<close>

text \<open>
  Function \<open>g\<close> owns the records from its first one on, as many as its count: they end where the next
  function begins (at \<open>stop\<close>), the first has the address of the function, and, for a function that is
  not the last one, the addresses increase.
\<close>

definition addr_at :: "u8 list \<Rightarrow> u32 \<Rightarrow> nat \<Rightarrow> u64 option" where
  "addr_at raw rsize i = rd64 raw (i * unat rsize)"

definition increasing :: "u8 list \<Rightarrow> u32 \<Rightarrow> nat \<Rightarrow> nat \<Rightarrow> bool" where
  "increasing raw rsize from to \<longleftrightarrow>
     (\<forall>j. from < j \<longrightarrow> j < to \<longrightarrow>
        (\<exists>a b. addr_at raw rsize (j - 1) = Some a \<and> addr_at raw rsize j = Some b \<and> a < b))"

definition func_starts ::
  "u8 list \<Rightarrow> u32 \<Rightarrow> u64 list \<Rightarrow> nat \<Rightarrow> nat \<Rightarrow> u32 list \<Rightarrow> bool" where
  "func_starts raw rsize ks n g fi \<longleftrightarrow> g < length fi \<and> g < length ks \<and> unat (fi ! g) < n \<and>
     addr_at raw rsize (unat (fi ! g)) = Some (ks ! g)"

definition func_done ::
  "u8 list \<Rightarrow> u32 \<Rightarrow> nat \<Rightarrow> u32 list \<Rightarrow> u32 list \<Rightarrow> bool" where
  "func_done raw rsize g pf fi \<longleftrightarrow> g < length pf \<and> Suc g < length fi \<and> 0 < unat (pf ! g) \<and>
     unat (fi ! g) + unat (pf ! g) = unat (fi ! Suc g) \<and>
     increasing raw rsize (unat (fi ! g)) (unat (fi ! Suc g))"

definition dissect_inv ::
  "u8 list \<Rightarrow> u32 \<Rightarrow> u64 list \<Rightarrow> u32 \<Rightarrow> u32 \<Rightarrow> nat \<Rightarrow> nat \<Rightarrow> nat \<Rightarrow> u64 \<Rightarrow> u32 list \<Rightarrow> u32 list \<Rightarrow> bool"
where
  "dissect_inv raw rsize ks n nf i prev f before pf fi \<longleftrightarrow>
     0 < f \<and> f \<le> unat nf \<and> prev < i \<and> i \<le> unat n \<and> fi ! 0 = 0 \<and>
     length pf = unat nf \<and> length fi = unat nf \<and>
     unat (fi ! (f - 1)) = prev \<and> addr_at raw rsize (i - 1) = Some before \<and>
     increasing raw rsize prev i \<and>
     (\<forall>g < f. func_starts raw rsize ks (unat n) g fi) \<and> (\<forall>g. Suc g < f \<longrightarrow> func_done raw rsize g pf fi)"

lemma increasing_extend:
  "increasing raw rsize from i \<Longrightarrow> addr_at raw rsize (i - 1) = Some a \<Longrightarrow> addr_at raw rsize i = Some b \<Longrightarrow>
     a < b \<Longrightarrow> increasing raw rsize from (i + 1)"
  by (auto simp: increasing_def less_Suc_eq)

lemma increasing_single: "increasing raw rsize i (i + 1)"
  by (simp add: increasing_def)

lemma func_starts_other:
  "func_starts raw rsize ks n g fi \<Longrightarrow> g \<noteq> f \<Longrightarrow> func_starts raw rsize ks n g (fi[f := x])"
  by (simp add: func_starts_def)

lemma func_done_other:
  "func_done raw rsize g pf fi \<Longrightarrow> Suc g < f \<Longrightarrow> func_done raw rsize g (pf[f - 1 := y]) (fi[f := x])"
  by (auto simp: func_done_def)

lemma arr_set_Some: "arr_set xs i x = Some ys \<longleftrightarrow> i < length xs \<and> ys = xs[i := x]"
  by (auto simp: arr_set_def)

lemma arr_get_Some: "arr_get xs i = Some y \<longleftrightarrow> i < length xs \<and> y = xs ! i"
  by (auto simp: arr_get_def)

lemma unat_of_nat_u32: "i \<le> unat (n :: u32) \<Longrightarrow> unat (of_nat i :: u32) = i"
  using unsigned_less [of n, where ?'a = nat] by (simp add: unat_of_nat_small)

lemma dissect_found:
  assumes inv: "dissect_inv raw rsize ks n nf i prev f before pf fi" and i: "i < unat n" "f < unat nf"
    and cur: "addr_at raw rsize i = Some cur" "f < length ks" "ks ! f = cur"
  shows "dissect_inv raw rsize ks n nf (i + 1) i (f + 1) cur
    (pf[f - 1 := of_nat i - of_nat prev]) (fi[f := of_nat i])"
proof -
  note d = inv [unfolded dissect_inv_def]
  have i': "unat (of_nat i :: u32) = i" using i by (intro unat_of_nat_u32 [of _ n]) simp
  have "(of_nat i - of_nat prev :: u32) = of_nat (i - prev)" using d by simp
  moreover have "unat (of_nat (i - prev) :: u32) = i - prev" using i by (intro unat_of_nat_u32 [of _ n]) simp
  ultimately have diff: "unat (of_nat i - of_nat prev :: u32) = i - prev" by simp
  have "func_done raw rsize (f - 1) (pf[f - 1 := of_nat i - of_nat prev]) (fi[f := of_nat i])"
    using d i i' diff by (auto simp: func_done_def)
  moreover have "func_starts raw rsize ks (unat n) f (fi[f := of_nat i])"
    using d i cur i' by (simp add: func_starts_def)
  moreover have "fi[f := of_nat i] ! 0 = 0" using d by simp
  ultimately show ?thesis
    using d i cur i' increasing_single func_starts_other func_done_other
    unfolding dissect_inv_def
    by (auto simp: less_Suc_eq)
qed

lemma dissect_loop_inv:
  assumes "dissect_loop raw rsize n nf ks kl i prev f before pf fi = Some (Inr (prev', f', pf', fi'))"
    "dissect_inv raw rsize ks n nf i prev f before pf fi"
  shows "\<exists>i' before'. dissect_inv raw rsize ks n nf i' prev' f' before' pf' fi'"
  using assms
proof (induction raw rsize n nf ks kl i prev f before pf fi rule: dissect_loop.induct)
  case (1 raw rsize n nf ks kl i prev f before pf fi)
  note run = "1.prems"(1) and inv = "1.prems"(2)
  show ?case
  proof (cases "i < unat n \<and> f < unat nf")
    case False
    then show ?thesis using run inv by (auto simp: dissect_loop.simps)
  next
    case True
    then obtain cur where cur: "rd64 raw (i * unat rsize) = Some cur" "f < length ks"
      using run by (auto simp: dissect_loop.simps arr_get_Some split: bind_splits)
    have addr: "addr_at raw rsize i = Some cur" using cur(1) by (simp add: addr_at_def)
    have get: "arr_get ks f = Some (ks ! f)" using cur(2) by (simp add: arr_get_Some)
    show ?thesis
    proof (cases "ks ! f = cur")
      case found: True
      have pf: "dissect_inv raw rsize ks n nf (i + 1) i (f + 1) cur
          (pf[f - 1 := of_nat i - of_nat prev]) (fi[f := of_nat i])"
        using dissect_found [OF inv _ _ addr cur(2) found] True by blast
      obtain pr len where "arr_get ks (f - 1) = Some pr" "arr_get kl (f - 1) = Some len"
        "\<not> before - pr + 1 > ucast len"
        "dissect_loop raw rsize n nf ks kl (i + 1) i (f + 1) cur
           (pf[f - 1 := of_nat i - of_nat prev]) (fi[f := of_nat i]) = Some (Inr (prev', f', pf', fi'))"
        "arr_set fi f (of_nat i) = Some (fi[f := of_nat i])"
        "arr_set pf (f - 1) (of_nat i - of_nat prev) = Some (pf[f - 1 := of_nat i - of_nat prev])"
        using run True found cur get
        by (subst (asm) dissect_loop.simps) (auto simp: arr_set_Some split: bind_splits if_splits)
      then show ?thesis
        using "1.IH"(1) [of cur "ks ! f" "fi[f := of_nat i]" pr len "pf[f - 1 := of_nat i - of_nat prev]"]
          True found cur get pf by auto
    next
      case other: False
      then have less: "\<not> cur \<le> before"
        "dissect_loop raw rsize n nf ks kl (i + 1) prev f cur pf fi = Some (Inr (prev', f', pf', fi'))"
        using run True cur get
        by (subst (asm) dissect_loop.simps; auto split: if_splits)+
      have "dissect_inv raw rsize ks n nf (i + 1) prev f cur pf fi"
        using inv True addr less(1) increasing_extend [of raw rsize prev i before cur]
        by (auto simp: dissect_inv_def)
      then show ?thesis
        using "1.IH"(2) [of cur "ks ! f"] True other less cur get by auto
    qed
  qed
qed

definition func_idx :: "bpf_prog_linfo \<Rightarrow> nat \<Rightarrow> nat" where
  "func_idx p g = unat (jited_linfo_func_idx p ! g)"

definition func_cnt :: "bpf_prog_linfo \<Rightarrow> nat \<Rightarrow> nat" where
  "func_cnt p g = unat (nr_jited_linfo_per_func p ! g)"

definition jited_addr :: "bpf_prog_linfo \<Rightarrow> nat \<Rightarrow> u64 option" where
  "jited_addr p = addr_at (raw_jited_linfo p) (jited_rec_size p)"

definition linfo_split :: "bpf_prog_linfo \<Rightarrow> u64 list \<Rightarrow> bool" where
  "linfo_split q ks \<longleftrightarrow>
     (\<forall>g < unat (nr_jited_func q).
        g < length ks \<and> jited_addr q (func_idx q g) = Some (ks ! g) \<and> 0 < func_cnt q g \<and>
        func_idx q g + func_cnt q g =
          (if Suc g < unat (nr_jited_func q) then func_idx q (Suc g) else unat (nr_linfo q)) \<and>
        (Suc g < unat (nr_jited_func q) \<longrightarrow>
           increasing (raw_jited_linfo q) (jited_rec_size q) (func_idx q g) (func_idx q (Suc g)))) \<and>
     func_idx q 0 = 0"

lemma linfo_split_sum:
  assumes "linfo_split q ks" "m \<le> unat (nr_jited_func q)"
  shows "sum_list (map (func_cnt q) [0..<m]) =
    (if m < unat (nr_jited_func q) then func_idx q m else if m = 0 then 0 else unat (nr_linfo q))"
  using assms(2)
proof (induction m)
  case 0
  then show ?case using assms(1) by (simp add: linfo_split_def)
next
  case (Suc m)
  then have "func_idx q m + func_cnt q m =
      (if Suc m < unat (nr_jited_func q) then func_idx q (Suc m) else unat (nr_linfo q))"
    using assms(1) by (simp add: linfo_split_def)
  with Suc show ?case by (auto split: if_splits)
qed

lemma dissect_run:
  assumes run: "dissect_jited_func p ks kl = Some (Inr q)"
    and pos: "nr_linfo p \<noteq> 0" "nr_jited_func p \<noteq> 0"
    and len: "length (nr_jited_linfo_per_func p) = unat (nr_jited_func p)"
      "length (jited_linfo_func_idx p) = unat (nr_jited_func p)"
  shows "linfo_split q ks" "raw_linfo q = raw_linfo p" "rec_size q = rec_size p"
    "nr_linfo q = nr_linfo p" "nr_jited_func q = nr_jited_func p"
    "raw_jited_linfo q = raw_jited_linfo p" "jited_rec_size q = jited_rec_size p"
    "length (nr_jited_linfo_per_func q) = unat (nr_jited_func p)"
    "length (jited_linfo_func_idx q) = unat (nr_jited_func p)"
proof -
  let ?nf = "nr_jited_func p" and ?n = "nr_linfo p"
  let ?raw = "raw_jited_linfo p" and ?rs = "jited_rec_size p"
  obtain addr0 prev pf fi where r: "ks \<noteq> []" "rd64 ?raw 0 = Some addr0" "ks ! 0 = addr0"
    "dissect_loop ?raw ?rs ?n ?nf ks kl 1 0 1 addr0 (nr_jited_linfo_per_func p)
       ((jited_linfo_func_idx p)[0 := 0]) = Some (Inr (prev, unat ?nf, pf, fi))"
    "q = p\<lparr>nr_jited_linfo_per_func := pf[unat (?nf - 1) := ?n - of_nat prev], jited_linfo_func_idx := fi\<rparr>"
    using run by (auto simp: dissect_jited_func_def arr_get_Some arr_set_Some split: bind_splits
        if_splits sum.splits prod.splits)
  have n: "0 < unat ?n" and nf: "0 < unat ?nf" using pos by (simp_all add: unat_gt_0)
  have "dissect_inv ?raw ?rs ks ?n ?nf 1 0 1 addr0 (nr_jited_linfo_per_func p)
       ((jited_linfo_func_idx p)[0 := 0])"
    using r n nf len by (auto simp: dissect_inv_def func_starts_def addr_at_def increasing_def)
  then obtain i before where inv: "dissect_inv ?raw ?rs ks ?n ?nf i prev (unat ?nf) before pf fi"
    using dissect_loop_inv [OF r(4)] by blast
  note d = inv [unfolded dissect_inv_def]
  have nf1: "unat (?nf - 1) = unat ?nf - 1" using nf by (simp add: unat_minus_one pos)
  have diff: "unat (?n - of_nat prev) = unat ?n - prev"
  proof -
    have "unat (of_nat prev :: u32) = prev" using d by (intro unat_of_nat_u32 [of _ ?n]) simp
    then show ?thesis using d by (subst unat_sub) (auto simp: word_le_nat_alt)
  qed
  have q: "func_idx q g = unat (fi ! g)"
    "func_cnt q g = unat ((pf[unat ?nf - 1 := ?n - of_nat prev]) ! g)"
    "jited_addr q = addr_at ?raw ?rs" for g
    by (simp_all add: func_idx_def func_cnt_def jited_addr_def r(5) nf1)
  show "raw_linfo q = raw_linfo p" "rec_size q = rec_size p"
    "nr_linfo q = nr_linfo p" "nr_jited_func q = nr_jited_func p"
    "raw_jited_linfo q = raw_jited_linfo p" "jited_rec_size q = jited_rec_size p"
    "length (nr_jited_linfo_per_func q) = unat (nr_jited_func p)"
    "length (jited_linfo_func_idx q) = unat (nr_jited_func p)"
    using d by (simp_all add: r(5))
  have per: "g < length ks \<and> addr_at ?raw ?rs (unat (fi ! g)) = Some (ks ! g) \<and> 0 < func_cnt q g \<and>
      unat (fi ! g) + func_cnt q g = (if Suc g < unat ?nf then unat (fi ! Suc g) else unat ?n) \<and>
      (Suc g < unat ?nf \<longrightarrow> increasing ?raw ?rs (unat (fi ! g)) (unat (fi ! Suc g)))"
    if g: "g < unat ?nf" for g
  proof (cases "Suc g < unat ?nf")
    case True
    then show ?thesis using d g by (auto simp: q func_done_def func_starts_def)
  next
    case False
    then have "g = unat ?nf - 1" using g by simp
    then show ?thesis using d g diff by (auto simp: q func_starts_def)
  qed
  then show "linfo_split q ks"
    using d by (simp add: linfo_split_def q(1,3)) (simp add: r(5))
qed

section \<open>Searching\<close>

lemma scan_linfo_Some:
  assumes "scan_linfo key x n pos = Some r"
  shows "pos \<le> r" "r \<le> pos + n" "\<And>i. pos \<le> i \<Longrightarrow> i < r \<Longrightarrow> \<exists>a. key i = Some a \<and> a \<le> x"
    "r < pos + n \<Longrightarrow> \<exists>b. key r = Some b \<and> x < b"
proof -
  have "pos \<le> r \<and> r \<le> pos + n \<and> (\<forall>i. pos \<le> i \<longrightarrow> i < r \<longrightarrow> (\<exists>a. key i = Some a \<and> a \<le> x)) \<and>
    (r < pos + n \<longrightarrow> (\<exists>b. key r = Some b \<and> x < b))"
    using assms
  proof (induction n arbitrary: pos)
    case (Suc n)
    then obtain a where a: "key pos = Some a" by (auto split: option.splits)
    show ?case
    proof (cases "x < a")
      case True
      then show ?thesis using Suc.prems a by simp
    next
      case False
      then have "scan_linfo key x n (Suc pos) = Some r" using Suc.prems a by simp
      note IH = Suc.IH [OF this]
      have "\<exists>a. key i = Some a \<and> a \<le> x" if "pos \<le> i" "i < r" for i
        using IH a False that by (cases "i = pos") auto
      with IH show ?thesis by auto
    qed
  qed simp
  then show "pos \<le> r" "r \<le> pos + n" "\<And>i. pos \<le> i \<Longrightarrow> i < r \<Longrightarrow> \<exists>a. key i = Some a \<and> a \<le> x"
    "r < pos + n \<Longrightarrow> \<exists>b. key r = Some b \<and> x < b"
    by auto
qed

lemma scan_linfo_total:
  "(\<And>i. pos \<le> i \<Longrightarrow> i < pos + n \<Longrightarrow> \<exists>a. key i = Some a) \<Longrightarrow> \<exists>r. scan_linfo key x n pos = Some r"
proof (induction n arbitrary: pos)
  case (Suc n)
  obtain a where "key pos = Some a" using Suc.prems [of pos] by auto
  moreover have "\<exists>r. scan_linfo key x n (Suc pos) = Some r" by (rule Suc.IH) (auto intro: Suc.prems)
  ultimately show ?case by auto
qed simp

text \<open>
  The result of a search over the records \<open>from \<le> j < to\<close>: nothing when \<open>x\<close> lies before the first one,
  otherwise the record up to which no key exceeds \<open>x\<close>, and whose successor does.
\<close>

definition found_record ::
  "(nat \<Rightarrow> 'w::linorder option) \<Rightarrow> 'w \<Rightarrow> nat \<Rightarrow> nat \<Rightarrow> nat option \<Rightarrow> bool" where
  "found_record key x from to res \<longleftrightarrow>
     (case res of
        None \<Rightarrow> \<exists>a. key from = Some a \<and> x < a
      | Some j \<Rightarrow> from \<le> j \<and> j < to \<and> (\<forall>i. from \<le> i \<longrightarrow> i \<le> j \<longrightarrow> (\<exists>a. key i = Some a \<and> a \<le> x)) \<and>
          (Suc j < to \<longrightarrow> (\<exists>b. key (Suc j) = Some b \<and> x < b)))"

lemma search_records:
  assumes key: "\<And>i. i < n \<Longrightarrow> \<exists>a. key (from + i) = Some a" and n: "0 < n"
  shows "\<exists>res. found_record key x from (from + n) res \<and>
    (\<exists>a. key from = Some a \<and>
       (if x < a then res = None
        else \<exists>j. scan_linfo (\<lambda>i. key (from + i)) x n 0 = Some (Suc j) \<and> res = Some (from + j)))"
proof -
  obtain a where a: "key from = Some a" using key [OF n] by auto
  show ?thesis
  proof (cases "x < a")
    case True
    then show ?thesis using a by (intro exI [of _ None]) (simp add: found_record_def)
  next
    case False
    obtain r where r: "scan_linfo (\<lambda>i. key (from + i)) x n 0 = Some r"
      using scan_linfo_total [of 0 n "\<lambda>i. key (from + i)" x] key by auto
    note sc = scan_linfo_Some [OF r]
    have "r \<noteq> 0"
    proof
      assume "r = 0"
      with sc(4) n a False show False by auto
    qed
    then obtain j where j: "r = Suc j" by (cases r) auto
    have "found_record key x from (from + n) (Some (from + j))"
      unfolding found_record_def option.case
    proof (intro conjI allI impI)
      fix i assume "from \<le> i" "i \<le> from + j"
      then show "\<exists>a. key i = Some a \<and> a \<le> x" using sc(3) [of "i - from"] j by auto
    qed (use sc(2,4) j in auto)
    then show ?thesis using a False r j by auto
  qed
qed

lemma unat_mult_u32: "unat a * unat b < 2 ^ 32 \<Longrightarrow> unat (a * b :: u32) = unat a * unat b"
  by (simp add: unat_word_ariths)

lemma record_inside:
  assumes "length raw = n * rs" "w \<le> rs" "i < n"
  shows "i * rs + w \<le> length raw"
proof -
  have "Suc i * rs \<le> n * rs" using assms(3) by (intro mult_le_mono1) simp
  then show ?thesis using assms by simp
qed

definition insn_at :: "bpf_prog_linfo \<Rightarrow> nat \<Rightarrow> u32 option" where
  "insn_at p i = rd32 (raw_linfo p) (i * unat (rec_size p))"

text \<open>What the constructor establishes about the sizes; the byte offsets fit 32 bits.\<close>

definition linfo_sizes :: "bpf_prog_linfo \<Rightarrow> bool" where
  "linfo_sizes p \<longleftrightarrow>
     length (raw_linfo p) = unat (nr_linfo p) * unat (rec_size p) \<and> 4 \<le> unat (rec_size p) \<and>
     unat (nr_linfo p) * unat (rec_size p) < 2 ^ 32 \<and>
     (nr_jited_func p \<noteq> 0 \<longrightarrow>
        length (raw_jited_linfo p) = unat (nr_linfo p) * unat (jited_rec_size p) \<and>
        8 \<le> unat (jited_rec_size p) \<and> unat (nr_linfo p) * unat (jited_rec_size p) < 2 ^ 32 \<and>
        length (nr_jited_linfo_per_func p) = unat (nr_jited_func p) \<and>
        length (jited_linfo_func_idx p) = unat (nr_jited_func p))"

text \<open>The search by instruction. On records whose sizes are consistent it never reads outside the
  array; it returns null exactly when nothing is left after the skipped records or the instruction lies
  before the first of them, and otherwise the offset of the record that covers it: no record from the
  first up to it starts behind the instruction, and the next one does.\<close>

lemma lfind_correct:
  assumes "linfo_sizes p"
  shows "(nr_skip \<ge> nr_linfo p \<and> bpf_prog_linfo__lfind p x nr_skip = Some None) \<or>
    (nr_skip < nr_linfo p \<and>
     (\<exists>res. found_record (insn_at p) x (unat nr_skip) (unat (nr_linfo p)) res \<and>
        bpf_prog_linfo__lfind p x nr_skip = Some (map_option (\<lambda>j. j * unat (rec_size p)) res)))"
proof (cases "nr_skip \<ge> nr_linfo p")
  case True
  then show ?thesis by (simp add: bpf_prog_linfo__lfind_def)
next
  case False
  let ?s = "unat nr_skip" and ?n = "unat (nr_linfo p)" and ?r = "unat (rec_size p)"
  note sizes = assms [unfolded linfo_sizes_def]
  have lt: "?s < ?n" using False by (simp add: word_le_nat_alt)
  then have le: "?s * ?r \<le> ?n * ?r" by simp
  then have start: "unat (nr_skip * rec_size p) = ?s * ?r"
    using sizes by (intro unat_mult_u32) linarith
  have cnt: "unat (nr_linfo p - nr_skip) = ?n - ?s" using lt by (simp add: unat_sub word_le_nat_alt)
  have keyeq: "(\<lambda>i. rd32 (raw_linfo p) (unat (nr_skip * rec_size p) + i * ?r)) = (\<lambda>i. insn_at p (?s + i))"
    by (simp add: insn_at_def start add_mult_distrib)
  have "\<exists>a. insn_at p (?s + i) = Some a" if "i < ?n - ?s" for i
    using record_inside [of "raw_linfo p" ?n ?r 4 "?s + i"] sizes that
    by (auto simp: insn_at_def intro: rd_inside(3))
  then obtain res a where res: "found_record (insn_at p) x ?s (?s + (?n - ?s)) res"
    "insn_at p ?s = Some a"
    "if x < a then res = None
     else \<exists>j. scan_linfo (\<lambda>i. insn_at p (?s + i)) x (?n - ?s) 0 = Some (Suc j) \<and> res = Some (?s + j)"
    using search_records [of "?n - ?s" "insn_at p" ?s x] lt by auto
  have "bpf_prog_linfo__lfind p x nr_skip = Some (map_option (\<lambda>j. j * ?r) res)"
  proof (cases "x < a")
    case True
    then show ?thesis using False res(2,3) by (simp add: bpf_prog_linfo__lfind_def keyeq)
  next
    case nl: False
    then obtain j where j: "scan_linfo (\<lambda>i. insn_at p (?s + i)) x (?n - ?s) 0 = Some (Suc j)"
      "res = Some (?s + j)" using res(3) by auto
    have "bpf_prog_linfo__lfind p x nr_skip =
        Some (Some (unat (nr_skip * rec_size p) + Suc j * ?r - ?r))"
      using False nl res(2) j(1) by (simp add: bpf_prog_linfo__lfind_def keyeq cnt)
    then show ?thesis by (simp add: start j(2) add_mult_distrib)
  qed
  moreover have "?s + (?n - ?s) = ?n" using lt by simp
  ultimately show ?thesis using res(1) False by (auto simp: not_le)
qed

lemma split_inside:
  assumes "linfo_split p ks" "g < unat (nr_jited_func p)"
  shows "func_idx p g + func_cnt p g \<le> unat (nr_linfo p)"
proof -
  have "func_idx p g + func_cnt p g \<le> unat (nr_linfo p)" if "g + d = unat (nr_jited_func p) - 1" for d g
    using that
  proof (induction d arbitrary: g)
    case 0
    then show ?case using assms by (auto simp: linfo_split_def)
  next
    case (Suc d)
    then have "func_idx p (Suc g) + func_cnt p (Suc g) \<le> unat (nr_linfo p)" by simp
    moreover have "Suc g < unat (nr_jited_func p)" using Suc.prems by linarith
    then have "func_idx p g + func_cnt p g = func_idx p (Suc g)"
      using assms(1) by (simp add: linfo_split_def)
    ultimately show ?case by simp
  qed
  from this [of g "unat (nr_jited_func p) - 1 - g"] assms(2) show ?thesis by simp
qed

text \<open>C33: the search by address. On line information that was split by function and whose arrays are of less
  than 4 GB (the 32-bit products of counts and record sizes do not wrap around), a search in a function
  stays inside its records and finds the one that covers the address: from the first record considered up to
  it no address exceeds the one looked for, and that of its successor in the function does. It returns null exactly for a function or a
  number of skipped records out of range, or an address before the first record considered.\<close>

theorem lfind_addr_func_correct:
  fixes func nr_skip :: u32
  assumes "linfo_sizes p" "linfo_split p ks" "nr_jited_func p \<noteq> 0"
  defines "g \<equiv> unat func" and "sk \<equiv> unat nr_skip"
  shows "(func \<ge> nr_jited_func p \<or> sk \<ge> func_cnt p g) \<and>
      bpf_prog_linfo__lfind_addr_func p x func nr_skip = Some None \<or>
    func < nr_jited_func p \<and> sk < func_cnt p g \<and>
     (\<exists>res. found_record (jited_addr p) x (func_idx p g + sk) (func_idx p g + func_cnt p g) res \<and>
        bpf_prog_linfo__lfind_addr_func p x func nr_skip =
          Some (map_option (\<lambda>j. j * unat (rec_size p)) res))"
proof (cases "func < nr_jited_func p")
  case False
  then show ?thesis by (simp add: bpf_prog_linfo__lfind_addr_func_def not_less)
next
  case True
  let ?n = "unat (nr_linfo p)" and ?r = "unat (rec_size p)" and ?jr = "unat (jited_rec_size p)"
  note sizes = assms(1) [unfolded linfo_sizes_def]
  have g: "g < unat (nr_jited_func p)" using True by (simp add: g_def word_less_nat_alt)
  have arr: "arr_get (nr_jited_linfo_per_func p) g = Some (nr_jited_linfo_per_func p ! g)"
    "arr_get (jited_linfo_func_idx p) g = Some (jited_linfo_func_idx p ! g)"
    using g sizes assms(3) by (simp_all add: arr_get_Some)
  show ?thesis
  proof (cases "sk < func_cnt p g")
    case False
    then show ?thesis using True arr
      by (simp add: bpf_prog_linfo__lfind_addr_func_def func_cnt_def word_le_nat_alt sk_def
          flip: g_def not_less)
  next
    case sk: True
    let ?f = "func_idx p g + sk" and ?c = "func_cnt p g - sk"
    have inside: "func_idx p g + func_cnt p g \<le> ?n" by (rule split_inside [OF assms(2) g])
    have n32: "?n < 2 ^ 32" using unsigned_less [of "nr_linfo p", where ?'a = nat] by simp
    have start: "unat (jited_linfo_func_idx p ! g + nr_skip) = ?f"
      using inside sk n32 by (simp add: unat_word_ariths func_idx_def sk_def)
    have "?f \<le> ?n" using inside sk by simp
    then have "?f * ?jr < 2 ^ 32" "?f * ?r < 2 ^ 32"
      using sizes assms(3) by (auto intro: le_less_trans [OF mult_le_mono1])
    then have mult: "unat ((jited_linfo_func_idx p ! g + nr_skip) * jited_rec_size p) = ?f * ?jr"
      "unat ((jited_linfo_func_idx p ! g + nr_skip) * rec_size p) = ?f * ?r"
      by (subst unat_mult_u32; simp add: start)+
    have cnt: "unat (nr_jited_linfo_per_func p ! g - nr_skip) = ?c"
      using sk by (simp add: unat_sub word_le_nat_alt func_cnt_def sk_def)
    have keyeq: "(\<lambda>i. rd64 (raw_jited_linfo p) (?f * ?jr + i * ?jr)) = (\<lambda>i. jited_addr p (?f + i))"
      by (simp add: jited_addr_def addr_at_def add_mult_distrib)
    have key0: "rd64 (raw_jited_linfo p) (?f * ?jr) = jited_addr p ?f"
      by (simp add: jited_addr_def addr_at_def)
    have "\<exists>a. jited_addr p (?f + i) = Some a" if "i < ?c" for i
      using record_inside [of "raw_jited_linfo p" ?n ?jr 8 "?f + i"] sizes assms(3) that inside
      by (auto simp: jited_addr_def addr_at_def rd64_def)
    then obtain res a where res: "found_record (jited_addr p) x ?f (?f + ?c) res"
      "jited_addr p ?f = Some a"
      "if x < a then res = None
       else \<exists>j. scan_linfo (\<lambda>i. jited_addr p (?f + i)) x ?c 0 = Some (Suc j) \<and> res = Some (?f + j)"
      using search_records [of ?c "jited_addr p" ?f x] sk by auto
    have ns: "\<not> nr_skip \<ge> nr_jited_linfo_per_func p ! g"
      using sk by (simp add: word_le_nat_alt func_cnt_def sk_def)
    have "bpf_prog_linfo__lfind_addr_func p x func nr_skip = Some (map_option (\<lambda>j. j * ?r) res)"
    proof (cases "x < a")
      case xa: True
      then show ?thesis using True res(2,3) arr ns
        by (simp add: bpf_prog_linfo__lfind_addr_func_def Let_def mult keyeq key0 not_le flip: g_def)
    next
      case nl: False
      then obtain j where j: "scan_linfo (\<lambda>i. jited_addr p (?f + i)) x ?c 0 = Some (Suc j)"
        "res = Some (?f + j)" using res(3) by auto
      have "bpf_prog_linfo__lfind_addr_func p x func nr_skip = Some (Some (?f * ?r + Suc j * ?r - ?r))"
        using True nl res(2) j(1) arr ns
        by (simp add: bpf_prog_linfo__lfind_addr_func_def Let_def mult keyeq key0 cnt not_le flip: g_def)
      then show ?thesis by (simp add: j(2) add_mult_distrib)
    qed
    moreover have "?f + ?c = func_idx p g + func_cnt p g" using sk by simp
    ultimately show ?thesis using res(1) True sk by auto
  qed
qed

section \<open>Construction and samples\<close>

lemma linfo_new_run:
  assumes "bpf_prog_linfo__new allocs junk info = Some (Some q)" "nr_jited_func q \<noteq> 0"
  obtains ks kl p where "jited_ksyms info = Some ks" "jited_func_lens info = Some kl"
    "dissect_jited_func p ks kl = Some (Inr q)" "nr_linfo p \<noteq> 0" "nr_jited_func p \<noteq> 0"
    "length (nr_jited_linfo_per_func p) = unat (nr_jited_func p)"
    "length (jited_linfo_func_idx p) = unat (nr_jited_func p)"
    "length (raw_linfo p) = unat (nr_linfo p) * unat (rec_size p)" "4 \<le> unat (rec_size p)"
    "length (raw_jited_linfo p) = unat (nr_linfo p) * unat (jited_rec_size p)"
    "8 \<le> unat (jited_rec_size p)"
proof -
  obtain raw ks kl jited raw_jited where r: "nr_line_info info \<noteq> 0" "\<not> line_info_rec_size info < 4"
    "copy_bytes (line_info info) (unat (nr_line_info info) * unat (line_info_rec_size info)) = Some raw"
    "jited_line_info info = Some jited" "jited_ksyms info = Some ks" "jited_func_lens info = Some kl"
    "nr_jited_ksyms info \<noteq> 0" "\<not> jited_line_info_rec_size info < 8"
    "copy_bytes jited (unat (nr_line_info info) * unat (jited_line_info_rec_size info)) = Some raw_jited"
    "dissect_jited_func \<lparr>raw_linfo = raw, raw_jited_linfo = raw_jited,
       nr_jited_linfo_per_func = replicate (unat (nr_jited_ksyms info)) junk,
       jited_linfo_func_idx = replicate (unat (nr_jited_ksyms info)) junk,
       nr_linfo = nr_line_info info, nr_jited_func = nr_jited_ksyms info,
       rec_size = line_info_rec_size info, jited_rec_size = jited_line_info_rec_size info\<rparr> ks kl =
     Some (Inr q)"
    using assms unfolding bpf_prog_linfo__new_def Let_def
    by (auto split: if_splits bind_splits option.splits sum.splits)
  from r(3,9) have "length raw = unat (nr_line_info info) * unat (line_info_rec_size info)"
    "length raw_jited = unat (nr_line_info info) * unat (jited_line_info_rec_size info)"
    by (auto simp: copy_bytes_def split: if_splits)
  with r show thesis by (intro that [OF r(5,6,10)]) (simp_all add: word_less_nat_alt not_less)
qed

text \<open>C32: line information that the constructor accepts is split by function: the functions own
  consecutive, non-empty runs of records that together are all the records, each run starts at the
  address of its function, and within every function but the last the addresses increase.\<close>

theorem linfo_new_split:
  assumes "bpf_prog_linfo__new allocs junk info = Some (Some q)" "nr_jited_func q \<noteq> 0"
  shows "\<exists>ks. jited_ksyms info = Some ks \<and> linfo_split q ks \<and>
    sum_list (map (func_cnt q) [0..<unat (nr_jited_func q)]) = unat (nr_linfo q)"
proof (rule linfo_new_run [OF assms])
  fix ks kl p
  assume "jited_ksyms info = Some ks" "dissect_jited_func p ks kl = Some (Inr q)" "nr_linfo p \<noteq> 0"
    "nr_jited_func p \<noteq> 0" "length (nr_jited_linfo_per_func p) = unat (nr_jited_func p)"
    "length (jited_linfo_func_idx p) = unat (nr_jited_func p)"
  then have "jited_ksyms info = Some ks" "linfo_split q ks" using dissect_run(1) [of p ks kl q] by simp_all
  moreover have "0 < unat (nr_jited_func q)" using assms(2) by (simp add: unat_gt_0)
  ultimately show ?thesis using linfo_split_sum [of q ks "unat (nr_jited_func q)"] by simp
qed

text \<open>Two functions with two records each.\<close>

definition enc64 :: "u64 \<Rightarrow> u8 list" where
  "enc64 x = enc32 (ucast x) @ enc32 (ucast (drop_bit 32 x))"

definition sample_info :: bpf_prog_info where
  "sample_info =
     \<lparr>nr_line_info = 4, line_info_rec_size = 8,
      line_info = concat (map (\<lambda>i. enc32 i @ [0, 0, 0, 0]) [0, 2, 5, 9]),
      nr_jited_line_info = 4, jited_line_info_rec_size = 8,
      jited_line_info = Some (concat (map enc64 [100, 104, 200, 208])),
      nr_jited_ksyms = 2, jited_ksyms = Some [100, 200],
      nr_jited_func_lens = 2, jited_func_lens = Some [10, 20]\<rparr>"

definition sample_linfo :: bpf_prog_linfo where
  "sample_linfo =
     \<lparr>raw_linfo = concat (map (\<lambda>i. enc32 i @ [0, 0, 0, 0]) [0, 2, 5, 9]),
      raw_jited_linfo = concat (map enc64 [100, 104, 200, 208]),
      nr_jited_linfo_per_func = [2, 2], jited_linfo_func_idx = [0, 2], nr_linfo = 4,
      nr_jited_func = 2, rec_size = 8, jited_rec_size = 8\<rparr>"

lemma sample_new: "bpf_prog_linfo__new (\<lambda>i. True) 0 sample_info = Some (Some sample_linfo)"
  by (simp add: bpf_prog_linfo__new_def sample_info_def sample_linfo_def copy_bytes_def enc64_def enc32_def
      dissect_jited_func_def arr_get_def arr_set_def rd64_def le64_def dissect_loop.simps) (simp add: numeral_2_eq_2)

theorem linfo_new_split_witness:
  "\<exists>ks. jited_ksyms sample_info = Some ks \<and> linfo_split sample_linfo ks \<and>
    sum_list (map (func_cnt sample_linfo) [0..<unat (nr_jited_func sample_linfo)]) =
      unat (nr_linfo sample_linfo)"
  by (rule linfo_new_split [OF sample_new]) (simp add: sample_linfo_def)

lemma sample_sizes: "linfo_sizes sample_linfo" "nr_jited_func sample_linfo \<noteq> 0"
  by (simp_all add: linfo_sizes_def sample_linfo_def enc64_def)

lemma sample_split: "\<exists>ks. linfo_split sample_linfo ks"
  by (rule linfo_new_run [OF sample_new sample_sizes(2)]) (blast intro: dissect_run(1))

theorem lfind_addr_func_correct_witness:
  "(1 \<ge> nr_jited_func sample_linfo \<or> unat (0 :: u32) \<ge> func_cnt sample_linfo (unat (1 :: u32))) \<and>
      bpf_prog_linfo__lfind_addr_func sample_linfo 205 1 0 = Some None \<or>
    1 < nr_jited_func sample_linfo \<and> unat (0 :: u32) < func_cnt sample_linfo (unat (1 :: u32)) \<and>
     (\<exists>res. found_record (jited_addr sample_linfo) 205 (func_idx sample_linfo (unat (1 :: u32)) + unat (0 :: u32))
          (func_idx sample_linfo (unat (1 :: u32)) + func_cnt sample_linfo (unat (1 :: u32))) res \<and>
        bpf_prog_linfo__lfind_addr_func sample_linfo 205 1 0 =
          Some (map_option (\<lambda>j. j * unat (rec_size sample_linfo)) res))"
  using sample_split by (elim exE) (rule lfind_addr_func_correct [OF sample_sizes(1) _ sample_sizes(2)])

text \<open>The promise to ensure that the addresses increase within a function does not cover the last
  function: once its start is found the loop ends, so a program with one function is accepted whatever
  addresses follow the first, and the length of that function is not compared with them either.\<close>

theorem dissect_last_unchecked:
  assumes "nr_jited_func p = 1" "rd64 (raw_jited_linfo p) 0 = Some a"
    "length (nr_jited_linfo_per_func p) = 1" "length (jited_linfo_func_idx p) = 1"
  shows "dissect_jited_func p [a] kl =
    Some (Inr (p\<lparr>nr_jited_linfo_per_func := [nr_linfo p], jited_linfo_func_idx := [0]\<rparr>))"
proof -
  obtain x y where "nr_jited_linfo_per_func p = [x]" "jited_linfo_func_idx p = [y]"
    using assms(3,4) by (auto simp: length_Suc_conv)
  then show ?thesis using assms(1,2)
    by (simp add: dissect_jited_func_def arr_get_def arr_set_def dissect_loop.simps)
qed

theorem dissect_last_unchecked_witness:
  "dissect_jited_func (sample_linfo\<lparr>raw_jited_linfo := concat (map enc64 [100, 50, 90, 10]), nr_jited_func := 1,
      nr_jited_linfo_per_func := [0], jited_linfo_func_idx := [0]\<rparr>) [100] [1] =
    Some (Inr (sample_linfo\<lparr>raw_jited_linfo := concat (map enc64 [100, 50, 90, 10]), nr_jited_func := 1,
      nr_jited_linfo_per_func := [nr_linfo sample_linfo], jited_linfo_func_idx := [0]\<rparr>))"
  using dissect_last_unchecked [of "sample_linfo\<lparr>raw_jited_linfo := concat (map enc64 [100, 50, 90, 10]),
      nr_jited_func := 1, nr_jited_linfo_per_func := [0], jited_linfo_func_idx := [0]\<rparr>" 100 "[1]"]
  by (simp add: rd64_def le64_def enc64_def enc32_def)

end
