(* ===== verification/Btf.thy ===== *)
theory Btf
  imports Byte_Buffer
begin

text \<open>
  Parsing and querying type information in BTF format, \<open>libbpf/src/btf.c\<close> (up to line 787), \<open>btf.h\<close>
  and \<open>include/uapi/linux/btf.h\<close>. The data stays a byte buffer, a \<open>struct btf_type *\<close> is an offset into
  it or the address of the static \<open>btf_void\<close>, and every read that leaves the buffer makes the operation
  \<open>None\<close>. Kinds and the fields of \<open>info\<close> are machine words as in the format.
\<close>

section \<open>The format\<close>

definition BTF_MAGIC :: u16 where "BTF_MAGIC = 0xeB9F"
definition BTF_VERSION :: u8 where "BTF_VERSION = 1"
definition BTF_MAX_NR_TYPES :: u32 where "BTF_MAX_NR_TYPES = 0x7fffffff"
definition BTF_MAX_STR_OFFSET :: u32 where "BTF_MAX_STR_OFFSET = 0x7fffffff"

definition BTF_KIND_UNKN :: u16 where "BTF_KIND_UNKN = 0"
definition BTF_KIND_INT :: u16 where "BTF_KIND_INT = 1"
definition BTF_KIND_PTR :: u16 where "BTF_KIND_PTR = 2"
definition BTF_KIND_ARRAY :: u16 where "BTF_KIND_ARRAY = 3"
definition BTF_KIND_STRUCT :: u16 where "BTF_KIND_STRUCT = 4"
definition BTF_KIND_UNION :: u16 where "BTF_KIND_UNION = 5"
definition BTF_KIND_ENUM :: u16 where "BTF_KIND_ENUM = 6"
definition BTF_KIND_FWD :: u16 where "BTF_KIND_FWD = 7"
definition BTF_KIND_TYPEDEF :: u16 where "BTF_KIND_TYPEDEF = 8"
definition BTF_KIND_VOLATILE :: u16 where "BTF_KIND_VOLATILE = 9"
definition BTF_KIND_CONST :: u16 where "BTF_KIND_CONST = 10"
definition BTF_KIND_RESTRICT :: u16 where "BTF_KIND_RESTRICT = 11"
definition BTF_KIND_FUNC :: u16 where "BTF_KIND_FUNC = 12"
definition BTF_KIND_FUNC_PROTO :: u16 where "BTF_KIND_FUNC_PROTO = 13"
definition BTF_KIND_VAR :: u16 where "BTF_KIND_VAR = 14"
definition BTF_KIND_DATASEC :: u16 where "BTF_KIND_DATASEC = 15"

lemmas btf_kinds = BTF_KIND_UNKN_def BTF_KIND_INT_def BTF_KIND_PTR_def BTF_KIND_ARRAY_def
  BTF_KIND_STRUCT_def BTF_KIND_UNION_def BTF_KIND_ENUM_def BTF_KIND_FWD_def BTF_KIND_TYPEDEF_def
  BTF_KIND_VOLATILE_def BTF_KIND_CONST_def BTF_KIND_RESTRICT_def BTF_KIND_FUNC_def
  BTF_KIND_FUNC_PROTO_def BTF_KIND_VAR_def BTF_KIND_DATASEC_def

definition BTF_INFO_KIND :: "u32 \<Rightarrow> u32" where "BTF_INFO_KIND info = and (drop_bit 24 info) 0x0f"
definition BTF_INFO_VLEN :: "u32 \<Rightarrow> u32" where "BTF_INFO_VLEN info = and info 0xffff"
definition BTF_INFO_KFLAG :: "u32 \<Rightarrow> u32" where "BTF_INFO_KFLAG info = drop_bit 31 info"

text \<open>The three words of \<open>struct btf_type\<close>; the last one is the union of \<open>size\<close> and \<open>type\<close>.\<close>

definition BTF_MEMBER_BITFIELD_SIZE :: "u32 \<Rightarrow> u32" where "BTF_MEMBER_BITFIELD_SIZE val = drop_bit 24 val"
definition BTF_MEMBER_BIT_OFFSET :: "u32 \<Rightarrow> u32" where "BTF_MEMBER_BIT_OFFSET val = and val 0xffffff"

record btf_type =
  name_off :: u32
  info :: u32
  size_type :: u32

record btf_header =
  magic :: u16
  version :: u8
  hflags :: u8
  hdr_len :: u32
  type_off :: u32
  type_len :: u32
  str_off :: u32
  str_len :: u32

section \<open>Accessors\<close>

definition btf_kind :: "btf_type \<Rightarrow> u16" where "btf_kind t = ucast (BTF_INFO_KIND (info t))"
definition btf_vlen :: "btf_type \<Rightarrow> u16" where "btf_vlen t = ucast (BTF_INFO_VLEN (info t))"
definition btf_kflag :: "btf_type \<Rightarrow> bool" where "btf_kflag t \<longleftrightarrow> BTF_INFO_KFLAG (info t) \<noteq> 0"

definition btf_is_struct :: "btf_type \<Rightarrow> bool" where "btf_is_struct t \<longleftrightarrow> btf_kind t = BTF_KIND_STRUCT"
definition btf_is_fwd :: "btf_type \<Rightarrow> bool" where "btf_is_fwd t \<longleftrightarrow> btf_kind t = BTF_KIND_FWD"
definition btf_is_typedef :: "btf_type \<Rightarrow> bool" where "btf_is_typedef t \<longleftrightarrow> btf_kind t = BTF_KIND_TYPEDEF"
definition btf_is_var :: "btf_type \<Rightarrow> bool" where "btf_is_var t \<longleftrightarrow> btf_kind t = BTF_KIND_VAR"

definition btf_is_mod :: "btf_type \<Rightarrow> bool" where
  "btf_is_mod t \<longleftrightarrow>
     btf_kind t = BTF_KIND_VOLATILE \<or> btf_kind t = BTF_KIND_CONST \<or> btf_kind t = BTF_KIND_RESTRICT"

text \<open>Reading the structures at an offset.\<close>

definition rd_type :: "u8 list \<Rightarrow> nat \<Rightarrow> btf_type option" where
  "rd_type buf p =
     do {
       n \<leftarrow> rd32 buf p;
       i \<leftarrow> rd32 buf (p + 4);
       s \<leftarrow> rd32 buf (p + 8);
       Some \<lparr>name_off = n, info = i, size_type = s\<rparr>
     }"

definition rd_header :: "u8 list \<Rightarrow> btf_header option" where
  "rd_header buf =
     do {
       m \<leftarrow> rd16 buf 0;
       v \<leftarrow> rd8 buf 2;
       f \<leftarrow> rd8 buf 3;
       hl \<leftarrow> rd32 buf 4;
       tof \<leftarrow> rd32 buf 8;
       tl \<leftarrow> rd32 buf 12;
       so \<leftarrow> rd32 buf 16;
       sl \<leftarrow> rd32 buf 20;
       Some \<lparr>magic = m, version = v, hflags = f, hdr_len = hl, type_off = tof, type_len = tl,
             str_off = so, str_len = sl\<rparr>
     }"

section \<open>State\<close>

datatype btf_ptr = BtfVoid | BtfAt nat

text \<open>
  \<open>types\<close> holds the used part of the array, \<open>nr_types + 1\<close> entries once it is allocated. Offsets that
  are pointers into the data count from the beginning of the data.
\<close>

record btf =
  data :: "u8 list"
  types :: "btf_ptr list"
  strings :: nat
  nohdr_data :: nat
  nr_types :: u32
  types_size :: u32
  data_size :: u32
  fd :: int

definition btf_add_type :: "bool \<Rightarrow> btf \<Rightarrow> nat \<Rightarrow> int + btf" where
  "btf_add_type realloc_ok b t =
     (let grown =
        (if types_size b - nr_types b < 2 then
           if types_size b = BTF_MAX_NR_TYPES then Inl (- E2BIG)
           else
             let expand_by = max (drop_bit 2 (types_size b)) 16;
                 new_size = min BTF_MAX_NR_TYPES (types_size b + expand_by)
             in if \<not> realloc_ok then Inl (- ENOMEM)
                else Inr (b\<lparr>types := (if nr_types b = 0 then [BtfVoid] else types b),
                           types_size := new_size\<rparr>)
         else Inr b)
      in case grown of
           Inl e \<Rightarrow> Inl e
         | Inr b \<Rightarrow> Inr (b\<lparr>types := types b @ [BtfAt t], nr_types := nr_types b + 1\<rparr>))"

definition btf_parse_hdr :: "btf \<Rightarrow> (int + btf) option" where
  "btf_parse_hdr b =
     (if data_size b < 24 then Some (Inl (- EINVAL))
      else
        do {
          hdr \<leftarrow> rd_header (data b);
          let meta_left = data_size b - 24;
          if magic hdr \<noteq> BTF_MAGIC then Some (Inl (- EINVAL))
          else if version hdr \<noteq> BTF_VERSION then Some (Inl (- ENOTSUP))
          else if hflags hdr \<noteq> 0 then Some (Inl (- ENOTSUP))
          else if meta_left = 0 then Some (Inl (- EINVAL))
          else if meta_left < type_off hdr then Some (Inl (- EINVAL))
          else if meta_left < str_off hdr then Some (Inl (- EINVAL))
          else if type_off hdr \<ge> str_off hdr then Some (Inl (- EINVAL))
          else if and (type_off hdr) 0x02 \<noteq> 0 then Some (Inl (- EINVAL))
          else Some (Inr (b\<lparr>nohdr_data := 24\<rparr>))
        })"

definition btf_parse_str_sec :: "btf \<Rightarrow> (int + btf) option" where
  "btf_parse_str_sec b =
     do {
       hdr \<leftarrow> rd_header (data b);
       let start = nohdr_data b + unat (str_off hdr);
       if str_len hdr = 0 \<or> str_len hdr - 1 > BTF_MAX_STR_OFFSET then Some (Inl (- EINVAL))
       else
         do {
           c0 \<leftarrow> rd8 (data b) start;
           if c0 \<noteq> 0 then Some (Inl (- EINVAL))
           else
             do {
               c1 \<leftarrow> rd8 (data b) (start + unat (str_len hdr) - 1);
               Some (if c1 \<noteq> 0 then Inl (- EINVAL) else Inr (b\<lparr>strings := start\<rparr>))
             }
         }
     }"

definition btf_type_size :: "btf_type \<Rightarrow> int" where
  "btf_type_size t =
     (let base_size = 12; vlen = uint (btf_vlen t); kind = btf_kind t in
      if kind = BTF_KIND_FWD \<or> kind = BTF_KIND_CONST \<or> kind = BTF_KIND_VOLATILE \<or>
         kind = BTF_KIND_RESTRICT \<or> kind = BTF_KIND_PTR \<or> kind = BTF_KIND_TYPEDEF \<or>
         kind = BTF_KIND_FUNC then base_size
      else if kind = BTF_KIND_INT then base_size + 4
      else if kind = BTF_KIND_ENUM then base_size + vlen * 8
      else if kind = BTF_KIND_ARRAY then base_size + 12
      else if kind = BTF_KIND_STRUCT \<or> kind = BTF_KIND_UNION then base_size + vlen * 12
      else if kind = BTF_KIND_FUNC_PROTO then base_size + vlen * 8
      else if kind = BTF_KIND_VAR then base_size + 4
      else if kind = BTF_KIND_DATASEC then base_size + vlen * 12
      else - EINVAL)"

lemma btf_type_size_pos: "btf_type_size t \<ge> 0 \<Longrightarrow> btf_type_size t \<ge> 12"
  by (auto simp: btf_type_size_def Let_def split: if_splits)

text \<open>The loop over the type section; which reallocations succeed depends on the number of types.\<close>

function btf_parse_types :: "(nat \<Rightarrow> bool) \<Rightarrow> btf \<Rightarrow> nat \<Rightarrow> nat \<Rightarrow> (int + btf) option" where
  "btf_parse_types reallocs b next_type end_type =
     (if \<not> next_type < end_type then Some (Inr b)
      else
        (case rd_type (data b) next_type of
           None \<Rightarrow> None
         | Some t \<Rightarrow>
             if btf_type_size t < 0 then Some (Inl (btf_type_size t))
             else
               (case btf_add_type (reallocs (unat (nr_types b))) b next_type of
                  Inl e \<Rightarrow> Some (Inl e)
                | Inr b \<Rightarrow> btf_parse_types reallocs b (next_type + nat (btf_type_size t)) end_type)))"
  by pat_completeness auto

termination btf_parse_types
  by (relation "measure (\<lambda>(reallocs, b, next_type, end_type). end_type - next_type)")
     (auto dest: btf_type_size_pos simp: not_less)

declare btf_parse_types.simps [simp del]

definition btf_parse_type_sec :: "(nat \<Rightarrow> bool) \<Rightarrow> btf \<Rightarrow> (int + btf) option" where
  "btf_parse_type_sec reallocs b =
     do {
       hdr \<leftarrow> rd_header (data b);
       btf_parse_types reallocs b (nohdr_data b + unat (type_off hdr)) (nohdr_data b + unat (str_off hdr))
     }"

definition btf__new :: "bool \<Rightarrow> bool \<Rightarrow> (nat \<Rightarrow> bool) \<Rightarrow> u8 list \<Rightarrow> (int + btf) option" where
  "btf__new calloc_ok malloc_ok reallocs bytes =
     (if \<not> calloc_ok then Some (Inl (- ENOMEM))
      else if \<not> malloc_ok then Some (Inl (- ENOMEM))
      else
        do {
          let b = \<lparr>data = bytes, types = [], strings = 0, nohdr_data = 0, nr_types = 0, types_size = 0,
                   data_size = of_nat (length bytes), fd = - 1\<rparr>;
          r \<leftarrow> btf_parse_hdr b;
          (case r of
             Inl e \<Rightarrow> Some (Inl e)
           | Inr b \<Rightarrow>
               do {
                 r \<leftarrow> btf_parse_str_sec b;
                 (case r of
                    Inl e \<Rightarrow> Some (Inl e)
                  | Inr b \<Rightarrow> btf_parse_type_sec reallocs b)
               })
        })"

section \<open>Queries\<close>

definition btf__get_nr_types :: "btf \<Rightarrow> u32" where
  "btf__get_nr_types b = nr_types b"

text \<open>A type pointer or null; the fields of \<open>btf_void\<close> are zero.\<close>

definition btf__type_by_id :: "btf \<Rightarrow> u32 \<Rightarrow> btf_ptr option option" where
  "btf__type_by_id b type_id =
     (if type_id > nr_types b then Some None
      else if unat type_id < length (types b) then Some (Some (types b ! unat type_id)) else None)"

definition deref :: "btf \<Rightarrow> btf_ptr \<Rightarrow> btf_type option" where
  "deref b t =
     (case t of
        BtfVoid \<Rightarrow> Some \<lparr>name_off = 0, info = 0, size_type = 0\<rparr>
      | BtfAt p \<Rightarrow> rd_type (data b) p)"

definition btf_type_is_void :: "btf_ptr \<Rightarrow> btf_type \<Rightarrow> bool" where
  "btf_type_is_void t ty \<longleftrightarrow> t = BtfVoid \<or> btf_is_fwd ty"

text \<open>\<open>struct btf_array\<close> behind an array type: element type and number of elements.\<close>

definition btf_array :: "btf \<Rightarrow> btf_ptr \<Rightarrow> (u32 \<times> u32) option" where
  "btf_array b t =
     (case t of
        BtfVoid \<Rightarrow> None
      | BtfAt p \<Rightarrow> do { ty \<leftarrow> rd32 (data b) (p + 12); n \<leftarrow> rd32 (data b) (p + 20); Some (ty, n) })"

definition MAX_RESOLVE_DEPTH :: nat where "MAX_RESOLVE_DEPTH = 32"

text \<open>
  One round of \<open>btf__resolve_size\<close>: an error code, the end with a size, or the next type and the
  number of elements so far.
\<close>

datatype resolve_step = ResolveErr int | ResolveDone int | ResolveNext u32 u32

definition resolve_size_step :: "btf \<Rightarrow> btf_ptr \<Rightarrow> btf_type \<Rightarrow> u32 \<Rightarrow> resolve_step option" where
  "resolve_size_step b t ty nelems =
     (let kind = btf_kind ty in
      if kind = BTF_KIND_INT \<or> kind = BTF_KIND_STRUCT \<or> kind = BTF_KIND_UNION \<or>
         kind = BTF_KIND_ENUM \<or> kind = BTF_KIND_DATASEC
      then Some (ResolveDone (uint (size_type ty)))
      else if kind = BTF_KIND_PTR then Some (ResolveDone 8)
      else if kind = BTF_KIND_TYPEDEF \<or> kind = BTF_KIND_VOLATILE \<or> kind = BTF_KIND_CONST \<or>
              kind = BTF_KIND_RESTRICT \<or> kind = BTF_KIND_VAR
      then Some (ResolveNext (size_type ty) nelems)
      else if kind = BTF_KIND_ARRAY then
        do {
          (elem, n) \<leftarrow> btf_array b t;
          if nelems \<noteq> 0 \<and> n > 0xffffffff div nelems then Some (ResolveErr (- E2BIG))
          else Some (ResolveNext elem (nelems * n))
        }
      else Some (ResolveErr (- EINVAL)))"

text \<open>The loop, for the rounds that are left; \<open>Inr\<close> carries size and number of elements.\<close>

fun resolve_size_loop :: "btf \<Rightarrow> nat \<Rightarrow> btf_ptr option \<Rightarrow> u32 \<Rightarrow> (int + int \<times> u32) option" where
  "resolve_size_loop b 0 t nelems = Some (Inr (- 1, nelems))"
| "resolve_size_loop b (Suc n) None nelems = Some (Inr (- 1, nelems))"
| "resolve_size_loop b (Suc n) (Some t) nelems =
     (case deref b t of
        None \<Rightarrow> None
      | Some ty \<Rightarrow>
          if btf_type_is_void t ty then Some (Inr (- 1, nelems))
          else
            (case resolve_size_step b t ty nelems of
               None \<Rightarrow> None
             | Some (ResolveErr e) \<Rightarrow> Some (Inl e)
             | Some (ResolveDone s) \<Rightarrow> Some (Inr (s, nelems))
             | Some (ResolveNext tid nelems) \<Rightarrow>
                 (case btf__type_by_id b tid of
                    None \<Rightarrow> None
                  | Some t \<Rightarrow> resolve_size_loop b n t nelems)))"

definition btf__resolve_size :: "btf \<Rightarrow> u32 \<Rightarrow> int option" where
  "btf__resolve_size b type_id =
     do {
       t \<leftarrow> btf__type_by_id b type_id;
       r \<leftarrow> resolve_size_loop b MAX_RESOLVE_DEPTH t 1;
       (case r of
          Inl e \<Rightarrow> Some e
        | Inr (sz, nelems) \<Rightarrow>
            if sz < 0 then Some (- EINVAL)
            else if nelems \<noteq> 0 \<and> sz > uint (0xffffffff div nelems :: u32) then Some (- E2BIG)
            else Some (uint nelems * sz))
     }"

text \<open>The loop of \<open>btf__resolve_type\<close>: depth reached, last type id, last pointer and its type.\<close>

fun resolve_type_loop ::
  "btf \<Rightarrow> nat \<Rightarrow> u32 \<Rightarrow> btf_ptr option \<Rightarrow> (nat \<times> u32 \<times> btf_ptr option) option" where
  "resolve_type_loop b 0 type_id t = Some (0, type_id, t)"
| "resolve_type_loop b (Suc n) type_id None = Some (Suc n, type_id, None)"
| "resolve_type_loop b (Suc n) type_id (Some t) =
     (case deref b t of
        None \<Rightarrow> None
      | Some ty \<Rightarrow>
          if \<not> btf_type_is_void t ty \<and> (btf_is_mod ty \<or> btf_is_typedef ty \<or> btf_is_var ty) then
            (case btf__type_by_id b (size_type ty) of
               None \<Rightarrow> None
             | Some t \<Rightarrow> resolve_type_loop b n (size_type ty) t)
          else Some (Suc n, type_id, Some t))"

definition btf__resolve_type :: "btf \<Rightarrow> u32 \<Rightarrow> int option" where
  "btf__resolve_type b type_id =
     do {
       t \<leftarrow> btf__type_by_id b type_id;
       (left, type_id, t) \<leftarrow> resolve_type_loop b MAX_RESOLVE_DEPTH type_id t;
       if left = 0 then Some (- EINVAL)
       else
         (case t of
            None \<Rightarrow> Some (- EINVAL)
          | Some t \<Rightarrow>
              do {
                ty \<leftarrow> deref b t;
                Some (if btf_type_is_void t ty then - EINVAL else sint type_id)
              })
     }"

text \<open>Names: the offset of a C string in the data, or null.\<close>

definition btf__name_by_offset :: "btf \<Rightarrow> u32 \<Rightarrow> nat option option" where
  "btf__name_by_offset b offset =
     do {
       sl \<leftarrow> rd32 (data b) 20;
       Some (if offset < sl then Some (strings b + unat offset) else None)
     }"

text \<open>\<open>strcmp\<close> with a string given by its bytes, which contain no zero.\<close>

fun strcmp_eq :: "u8 list \<Rightarrow> nat \<Rightarrow> u8 list \<Rightarrow> bool option" where
  "strcmp_eq buf p [] = map_option (\<lambda>c. c = 0) (rd8 buf p)"
| "strcmp_eq buf p (x # xs) =
     (case rd8 buf p of
        None \<Rightarrow> None
      | Some c \<Rightarrow> if c = x then strcmp_eq buf (p + 1) xs else Some False)"

definition void_name :: "u8 list" where "void_name = [118, 111, 105, 100]"

definition name_matches :: "btf \<Rightarrow> u32 \<Rightarrow> u8 list \<Rightarrow> bool option" where
  "name_matches b off type_name =
     do {
       name \<leftarrow> btf__name_by_offset b off;
       (case name of None \<Rightarrow> Some False | Some p \<Rightarrow> strcmp_eq (data b) p type_name)
     }"

fun find_by_name_loop :: "btf \<Rightarrow> u8 list \<Rightarrow> nat list \<Rightarrow> int option" where
  "find_by_name_loop b type_name [] = Some (- ENOENT)"
| "find_by_name_loop b type_name (i # is) =
     do {
       t \<leftarrow> deref b (types b ! i);
       m \<leftarrow> name_matches b (name_off t) type_name;
       if m then Some (int i) else find_by_name_loop b type_name is
     }"

definition btf__find_by_name :: "btf \<Rightarrow> u8 list \<Rightarrow> int option" where
  "btf__find_by_name b type_name =
     (if type_name = void_name then Some 0
      else find_by_name_loop b type_name [1..<unat (nr_types b) + 1])"

fun find_by_name_kind_loop :: "btf \<Rightarrow> u8 list \<Rightarrow> u32 \<Rightarrow> nat list \<Rightarrow> int option" where
  "find_by_name_kind_loop b type_name kind [] = Some (- ENOENT)"
| "find_by_name_kind_loop b type_name kind (i # is) =
     do {
       t \<leftarrow> deref b (types b ! i);
       if ucast (btf_kind t) \<noteq> kind then find_by_name_kind_loop b type_name kind is
       else
         do {
           m \<leftarrow> name_matches b (name_off t) type_name;
           if m then Some (int i) else find_by_name_kind_loop b type_name kind is
         }
     }"

definition btf__find_by_name_kind :: "btf \<Rightarrow> u8 list \<Rightarrow> u32 \<Rightarrow> int option" where
  "btf__find_by_name_kind b type_name kind =
     (if kind = ucast BTF_KIND_UNKN \<or> type_name = void_name then Some 0
      else find_by_name_kind_loop b type_name kind [1..<unat (nr_types b) + 1])"

definition btf__fd :: "btf \<Rightarrow> int" where
  "btf__fd b = fd b"

definition btf__get_raw_data :: "btf \<Rightarrow> u8 list \<times> u32" where
  "btf__get_raw_data b = (data b, data_size b)"

text \<open>Loading into the kernel; the result of the system call is a descriptor or an error number.\<close>

definition btf__load :: "bool \<Rightarrow> (u8 list \<Rightarrow> int + int) \<Rightarrow> btf \<Rightarrow> int \<times> btf" where
  "btf__load malloc_ok bpf_load_btf b =
     (if fd b \<ge> 0 then (- EEXIST, b)
      else if \<not> malloc_ok then (- ENOMEM, b)
      else
        (case bpf_load_btf (data b) of
           Inl errno \<Rightarrow> (- errno, b\<lparr>fd := - 1\<rparr>)
         | Inr f \<Rightarrow> (0, b\<lparr>fd := f\<rparr>)))"

section \<open>Key and value types of a map\<close>

definition kv_prefix :: "u8 list" where
  "kv_prefix = map (of_nat \<circ> of_char) ''____btf_map_''"

text \<open>
  \<open>snprintf\<close> returns the length the whole string would have, and stores at most 255 of its bytes.
\<close>

definition container_name :: "u8 list \<Rightarrow> nat \<times> u8 list" where
  "container_name map_name =
     (length (kv_prefix @ map_name), take 255 (kv_prefix @ map_name))"

definition btf__get_map_kv_tids ::
  "btf \<Rightarrow> u8 list \<Rightarrow> u32 \<Rightarrow> u32 \<Rightarrow> (int \<times> (u32 \<times> u32) option) option" where
  "btf__get_map_kv_tids b map_name expected_key_size expected_value_size =
     (let (n, name) = container_name map_name in
      if n = 256 then Some (- EINVAL, None)
      else
        do {
          container_id \<leftarrow> btf__find_by_name b name;
          if container_id < 0 then Some (container_id, None)
          else
            do {
              container_type \<leftarrow> btf__type_by_id b (of_int container_id);
              (case container_type of
                 None \<Rightarrow> Some (- EINVAL, None)
               | Some c \<Rightarrow>
                   do {
                     t \<leftarrow> deref b c;
                     if \<not> btf_is_struct t \<or> btf_vlen t < 2 then Some (- EINVAL, None)
                     else
                       (case c of
                          BtfVoid \<Rightarrow> None
                        | BtfAt p \<Rightarrow>
                            do {
                              key \<leftarrow> rd32 (data b) (p + 12 + 4);
                              key_size \<leftarrow> btf__resolve_size b key;
                              if key_size < 0 then Some (key_size, None)
                              else if uint expected_key_size \<noteq> key_size then Some (- EINVAL, None)
                              else
                                do {
                                  val \<leftarrow> rd32 (data b) (p + 24 + 4);
                                  value_size \<leftarrow> btf__resolve_size b val;
                                  if value_size < 0 then Some (value_size, None)
                                  else if uint expected_value_size \<noteq> value_size then Some (- EINVAL, None)
                                  else Some (0, Some (key, val))
                                }
                            })
                   })
            }
        })"

section \<open>The type array\<close>

text \<open>The array holds \<open>btf_void\<close> and \<open>k\<close> types, with room for at least one more index.\<close>

definition btf_cnt :: "btf \<Rightarrow> nat \<Rightarrow> bool" where
  "btf_cnt b k \<longleftrightarrow> nr_types b = of_nat k \<and> types_size b \<le> BTF_MAX_NR_TYPES \<and>
     (if k = 0 then types_size b = 0 \<and> types b = []
      else k < unat (types_size b) \<and> length (types b) = k + 1)"

definition same_btf :: "btf \<Rightarrow> btf \<Rightarrow> bool" where
  "same_btf b b' \<longleftrightarrow> data b' = data b \<and> strings b' = strings b \<and> nohdr_data b' = nohdr_data b \<and>
     data_size b' = data_size b \<and> fd b' = fd b"

lemma same_btf_refl [simp]: "same_btf b b"
  by (simp add: same_btf_def)

lemma same_btf_trans: "same_btf a b \<Longrightarrow> same_btf b c \<Longrightarrow> same_btf a c"
  by (simp add: same_btf_def)

lemma grown_size:
  assumes "sz \<le> BTF_MAX_NR_TYPES" "sz \<noteq> BTF_MAX_NR_TYPES"
  shows "unat sz < unat (min BTF_MAX_NR_TYPES (sz + max (drop_bit 2 sz) 16))"
    "min BTF_MAX_NR_TYPES (sz + max (drop_bit 2 sz) 16) \<le> BTF_MAX_NR_TYPES"
proof -
  have sz: "unat sz < 0x7fffffff"
    using assms by (simp add: BTF_MAX_NR_TYPES_def word_le_nat_alt word_unat_eq_iff)
  have quarter: "unat (drop_bit 2 sz) = unat sz div 4"
    by (simp add: drop_bit_eq_div unat_div)
  have e: "unat (max (drop_bit 2 sz) 16) \<le> unat sz div 4 + 16" "16 \<le> unat (max (drop_bit 2 sz) 16)"
    using quarter by (auto simp: max_def word_le_nat_alt)
  then have "unat (sz + max (drop_bit 2 sz) 16) = unat sz + unat (max (drop_bit 2 sz) 16)"
    using sz by (subst unat_word_ariths) simp
  with e sz show "unat sz < unat (min BTF_MAX_NR_TYPES (sz + max (drop_bit 2 sz) 16))"
    by (auto simp: min_def BTF_MAX_NR_TYPES_def)
  show "min BTF_MAX_NR_TYPES (sz + max (drop_bit 2 sz) 16) \<le> BTF_MAX_NR_TYPES" by simp
qed

lemma btf_add_type_ok:
  assumes cnt: "btf_cnt b k" and k: "k + 2 \<le> 0x7fffffff"
  obtains b' where "btf_add_type True b t = Inr b'" "btf_cnt b' (k + 1)" "same_btf b b'"
    "types b' = (if k = 0 then [BtfVoid] else types b) @ [BtfAt t]"
proof -
  note c = cnt [unfolded btf_cnt_def]
  have nr: "unat (of_nat k :: u32) = k" using k by (intro unat_of_nat_small) simp
  have diff: "unat (types_size b - nr_types b) = unat (types_size b) - k"
    using c nr k by (cases "k = 0") (auto simp: unat_sub word_le_nat_alt)
  let ?base = "if k = 0 then [BtfVoid] else types b"
  have zero: "nr_types b = 0 \<longleftrightarrow> k = 0" using c nr by (simp add: word_unat_eq_iff)
  have inc: "nr_types b + 1 = of_nat (k + 1)" using c by simp
  show thesis
  proof (cases "types_size b - nr_types b < 2")
    case False
    then have "k \<noteq> 0" using c by (cases "k = 0") simp_all
    moreover have "k + 2 \<le> unat (types_size b)"
      using False diff by (simp add: word_less_nat_alt not_less)
    ultimately show thesis using c False inc
      by (intro that [of "b\<lparr>types := types b @ [BtfAt t], nr_types := nr_types b + 1\<rparr>"])
         (simp_all add: btf_add_type_def btf_cnt_def same_btf_def)
  next
    case True
    let ?new = "min BTF_MAX_NR_TYPES (types_size b + max (drop_bit 2 (types_size b)) 16)"
    have small: "unat (types_size b) < k + 2" using True diff by (simp add: word_less_nat_alt)
    have "types_size b \<noteq> BTF_MAX_NR_TYPES"
      using small k by (auto simp: BTF_MAX_NR_TYPES_def)
    moreover from this have "unat (types_size b) < unat ?new" "?new \<le> BTF_MAX_NR_TYPES"
      using c grown_size [of "types_size b"] by auto
    moreover have "16 \<le> unat ?new" if "k = 0" using that c by (simp add: BTF_MAX_NR_TYPES_def)
    ultimately have "k + 1 < unat ?new" if "k \<noteq> 0" using that c by simp
    then show thesis
      using c True zero inc \<open>types_size b \<noteq> BTF_MAX_NR_TYPES\<close> \<open>?new \<le> BTF_MAX_NR_TYPES\<close>
        \<open>k = 0 \<Longrightarrow> 16 \<le> unat ?new\<close>
      by (intro that [of "b\<lparr>types := ?base @ [BtfAt t], types_size := ?new, nr_types := nr_types b + 1\<rparr>"])
         (auto simp: btf_add_type_def btf_cnt_def same_btf_def Let_def)
  qed
qed

section \<open>Round trip of the parser\<close>

text \<open>A type with the words behind it, as a compiler writes it, and the whole data.\<close>

definition enc_entry :: "btf_type \<times> u32 list \<Rightarrow> u8 list" where
  "enc_entry e =
     enc32 (name_off (fst e)) @ enc32 (info (fst e)) @ enc32 (size_type (fst e)) @
     concat (map enc32 (snd e))"

definition entry_ok :: "btf_type \<times> u32 list \<Rightarrow> bool" where
  "entry_ok e \<longleftrightarrow> btf_type_size (fst e) = int (12 + 4 * length (snd e))"

definition enc_types :: "(btf_type \<times> u32 list) list \<Rightarrow> u8 list" where
  "enc_types es = concat (map enc_entry es)"

definition enc_header :: "u32 \<Rightarrow> u32 \<Rightarrow> u8 list" where
  "enc_header types_len strs_len =
     enc16 BTF_MAGIC @ [BTF_VERSION, 0] @ enc32 24 @ enc32 0 @ enc32 types_len @ enc32 types_len @
     enc32 strs_len"

definition enc_btf :: "(btf_type \<times> u32 list) list \<Rightarrow> u8 list \<Rightarrow> u8 list" where
  "enc_btf es strs =
     enc_header (of_nat (length (enc_types es))) (of_nat (length strs)) @ enc_types es @ strs"

lemma length_concat_enc32: "length (concat (map enc32 ws)) = 4 * length ws"
  by (induction ws) simp_all

lemma length_enc_entry [simp]: "length (enc_entry e) = 12 + 4 * length (snd e)"
  by (simp add: enc_entry_def length_concat_enc32)

lemma enc_entry_nonempty: "enc_entry e \<noteq> []"
  using length_enc_entry [of e] by (auto simp del: length_enc_entry)

lemma enc_types_simps [simp]:
  "enc_types [] = []" "enc_types (e # es) = enc_entry e @ enc_types es"
  by (simp_all add: enc_types_def)

lemma length_enc_header [simp]: "length (enc_header a b) = 24"
  by (simp add: enc_header_def)

lemma rd_header_enc:
  "rd_header (enc_header a b @ r) = Some \<lparr>magic = BTF_MAGIC, version = BTF_VERSION, hflags = 0, hdr_len = 24,
     type_off = 0, type_len = a, str_off = a, str_len = b\<rparr>"
  by (simp add: rd_header_def enc_header_def rd16_def rd32_def rd8_def) (simp add: enc16_def)

lemma rd_type_at:
  assumes "drop p buf = enc_entry e @ r"
  shows "rd_type buf p = Some (fst e)"
proof -
  have "rd32 (drop p buf) 0 = Some (name_off (fst e))" "rd32 (drop p buf) 4 = Some (info (fst e))"
    "rd32 (drop p buf) 8 = Some (size_type (fst e))"
    by (simp_all add: assms enc_entry_def rd32_def)
  then show ?thesis by (simp add: rd_drop rd_type_def)
qed

text \<open>The offsets of the types.\<close>

fun entry_offsets :: "nat \<Rightarrow> (btf_type \<times> u32 list) list \<Rightarrow> nat list" where
  "entry_offsets p [] = []"
| "entry_offsets p (e # es) = p # entry_offsets (p + length (enc_entry e)) es"

lemma length_entry_offsets [simp]: "length (entry_offsets p es) = length es"
  by (induction es arbitrary: p) simp_all

lemma entry_offsets_at:
  assumes "drop p buf = enc_types es @ r" "i < length es"
  shows "\<exists>r. drop (entry_offsets p es ! i) buf = enc_entry (es ! i) @ r"
  using assms
proof (induction es arbitrary: p i)
  case (Cons e es)
  show ?case
  proof (cases i)
    case 0
    then show ?thesis using Cons.prems by simp
  next
    case (Suc j)
    have "drop (p + length (enc_entry e)) buf = enc_types es @ r"
      using arg_cong [OF Cons.prems(1), of "drop (length (enc_entry e))"] by (simp add: add.commute)
    from Cons.IH [OF this, of j] Suc Cons.prems(2) show ?thesis by simp
  qed
qed simp

lemma btf_parse_types_enc:
  assumes "drop p (data b) = enc_types es @ r" "\<forall>e \<in> set es. entry_ok e" "btf_cnt b k"
    "k + length es + 1 \<le> 0x7fffffff"
  obtains b' where "btf_parse_types (\<lambda>n. True) b p (p + length (enc_types es)) = Some (Inr b')"
    "btf_cnt b' (k + length es)" "same_btf b b'"
    "types b' = (if k = 0 \<and> es \<noteq> [] then [BtfVoid] else types b) @ map BtfAt (entry_offsets p es)"
  using assms
proof (induction es arbitrary: p b k thesis)
  case Nil
  then show ?case by (simp add: btf_parse_types.simps)
next
  case (Cons e es)
  obtain b1 where b1: "btf_add_type True b p = Inr b1" "btf_cnt b1 (k + 1)" "same_btf b b1"
    "types b1 = (if k = 0 then [BtfVoid] else types b) @ [BtfAt p]"
    using btf_add_type_ok [OF Cons.prems(4)] Cons.prems(5) by auto
  have t: "rd_type (data b) p = Some (fst e)"
    using Cons.prems(2) by (intro rd_type_at [of _ _ _ "enc_types es @ r"]) simp
  have size: "btf_type_size (fst e) = int (length (enc_entry e))"
    using Cons.prems(3) by (simp add: entry_ok_def)
  have "drop (p + length (enc_entry e)) (data b1) = enc_types es @ r"
    using arg_cong [OF Cons.prems(2), of "drop (length (enc_entry e))"] b1(3)
    by (simp add: add.commute same_btf_def)
  from Cons.IH [OF _ this _ b1(2)] Cons.prems(3,5) obtain b2 where b2:
    "btf_parse_types (\<lambda>n. True) b1 (p + length (enc_entry e))
       (p + length (enc_entry e) + length (enc_types es)) = Some (Inr b2)"
    "btf_cnt b2 (k + 1 + length es)" "same_btf b1 b2"
    "types b2 = types b1 @ map BtfAt (entry_offsets (p + length (enc_entry e)) es)"
    by auto
  show ?case
  proof (rule Cons.prems(1) [of b2])
    show "btf_parse_types (\<lambda>n. True) b p (p + length (enc_types (e # es))) = Some (Inr b2)"
      using b1(1) b2(1) t size enc_entry_nonempty [of e]
      by (simp add: btf_parse_types.simps [of _ b] add.assoc del: length_enc_entry)
    show "same_btf b b2" using b1(3) b2(3) by (rule same_btf_trans)
  qed (use b1(4) b2 in simp_all)
qed

lemma cstr_first: "xs \<noteq> [] \<Longrightarrow> xs ! 0 = hd xs"
  by (cases xs) auto

text \<open>C3: parsing gives back what was written. For any sequence of at least one well-formed type and any string
  section that begins and ends with a zero byte, together of less than 2 GB, and when every allocation
  succeeds, the constructor accepts the data, numbers the types in their order from 1, finds each of them
  at its place, resolves every name offset into the strings, and refuses the offset at their end.\<close>

theorem btf_new_roundtrip:
  assumes "\<forall>e \<in> set es. entry_ok e" "es \<noteq> []" "strs \<noteq> []" "hd strs = 0" "last strs = 0"
    "length (enc_types es) + length strs < 0x7fffffff"
  shows "\<exists>b. btf__new True True (\<lambda>n. True) (enc_btf es strs) = Some (Inr b) \<and>
    btf__get_nr_types b = of_nat (length es) \<and>
    (\<forall>i < length es. \<exists>p r. btf__type_by_id b (of_nat (i + 1)) = Some (Some (BtfAt p)) \<and>
       drop p (data b) = enc_entry (es ! i) @ r \<and> deref b (BtfAt p) = Some (fst (es ! i))) \<and>
    (\<forall>n < length strs. \<exists>p. btf__name_by_offset b (of_nat n) = Some (Some p) \<and>
       drop p (data b) = drop n strs) \<and>
    btf__name_by_offset b (of_nat (length strs)) = Some None"
proof -
  let ?bytes = "enc_btf es strs" and ?T = "enc_types es"
  let ?hdr = "enc_header (of_nat (length ?T)) (of_nat (length strs))"
  let ?b0 = "\<lparr>data = ?bytes, types = [], strings = 0, nohdr_data = 0, nr_types = 0, types_size = 0,
              data_size = of_nat (length ?bytes), fd = - 1\<rparr>"
  have bytes: "?bytes = ?hdr @ ?T @ strs" by (simp add: enc_btf_def)
  have size: "length ?bytes = 24 + length ?T + length strs" by (simp add: enc_btf_def)
  have hdr: "rd_header ?bytes = Some \<lparr>magic = BTF_MAGIC, version = BTF_VERSION, hflags = 0, hdr_len = 24,
     type_off = 0, type_len = of_nat (length ?T), str_off = of_nat (length ?T), str_len = of_nat (length strs)\<rparr>"
    unfolding enc_btf_def by (rule rd_header_enc)
  have u: "unat (of_nat n :: u32) = n" if "n \<le> 24 + length ?T + length strs" for n
    using that assms(6) by (intro unat_of_nat_small) simp
  have pos: "0 < length ?T" using assms(2) by (cases es) auto
  have spos: "0 < length strs" using assms(3) by simp
  have left: "unat (of_nat (length ?bytes) - 24 :: u32) = length ?T + length strs"
  proof -
    have "(of_nat (length ?bytes) - 24 :: u32) = of_nat (length ?T + length strs)" by (simp add: size)
    then show ?thesis using u [of "length ?T + length strs"] by (simp only: le_add2 add.assoc)
  qed
  have parse_hdr: "btf_parse_hdr ?b0 = Some (Inr (?b0\<lparr>nohdr_data := 24\<rparr>))"
  proof -
    have "\<not> (of_nat (length ?bytes) :: u32) < 24" using u [of "length ?bytes"] size by (simp add: word_less_nat_alt)
    moreover have "(of_nat (length ?bytes) - 24 :: u32) \<noteq> 0" using left pos by auto
    moreover have "\<not> (of_nat (length ?bytes) - 24 :: u32) < of_nat (length ?T)"
      using left u [of "length ?T"] by (simp add: word_less_nat_alt)
    moreover have "(of_nat (length ?T) :: u32) > 0" using u [of "length ?T"] pos by (simp add: word_less_nat_alt)
    ultimately show ?thesis using hdr by (simp add: btf_parse_hdr_def Let_def not_le)
  qed
  let ?start = "24 + length ?T"
  have at: "?bytes ! (?start + i) = strs ! i" for i
    by (simp add: bytes nth_append)
  have "rd8 ?bytes ?start = Some 0" using at [of 0] assms(3,4) size spos by (simp add: rd8_def cstr_first)
  moreover have "rd8 ?bytes (?start + length strs - 1) = Some 0"
    using at [of "length strs - 1"] assms(3,5) size spos by (simp add: rd8_def last_conv_nth)
  moreover have "(of_nat (length strs) :: u32) \<noteq> 0" using u [of "length strs"] spos by auto
  moreover have "\<not> (of_nat (length strs) - 1 :: u32) > BTF_MAX_STR_OFFSET"
  proof -
    have "(of_nat (length strs) - 1 :: u32) = of_nat (length strs - 1)"
      using spos by (simp add: Suc_leI of_nat_diff)
    then show ?thesis using u [of "length strs - 1"] assms(6)
      by (simp add: BTF_MAX_STR_OFFSET_def word_less_nat_alt)
  qed
  ultimately have parse_str: "btf_parse_str_sec (?b0\<lparr>nohdr_data := 24\<rparr>) =
      Some (Inr (?b0\<lparr>nohdr_data := 24, strings := ?start\<rparr>))"
    using hdr u [of "length ?T"] u [of "length strs"] by (simp add: btf_parse_str_sec_def)
  let ?b1 = "?b0\<lparr>nohdr_data := 24, strings := ?start\<rparr>"
  have drop24: "drop 24 (data ?b1) = ?T @ strs" by (simp add: bytes)
  have cnt: "btf_cnt ?b1 0" by (simp add: btf_cnt_def)
  have few: "0 + length es + 1 \<le> 0x7fffffff"
  proof -
    have "length es \<le> length ?T" by (induction es) simp_all
    then show ?thesis using assms(6) by simp
  qed
  obtain b where b: "btf_parse_types (\<lambda>n. True) ?b1 24 (24 + length ?T) = Some (Inr b)"
    "btf_cnt b (0 + length es)" "same_btf ?b1 b" "types b = [BtfVoid] @ map BtfAt (entry_offsets 24 es)"
    using btf_parse_types_enc [OF drop24 assms(1) cnt few] assms(2) by auto
  have new: "btf__new True True (\<lambda>n. True) ?bytes = Some (Inr b)"
    using parse_hdr parse_str b(1) hdr u [of "length ?T"]
    by (simp add: btf__new_def Let_def btf_parse_type_sec_def)
  have same: "data b = ?bytes" "strings b = ?start" using b(3) by (simp_all add: same_btf_def)
  have nr: "nr_types b = of_nat (length es)" using b(2) by (simp add: btf_cnt_def)
  have type: "\<exists>p r. btf__type_by_id b (of_nat (i + 1)) = Some (Some (BtfAt p)) \<and>
       drop p (data b) = enc_entry (es ! i) @ r \<and> deref b (BtfAt p) = Some (fst (es ! i))"
    if i: "i < length es" for i
  proof -
    have le: "length es \<le> length ?T" by (induction es) simp_all
    have "unat (of_nat (i + 1) :: u32) = i + 1" using u [of "i + 1"] i le by simp
    moreover have "unat (nr_types b) = length es" using nr u [of "length es"] le by simp
    ultimately have "btf__type_by_id b (of_nat (i + 1)) = Some (Some (BtfAt (entry_offsets 24 es ! i)))"
      using i b(4) by (simp add: btf__type_by_id_def word_less_nat_alt nth_append del: of_nat_add)
    moreover obtain r where "drop (entry_offsets 24 es ! i) (data b) = enc_entry (es ! i) @ r"
      using entry_offsets_at [OF _ i, of 24 "data b" strs] drop24 same(1) by auto
    moreover from this have "deref b (BtfAt (entry_offsets 24 es ! i)) = Some (fst (es ! i))"
      by (simp add: deref_def rd_type_at)
    ultimately show ?thesis by blast
  qed
  have rd20: "rd32 (data b) 20 = Some (of_nat (length strs))"
    by (simp add: same bytes enc_header_def rd32_def)
  have "\<exists>p. btf__name_by_offset b (of_nat n) = Some (Some p) \<and> drop p (data b) = drop n strs"
    if "n < length strs" for n
    using that rd20 same u [of n] u [of "length strs"]
    by (simp add: btf__name_by_offset_def word_less_nat_alt bytes)
  moreover have "btf__name_by_offset b (of_nat (length strs)) = Some None"
    using rd20 by (simp add: btf__name_by_offset_def)
  ultimately show ?thesis using new nr type by (auto simp: btf__get_nr_types_def)
qed

definition sample_types :: "(btf_type \<times> u32 list) list" where
  "sample_types =
     [(\<lparr>name_off = 1, info = 0x01000000, size_type = 4\<rparr>, [0x20]),
      (\<lparr>name_off = 0, info = 0x02000000, size_type = 1\<rparr>, []),
      (\<lparr>name_off = 0, info = 0x03000000, size_type = 0\<rparr>, [2, 1, 3])]"

lemma sample_types_ok: "\<forall>e \<in> set sample_types. entry_ok e"
  by (simp add: sample_types_def entry_ok_def btf_type_size_def btf_kinds btf_kind_def btf_vlen_def
      BTF_INFO_KIND_def BTF_INFO_VLEN_def Let_def)

lemma sample_types_size: "length (enc_types sample_types) = 52"
  by (simp add: sample_types_def)

theorem btf_new_roundtrip_witness:
  "\<exists>b. btf__new True True (\<lambda>n. True) (enc_btf sample_types [0, 105, 0]) = Some (Inr b) \<and>
    btf__get_nr_types b = of_nat (length sample_types) \<and>
    (\<forall>i < length sample_types. \<exists>p r. btf__type_by_id b (of_nat (i + 1)) = Some (Some (BtfAt p)) \<and>
       drop p (data b) = enc_entry (sample_types ! i) @ r \<and>
       deref b (BtfAt p) = Some (fst (sample_types ! i))) \<and>
    (\<forall>n < length [0, 105, 0 :: u8]. \<exists>p. btf__name_by_offset b (of_nat n) = Some (Some p) \<and>
       drop p (data b) = drop n [0, 105, 0]) \<and>
    btf__name_by_offset b (of_nat (length [0, 105, 0 :: u8])) = Some None"
proof (rule btf_new_roundtrip [OF sample_types_ok])
  show "sample_types \<noteq> []" by (simp add: sample_types_def)
qed (simp_all add: sample_types_size)

section \<open>Sizes\<close>

text \<open>
  The size of a type by the rules of the language, with at most \<open>n\<close> steps from the type to what it is
  made of: qualifiers, typedefs and variables have the size of their type, an array the product.
\<close>

definition sized_kind :: "u16 \<Rightarrow> bool" where
  "sized_kind k \<longleftrightarrow> k = BTF_KIND_INT \<or> k = BTF_KIND_STRUCT \<or> k = BTF_KIND_UNION \<or>
     k = BTF_KIND_ENUM \<or> k = BTF_KIND_DATASEC"

definition alias_kind :: "u16 \<Rightarrow> bool" where
  "alias_kind k \<longleftrightarrow> k = BTF_KIND_TYPEDEF \<or> k = BTF_KIND_VOLATILE \<or> k = BTF_KIND_CONST \<or>
     k = BTF_KIND_RESTRICT \<or> k = BTF_KIND_VAR"

inductive size_is :: "btf \<Rightarrow> nat \<Rightarrow> btf_ptr \<Rightarrow> nat \<Rightarrow> bool" for b where
  sized: "deref b t = Some ty \<Longrightarrow> t \<noteq> BtfVoid \<Longrightarrow> sized_kind (btf_kind ty) \<Longrightarrow>
    size_is b (Suc n) t (unat (size_type ty))"
| pointer: "deref b t = Some ty \<Longrightarrow> t \<noteq> BtfVoid \<Longrightarrow> btf_kind ty = BTF_KIND_PTR \<Longrightarrow> size_is b (Suc n) t 8"
| aliased: "deref b t = Some ty \<Longrightarrow> t \<noteq> BtfVoid \<Longrightarrow> alias_kind (btf_kind ty) \<Longrightarrow>
    btf__type_by_id b (size_type ty) = Some (Some t') \<Longrightarrow> size_is b n t' s \<Longrightarrow> size_is b (Suc n) t s"
| array: "deref b t = Some ty \<Longrightarrow> t \<noteq> BtfVoid \<Longrightarrow> btf_kind ty = BTF_KIND_ARRAY \<Longrightarrow>
    btf_array b t = Some (elem, k) \<Longrightarrow> btf__type_by_id b elem = Some (Some t') \<Longrightarrow> size_is b n t' s \<Longrightarrow>
    size_is b (Suc n) t (unat k * s)"

lemmas size_kinds = sized_kind_def alias_kind_def btf_kinds

lemma not_void_kind:
  "sized_kind (btf_kind ty) \<or> alias_kind (btf_kind ty) \<or> btf_kind ty = BTF_KIND_PTR \<or>
     btf_kind ty = BTF_KIND_ARRAY \<Longrightarrow> t \<noteq> BtfVoid \<Longrightarrow> \<not> btf_type_is_void t ty"
  by (auto simp: btf_type_is_void_def btf_is_fwd_def size_kinds)

lemma nelems_mult:
  fixes m n :: u32
  assumes "\<not> (m \<noteq> 0 \<and> n > 0xffffffff div m)"
  shows "unat (m * n) = unat m * unat n"
proof (cases "m = 0")
  case False
  then have "unat n \<le> 0xffffffff div unat m"
    using assms by (simp add: word_less_nat_alt unat_div not_less)
  then have "unat m * unat n \<le> unat m * (0xffffffff div unat m)" by (rule mult_le_mono2)
  also have "\<dots> \<le> 0xffffffff" by (rule times_div_less_eq_dividend)
  finally show ?thesis by (simp add: unat_word_ariths)
qed simp

lemma resolve_size_loop_sound:
  assumes "resolve_size_loop b n (Some t) nelems = Some (Inr (sz, k))" "0 \<le> sz"
  shows "\<exists>m. size_is b n t (m * nat sz) \<and> unat k = unat nelems * m \<and> sz < 2 ^ 32"
  using assms
proof (induction n arbitrary: t nelems)
  case 0
  then show ?case by simp
next
  case (Suc n)
  obtain ty where ty: "deref b t = Some ty" using Suc.prems by (cases "deref b t") auto
  have live: "\<not> btf_type_is_void t ty" using Suc.prems ty by (auto split: if_splits)
  then have nv: "t \<noteq> BtfVoid" by (auto simp: btf_type_is_void_def)
  obtain st where st: "resolve_size_step b t ty nelems = Some st"
    using Suc.prems ty live by (cases "resolve_size_step b t ty nelems") auto
  show ?case
  proof (cases st)
    case (ResolveErr e)
    then show ?thesis using Suc.prems ty live st by simp
  next
    case (ResolveDone s)
    then have "sz = s" "k = nelems" using Suc.prems ty live st by simp_all
    moreover have "sized_kind (btf_kind ty) \<and> s = uint (size_type ty) \<or> btf_kind ty = BTF_KIND_PTR \<and> s = 8"
      using st ResolveDone
      by (auto simp: resolve_size_step_def Let_def sized_kind_def bind_eq_Some_conv split: if_splits)
    ultimately show ?thesis
      using size_is.sized [OF ty nv, of n] size_is.pointer [OF ty nv, of n]
        unsigned_less [of "size_type ty", where ?'a = int]
      by (intro exI [of _ 1]) (auto simp: nat_uint_eq)
  next
    case (ResolveNext tid nel)
    then obtain x where x: "btf__type_by_id b tid = Some x" "resolve_size_loop b n x nel = Some (Inr (sz, k))"
      using Suc.prems ty live st by (auto split: option.splits)
    then obtain t' where "x = Some t'" using Suc.prems(2) by (cases x; cases n) auto
    with x have t': "btf__type_by_id b tid = Some (Some t')"
      "resolve_size_loop b n (Some t') nel = Some (Inr (sz, k))" by simp_all
    then obtain m where m: "size_is b n t' (m * nat sz)" "unat k = unat nel * m" "sz < 2 ^ 32"
      using Suc.IH Suc.prems(2) by blast
    have "alias_kind (btf_kind ty) \<and> tid = size_type ty \<and> nel = nelems \<or>
      btf_kind ty = BTF_KIND_ARRAY \<and> (\<exists>c. btf_array b t = Some (tid, c) \<and> nel = nelems * c \<and>
        \<not> (nelems \<noteq> 0 \<and> c > 0xffffffff div nelems))"
      using st ResolveNext
      by (auto simp: resolve_size_step_def Let_def alias_kind_def bind_eq_Some_conv split: if_splits)
    then show ?thesis
    proof (elim disjE conjE exE)
      assume "alias_kind (btf_kind ty)" "tid = size_type ty" "nel = nelems"
      then show ?thesis using m t'(1) size_is.aliased [OF ty nv] by auto
    next
      fix c assume a: "btf_kind ty = BTF_KIND_ARRAY" "btf_array b t = Some (tid, c)" "nel = nelems * c"
        "\<not> (nelems \<noteq> 0 \<and> c > 0xffffffff div nelems)"
      have "size_is b (Suc n) t (unat c * m * nat sz)"
        using size_is.array [OF ty nv a(1,2) t'(1) m(1)] by (simp add: mult.assoc)
      moreover have "unat k = unat nelems * (unat c * m)" using m(2) a(3) nelems_mult [OF a(4)] by simp
      ultimately show ?thesis using m(3) by blast
    qed
  qed
qed

lemma resolve_size_loop_complete:
  assumes "size_is b n t s" "0 < unat nelems * s" "unat nelems * s < 2 ^ 32"
  shows "\<exists>sz k. resolve_size_loop b n (Some t) nelems = Some (Inr (sz, k)) \<and> 0 \<le> sz \<and>
    unat k * nat sz = unat nelems * s"
  using assms
proof (induction arbitrary: nelems rule: size_is.induct)
  case (sized t ty n)
  then show ?case using not_void_kind [of ty t]
    by (auto simp: resolve_size_step_def Let_def sized_kind_def nat_uint_eq)
next
  case (pointer t ty n)
  then show ?case using not_void_kind [of ty t]
    by (auto simp: resolve_size_step_def Let_def btf_kinds)
next
  case (aliased t ty t' n s)
  then have "resolve_size_step b t ty nelems = Some (ResolveNext (size_type ty) nelems)"
    by (auto simp: resolve_size_step_def Let_def size_kinds)
  then show ?case using aliased not_void_kind [of ty t] by simp
next
  case (array t ty elem k t' n s)
  have s: "0 < s" "0 < unat nelems" "0 < unat k" using array.prems by simp_all
  have le: "unat nelems * unat k \<le> unat nelems * (unat k * s)" using s by (intro mult_le_mono2) simp
  then have "unat nelems * unat k \<le> 0xffffffff" using le_less_trans [OF le array.prems(2)] by simp
  then have "unat k \<le> 0xffffffff div unat nelems"
    using s by (simp add: less_eq_div_iff_mult_less_eq mult.commute)
  then have fits: "\<not> (nelems \<noteq> 0 \<and> k > 0xffffffff div nelems)"
    by (simp add: word_less_nat_alt unat_div not_less)
  then have step: "resolve_size_step b t ty nelems = Some (ResolveNext elem (nelems * k))"
    using array.hyps by (auto simp: resolve_size_step_def Let_def btf_kinds)
  have eq: "unat (nelems * k) * s = unat nelems * (unat k * s)" using nelems_mult [OF fits] by simp
  then obtain sz k' where "resolve_size_loop b n (Some t') (nelems * k) = Some (Inr (sz, k'))" "0 \<le> sz"
    "unat k' * nat sz = unat nelems * (unat k * s)"
    using array.IH [of "nelems * k"] array.prems unfolding eq by auto
  then show ?case using array.hyps step not_void_kind [of ty t] by simp
qed

lemma resolve_size_loop_err:
  "resolve_size_loop b n t nelems = Some (Inl e) \<Longrightarrow> e < 0"
  by (induction b n t nelems rule: resolve_size_loop.induct)
     (auto simp: resolve_size_step_def Let_def bind_eq_Some_conv split: option.splits resolve_step.splits if_splits)

lemma size_fits:
  fixes k :: u32
  shows "\<not> (k \<noteq> 0 \<and> int s > uint (0xffffffff div k)) \<longleftrightarrow> unat k * s < 2 ^ 32"
proof (cases "k = 0")
  case False
  then have k: "0 < unat k" by (simp add: unat_gt_0)
  have "nat (uint (0xffffffff div k)) = 0xffffffff div unat k" by (simp add: nat_uint_eq unat_div)
  then have "\<not> int s > uint (0xffffffff div k) \<longleftrightarrow> s \<le> 0xffffffff div unat k"
    by (metis le_nat_iff not_less uint_ge_0)
  also have "\<dots> \<longleftrightarrow> unat k * s \<le> 0xffffffff"
    using k by (simp add: less_eq_div_iff_mult_less_eq mult.commute)
  finally show ?thesis using False by auto
qed simp

lemma resolve_size_sound:
  assumes r: "btf__resolve_size b tid = Some r" "0 \<le> r"
  shows "r < 2 ^ 32"
    "\<exists>t. btf__type_by_id b tid = Some (Some t) \<and> size_is b MAX_RESOLVE_DEPTH t (nat r)"
proof -
  obtain t0 x where t0: "btf__type_by_id b tid = Some t0"
    "resolve_size_loop b MAX_RESOLVE_DEPTH t0 1 = Some x"
    using r by (auto simp: btf__resolve_size_def bind_eq_Some_conv)
  then obtain sz k where x: "x = Inr (sz, k)" "0 \<le> sz" "\<not> (k \<noteq> 0 \<and> sz > uint (0xffffffff div k :: u32))"
    "r = uint k * sz"
    using r by (cases x) (auto simp: btf__resolve_size_def dest: resolve_size_loop_err split: if_splits)
  then obtain t where t: "t0 = Some t"
    using t0(2) by (cases t0) (auto simp: MAX_RESOLVE_DEPTH_def numeral_eq_Suc)
  obtain m where m: "size_is b MAX_RESOLVE_DEPTH t (m * nat sz)" "unat k = m" "sz < 2 ^ 32"
    using resolve_size_loop_sound [of b MAX_RESOLVE_DEPTH t 1 sz k] t0(2) t x(1,2) by auto
  have size: "unat k * nat sz \<le> 0xffffffff" using size_fits [of k "nat sz"] x(2,3) by simp
  have "nat r = unat k * nat sz" using x(2,4) by (simp add: nat_mult_distrib nat_uint_eq)
  then show "r < 2 ^ 32" "\<exists>t. btf__type_by_id b tid = Some (Some t) \<and> size_is b MAX_RESOLVE_DEPTH t (nat r)"
    using size m(1,2) t0(1) t by auto
qed

text \<open>C4: the size of a type. A size that the resolver returns is the size by the rules of the language,
  fits into 32 bits and is reached within the depth limit, so no product of array dimensions has wrapped
  around; and each positive size below \<open>2 ^ 32\<close> that the rules give within the limit is returned.\<close>

theorem resolve_size_correct:
  "(\<forall>r. btf__resolve_size b tid = Some r \<and> 0 \<le> r \<longrightarrow> r < 2 ^ 32 \<and>
      (\<exists>t. btf__type_by_id b tid = Some (Some t) \<and> size_is b MAX_RESOLVE_DEPTH t (nat r))) \<and>
   (\<forall>t s. btf__type_by_id b tid = Some (Some t) \<and> size_is b MAX_RESOLVE_DEPTH t s \<and> 0 < s \<and> s < 2 ^ 32 \<longrightarrow>
      btf__resolve_size b tid = Some (int s))"
proof (intro conjI allI impI; elim conjE)
  fix r assume "btf__resolve_size b tid = Some r" "0 \<le> r"
  then show "r < 2 ^ 32" "\<exists>t. btf__type_by_id b tid = Some (Some t) \<and> size_is b MAX_RESOLVE_DEPTH t (nat r)"
    by (rule resolve_size_sound)+
next
  fix t s assume a: "btf__type_by_id b tid = Some (Some t)" "size_is b MAX_RESOLVE_DEPTH t s"
    "0 < s" "s < 2 ^ 32"
  then obtain sz k where loop: "resolve_size_loop b MAX_RESOLVE_DEPTH (Some t) 1 = Some (Inr (sz, k))"
    "0 \<le> sz" "unat k * nat sz = s"
    using resolve_size_loop_complete [of b MAX_RESOLVE_DEPTH t s 1] by auto
  have "\<not> (k \<noteq> 0 \<and> sz > uint (0xffffffff div k :: u32))"
    using size_fits [of k "nat sz"] a(4) loop(2,3) by auto
  moreover have "uint k * sz = int s" using loop(2,3) by (metis int_nat_eq of_nat_mult uint_nat)
  ultimately show "btf__resolve_size b tid = Some (int s)"
    using a(1) loop(1,2) by (simp add: btf__resolve_size_def)
qed

definition sample_btf :: btf where
  "sample_btf =
     \<lparr>data = enc_btf sample_types [0, 105, 0], types = [BtfVoid, BtfAt 24, BtfAt 40, BtfAt 52],
      strings = 76, nohdr_data = 24, nr_types = 3, types_size = 16, data_size = 79, fd = - 1\<rparr>"

lemma sample_entry:
  "rd_type (data sample_btf) 40 = Some \<lparr>name_off = 0, info = 0x02000000, size_type = 1\<rparr>"
  "rd_type (data sample_btf) 52 = Some \<lparr>name_off = 0, info = 0x03000000, size_type = 0\<rparr>"
  "btf_array sample_btf (BtfAt 52) = Some (2, 3)"
  by (simp_all add: sample_btf_def enc_btf_def enc_header_def sample_types_def enc_entry_def
      enc16_def enc32_def rd_type_def rd32_def btf_array_def)

lemma sample_size: "size_is sample_btf MAX_RESOLVE_DEPTH (BtfAt 52) 24"
proof -
  note eval = sample_entry deref_def btf_kind_def BTF_INFO_KIND_def btf_kinds btf__type_by_id_def
  have ptr: "size_is sample_btf (Suc 30) (BtfAt 40) 8"
    by (rule size_is.pointer [of _ _ "\<lparr>name_off = 0, info = 0x02000000, size_type = 1\<rparr>"])
       (simp_all add: eval)
  have "size_is sample_btf (Suc (Suc 30)) (BtfAt 52) (unat (3 :: u32) * 8)"
    by (rule size_is.array [of _ _ "\<lparr>name_off = 0, info = 0x03000000, size_type = 0\<rparr>" 2 3 "BtfAt 40"])
       (simp_all add: eval ptr [simplified], simp add: sample_btf_def)
  then show ?thesis by (simp add: MAX_RESOLVE_DEPTH_def)
qed

theorem resolve_size_correct_witness:
  "btf__resolve_size sample_btf 3 = Some 24"
proof -
  have "btf__type_by_id sample_btf 3 = Some (Some (BtfAt 52))"
    by (simp add: btf__type_by_id_def sample_btf_def)
  with sample_size show ?thesis using resolve_size_correct [of sample_btf 3] by force
qed

section \<open>Names and map types\<close>

definition type_named :: "btf \<Rightarrow> u8 list \<Rightarrow> nat \<Rightarrow> bool" where
  "type_named b type_name i \<longleftrightarrow>
     (\<exists>t. deref b (types b ! i) = Some t \<and> name_matches b (name_off t) type_name = Some True)"

lemma find_by_name_loop_first:
  assumes "find_by_name_loop b type_name js = Some r" "0 \<le> r"
  shows "\<exists>k < length js. r = int (js ! k) \<and> type_named b type_name (js ! k) \<and>
    (\<forall>j < k. \<not> type_named b type_name (js ! j))"
  using assms
proof (induction js)
  case (Cons i js)
  obtain t m where t: "deref b (types b ! i) = Some t" "name_matches b (name_off t) type_name = Some m"
    using Cons.prems(1) by (auto simp: bind_eq_Some_conv)
  show ?case
  proof (cases m)
    case True
    then show ?thesis using Cons.prems t by (intro exI [of _ 0]) (auto simp: type_named_def)
  next
    case False
    then obtain k where k: "k < length js" "r = int (js ! k)" "type_named b type_name (js ! k)"
      "\<forall>j < k. \<not> type_named b type_name (js ! j)" using Cons t by auto
    have "\<not> type_named b type_name i" using t False by (simp add: type_named_def)
    then show ?thesis using k
      by (intro exI [of _ "Suc k"]) (auto simp: less_Suc_eq_0_disj)
  qed
qed simp

lemma find_by_name_first:
  assumes "btf__find_by_name b type_name = Some r" "0 \<le> r" "type_name \<noteq> void_name"
  obtains i where "r = int i" "0 < i" "i \<le> unat (nr_types b)" "type_named b type_name i"
    "\<forall>j. 0 < j \<and> j < i \<longrightarrow> \<not> type_named b type_name j"
proof -
  obtain k where k: "k < length [1..<unat (nr_types b) + 1]" "r = int ([1..<unat (nr_types b) + 1] ! k)"
    "type_named b type_name ([1..<unat (nr_types b) + 1] ! k)"
    "\<forall>j < k. \<not> type_named b type_name ([1..<unat (nr_types b) + 1] ! j)"
    using find_by_name_loop_first [of b type_name _ r] assms by (auto simp: btf__find_by_name_def)
  have at: "[1..<unat (nr_types b) + 1] ! j = j + 1" if "j \<le> k" for j
    using that k(1) by (simp add: nth_append del: upt_Suc)
  show thesis
  proof (rule that [of "k + 1"])
    show "\<forall>j. 0 < j \<and> j < k + 1 \<longrightarrow> \<not> type_named b type_name j"
    proof (intro allI impI)
      fix j assume j: "0 < j \<and> j < k + 1"
      then have jk: "j - 1 < k" by linarith
      then have "\<not> type_named b type_name ([1..<unat (nr_types b) + 1] ! (j - 1))"
        using k(4) by (auto simp del: upt_Suc)
      then show "\<not> type_named b type_name j" using at [OF less_imp_le [OF jk]] j by (simp del: upt_Suc)
    qed
  qed (use k at [of k] in \<open>simp_all del: upt_Suc\<close>)
qed

lemma container_not_void: "snd (container_name n) \<noteq> void_name"
  by (simp add: container_name_def kv_prefix_def void_name_def)

text \<open>C5: the types of a map. Key and value types are reported only from the first type that has the name
  of the map's container, when it is a struct of at least two members: they are the types of its first two
  members and have exactly the sizes that the map declares.\<close>

theorem map_kv_tids_correct:
  assumes "btf__get_map_kv_tids b map_name ks vs = Some (0, Some (k, v))" "nr_types b < 0x80000000"
  shows "\<exists>i p ty t t'. 0 < i \<and> i \<le> unat (nr_types b) \<and> types b ! i = BtfAt p \<and>
    type_named b (take 255 (kv_prefix @ map_name)) i \<and>
    (\<forall>j. 0 < j \<and> j < i \<longrightarrow> \<not> type_named b (take 255 (kv_prefix @ map_name)) j) \<and>
    rd_type (data b) p = Some ty \<and> btf_is_struct ty \<and> 2 \<le> btf_vlen ty \<and>
    rd32 (data b) (p + 16) = Some k \<and> rd32 (data b) (p + 28) = Some v \<and>
    btf__type_by_id b k = Some (Some t) \<and> size_is b MAX_RESOLVE_DEPTH t (unat ks) \<and>
    btf__type_by_id b v = Some (Some t') \<and> size_is b MAX_RESOLVE_DEPTH t' (unat vs)"
proof -
  have name: "snd (container_name map_name) = take 255 (kv_prefix @ map_name)"
    by (simp add: container_name_def)
  obtain r where r: "btf__find_by_name b (take 255 (kv_prefix @ map_name)) = Some r" "0 \<le> r"
    using assms(1) by (auto simp: btf__get_map_kv_tids_def container_name_def bind_eq_Some_conv not_less
        split: if_splits)
  obtain i where i: "r = int i" "0 < i" "i \<le> unat (nr_types b)"
    "type_named b (take 255 (kv_prefix @ map_name)) i"
    "\<forall>j. 0 < j \<and> j < i \<longrightarrow> \<not> type_named b (take 255 (kv_prefix @ map_name)) j"
    using find_by_name_first [OF r] container_not_void [of map_name] name by metis
  have ui: "unat (of_int r :: u32) = i"
    using i assms(2) by (simp add: word_less_nat_alt unat_of_nat_small)
  obtain c where c: "btf__type_by_id b (of_int r) = Some (Some c)"
    using assms(1) r by (auto simp: btf__get_map_kv_tids_def container_name_def bind_eq_Some_conv
        split: if_splits option.splits)
  then have ci: "c = types b ! i" using ui by (simp add: btf__type_by_id_def split: if_splits)
  have run: "(do {
      t \<leftarrow> deref b c;
      if \<not> btf_is_struct t \<or> btf_vlen t < 2 then Some (- EINVAL, None)
      else (case c of
          BtfVoid \<Rightarrow> None
        | BtfAt p \<Rightarrow>
            do {
              key \<leftarrow> rd32 (data b) (p + 12 + 4);
              key_size \<leftarrow> btf__resolve_size b key;
              if key_size < 0 then Some (key_size, None)
              else if uint ks \<noteq> key_size then Some (- EINVAL, None)
              else
                do {
                  val \<leftarrow> rd32 (data b) (p + 24 + 4);
                  value_size \<leftarrow> btf__resolve_size b val;
                  if value_size < 0 then Some (value_size, None)
                  else if uint vs \<noteq> value_size then Some (- EINVAL, None)
                  else Some (0, Some (key, val))
                }
            })
      }) = Some (0, Some (k, v))"
    using assms(1) r c by (simp add: btf__get_map_kv_tids_def container_name_def split: if_splits)
  then obtain ty where ty: "deref b c = Some ty" "btf_is_struct ty" "2 \<le> btf_vlen ty"
    by (auto simp: bind_eq_Some_conv not_less split: if_splits)
  obtain p where p: "c = BtfAt p" using run ty by (cases c) (auto split: if_splits)
  have kv: "rd32 (data b) (p + 16) = Some k" "rd32 (data b) (p + 28) = Some v"
    "btf__resolve_size b k = Some (uint ks)" "btf__resolve_size b v = Some (uint vs)"
    using run ty by (auto simp: p bind_eq_Some_conv not_less add.commute split: if_splits)
  obtain t t' where "btf__type_by_id b k = Some (Some t)" "size_is b MAX_RESOLVE_DEPTH t (unat ks)"
    "btf__type_by_id b v = Some (Some t')" "size_is b MAX_RESOLVE_DEPTH t' (unat vs)"
    using resolve_size_sound [OF kv(3)] resolve_size_sound [OF kv(4)] by (auto simp: nat_uint_eq)
  moreover have "rd_type (data b) p = Some ty" using ty(1) by (simp add: p deref_def)
  ultimately show ?thesis using i ty(2,3) kv(1,2) p ci by metis
qed

text \<open>An \<open>int\<close> and the container of a map \<open>m\<close> with key and value of that type.\<close>

definition map_types :: "(btf_type \<times> u32 list) list" where
  "map_types =
     [(\<lparr>name_off = 0, info = 0x01000000, size_type = 4\<rparr>, [0x20]),
      (\<lparr>name_off = 1, info = 0x04000002, size_type = 8\<rparr>, [0, 1, 0, 0, 1, 32])]"

definition map_btf :: btf where
  "map_btf =
     \<lparr>data = enc_btf map_types (0 # kv_prefix @ [109, 0]), types = [BtfVoid, BtfAt 24, BtfAt 40],
      strings = 76, nohdr_data = 24, nr_types = 2, types_size = 16, data_size = 91, fd = - 1\<rparr>"

lemma map_reads:
  "rd32 (data map_btf) 20 = Some 15"
  "rd_type (data map_btf) 24 = Some \<lparr>name_off = 0, info = 0x01000000, size_type = 4\<rparr>"
  "rd_type (data map_btf) 40 = Some \<lparr>name_off = 1, info = 0x04000002, size_type = 8\<rparr>"
  "rd32 (data map_btf) 56 = Some 1" "rd32 (data map_btf) 68 = Some 1"
  by (simp_all add: map_btf_def enc_btf_def enc_header_def map_types_def enc_entry_def
      enc16_def enc32_def rd_type_def rd32_def kv_prefix_def)

lemma strcmp_eq_same: "drop p buf = xs @ 0 # r \<Longrightarrow> strcmp_eq buf p xs = Some True"
proof (induction xs arbitrary: p)
  case Nil
  then show ?case by (simp add: rd8_drop_Cons)
next
  case (Cons x xs)
  then have "drop (p + 1) buf = xs @ 0 # r" by (metis append_Cons drop_Suc_Cons drop0 drop_drop Suc_eq_plus1_left)
  then show ?case using Cons by (simp add: rd8_drop_Cons)
qed

lemma map_name: "name_matches map_btf 1 (kv_prefix @ [109]) = Some True"
proof -
  have "drop 77 (data map_btf) = (kv_prefix @ [109]) @ 0 # []"
    by (simp add: map_btf_def enc_btf_def enc_header_def map_types_def kv_prefix_def)
  then show ?thesis using map_reads(1) strcmp_eq_same
    by (simp add: name_matches_def btf__name_by_offset_def) (simp add: map_btf_def)
qed

lemma map_noname: "name_matches map_btf 0 (kv_prefix @ [109]) = Some False"
proof -
  have "rd8 (data map_btf) 76 = Some 0"
    by (simp add: map_btf_def enc_btf_def enc_header_def map_types_def kv_prefix_def rd8_def enc_entry_def
      enc16_def enc32_def)
  then show ?thesis using map_reads(1)
    by (simp add: name_matches_def btf__name_by_offset_def kv_prefix_def) (simp add: map_btf_def)
qed

lemma map_found: "btf__get_map_kv_tids map_btf [109] 4 4 = Some (0, Some (1, 1))"
proof -
  have name: "container_name [109] = (13, kv_prefix @ [109])"
    by (simp add: container_name_def kv_prefix_def)
  have types: "types map_btf ! 1 = BtfAt 24" "types map_btf ! 2 = BtfAt 40" "nr_types map_btf = 2"
    "length (types map_btf) = 3"
    by (simp_all add: map_btf_def)
  have ids: "[Suc 0..<3] = [Suc 0, 2]" by (simp add: upt_rec)
  have find: "btf__find_by_name map_btf (kv_prefix @ [109]) = Some 2"
    using types ids map_reads map_name map_noname container_not_void [of "[109]"] name
    by (simp add: btf__find_by_name_def deref_def)
  note kinds = btf_kind_def BTF_INFO_KIND_def btf_kinds btf_vlen_def BTF_INFO_VLEN_def
  have "resolve_size_loop map_btf (Suc 31) (Some (BtfAt 24)) 1 = Some (Inr (4, 1))"
    using map_reads(2) unfolding resolve_size_loop.simps
    by (simp add: deref_def btf_type_is_void_def btf_is_fwd_def resolve_size_step_def Let_def kinds)
  then have "btf__resolve_size map_btf 1 = Some 4"
    using types by (simp add: btf__resolve_size_def btf__type_by_id_def MAX_RESOLVE_DEPTH_def)
  then show ?thesis using types find name map_reads(3-)
    by (simp add: btf__get_map_kv_tids_def btf__type_by_id_def deref_def btf_is_struct_def kinds)
qed

theorem map_kv_tids_correct_witness:
  "\<exists>i p ty t t'. 0 < i \<and> i \<le> unat (nr_types map_btf) \<and> types map_btf ! i = BtfAt p \<and>
    type_named map_btf (take 255 (kv_prefix @ [109])) i \<and>
    (\<forall>j. 0 < j \<and> j < i \<longrightarrow> \<not> type_named map_btf (take 255 (kv_prefix @ [109])) j) \<and>
    rd_type (data map_btf) p = Some ty \<and> btf_is_struct ty \<and> 2 \<le> btf_vlen ty \<and>
    rd32 (data map_btf) (p + 16) = Some 1 \<and> rd32 (data map_btf) (p + 28) = Some 1 \<and>
    btf__type_by_id map_btf 1 = Some (Some t) \<and> size_is map_btf MAX_RESOLVE_DEPTH t (unat (4 :: u32)) \<and>
    btf__type_by_id map_btf 1 = Some (Some t') \<and> size_is map_btf MAX_RESOLVE_DEPTH t' (unat (4 :: u32))"
  by (rule map_kv_tids_correct [OF map_found]) (simp add: map_btf_def)

text \<open>C40: a map name that is too long is not refused. The check after \<open>snprintf\<close> compares with \<open>==\<close>, so it
  refuses exactly the names of 244 bytes. For every longer name the function goes on as if the map had
  the name of its first 243 bytes, which is short enough to be looked up: it gives that map's key and
  value types, or its error, and two maps whose long names agree on these bytes are not told apart.\<close>

theorem long_map_names_confused:
  assumes "length n1 > 244" "length n2 > 244" "take 243 n1 = take 243 n2"
  shows "length (take 243 n1) = 243 \<and>
    btf__get_map_kv_tids b n1 ks vs = btf__get_map_kv_tids b (take 243 n1) ks vs \<and>
    btf__get_map_kv_tids b n2 ks vs = btf__get_map_kv_tids b n1 ks vs \<and>
    btf__get_map_kv_tids b (take 244 n1) ks vs = Some (- EINVAL, None)"
proof -
  have len: "length kv_prefix = 12" by (simp add: kv_prefix_def)
  have name: "snd (container_name n) = snd (container_name (take 243 n)) \<and> fst (container_name n) \<noteq> 256"
    if "length n > 244" for n
    using that len by (simp add: container_name_def)
  have short: "fst (container_name (take 243 n1)) \<noteq> 256" "fst (container_name (take 244 n1)) = 256"
    using assms(1) len by (simp_all add: container_name_def)
  have same: "btf__get_map_kv_tids b n ks vs = btf__get_map_kv_tids b n' ks vs"
    if "snd (container_name n) = snd (container_name n')" "fst (container_name n) \<noteq> 256"
      "fst (container_name n') \<noteq> 256" for n n'
    using that unfolding btf__get_map_kv_tids_def by (cases "container_name n"; cases "container_name n'") simp
  have refuse: "btf__get_map_kv_tids b (take 244 n1) ks vs = Some (- EINVAL, None)"
    using short(2) unfolding btf__get_map_kv_tids_def by (cases "container_name (take 244 n1)") simp
  have "btf__get_map_kv_tids b n1 ks vs = btf__get_map_kv_tids b (take 243 n1) ks vs"
    using name [OF assms(1)] short(1) by (intro same) auto
  moreover have "btf__get_map_kv_tids b n2 ks vs = btf__get_map_kv_tids b n1 ks vs"
    using name [OF assms(1)] name [OF assms(2)] assms(3) by (intro same) auto
  ultimately show ?thesis using assms(1) refuse by simp
qed

text \<open>The container of a map whose name has 243 bytes: the longer names find it.\<close>

definition long_name :: "u8 list" where
  "long_name = replicate 243 109"

definition long_btf :: btf where
  "long_btf =
     \<lparr>data = enc_btf map_types (0 # kv_prefix @ long_name @ [0]), types = [BtfVoid, BtfAt 24, BtfAt 40],
      strings = 76, nohdr_data = 24, nr_types = 2, types_size = 16, data_size = 333, fd = - 1\<rparr>"

lemma length_long_name: "length long_name = 243"
  by (simp add: long_name_def)

lemma long_reads:
  "rd32 (data long_btf) 20 = Some 257"
  "rd_type (data long_btf) 24 = Some \<lparr>name_off = 0, info = 0x01000000, size_type = 4\<rparr>"
  "rd_type (data long_btf) 40 = Some \<lparr>name_off = 1, info = 0x04000002, size_type = 8\<rparr>"
  "rd32 (data long_btf) 56 = Some 1" "rd32 (data long_btf) 68 = Some 1"
  by (simp_all add: long_btf_def enc_btf_def enc_header_def map_types_def enc_entry_def
      enc16_def enc32_def rd_type_def rd32_def kv_prefix_def length_long_name)

lemma long_container: "container_name long_name = (255, kv_prefix @ long_name)"
  by (simp add: container_name_def length_long_name) (simp add: kv_prefix_def length_long_name)

lemma long_name_matches: "name_matches long_btf 1 (kv_prefix @ long_name) = Some True"
proof -
  have "drop 77 (data long_btf) = (kv_prefix @ long_name) @ 0 # []"
    by (simp add: long_btf_def enc_btf_def enc_header_def map_types_def kv_prefix_def)
  then show ?thesis using long_reads(1) strcmp_eq_same
    by (simp add: name_matches_def btf__name_by_offset_def) (simp add: long_btf_def)
qed

lemma long_noname: "name_matches long_btf 0 (kv_prefix @ long_name) = Some False"
proof -
  have "rd8 (data long_btf) 76 = Some 0"
    by (simp add: long_btf_def enc_btf_def enc_header_def map_types_def kv_prefix_def rd8_def enc_entry_def
      enc16_def enc32_def)
  then show ?thesis using long_reads(1)
    by (simp add: name_matches_def btf__name_by_offset_def kv_prefix_def) (simp add: long_btf_def)
qed

lemma long_found: "btf__get_map_kv_tids long_btf long_name 4 4 = Some (0, Some (1, 1))"
proof -
  have types: "types long_btf ! 1 = BtfAt 24" "types long_btf ! 2 = BtfAt 40" "nr_types long_btf = 2"
    "length (types long_btf) = 3"
    by (simp_all add: long_btf_def)
  have ids: "[Suc 0..<3] = [Suc 0, 2]" by (simp add: upt_rec)
  have find: "btf__find_by_name long_btf (kv_prefix @ long_name) = Some 2"
    using types ids long_reads long_name_matches long_noname container_not_void [of long_name] long_container
    by (simp add: btf__find_by_name_def deref_def)
  note kinds = btf_kind_def BTF_INFO_KIND_def btf_kinds btf_vlen_def BTF_INFO_VLEN_def
  have "resolve_size_loop long_btf (Suc 31) (Some (BtfAt 24)) 1 = Some (Inr (4, 1))"
    using long_reads(2) unfolding resolve_size_loop.simps
    by (simp add: deref_def btf_type_is_void_def btf_is_fwd_def resolve_size_step_def Let_def kinds)
  then have "btf__resolve_size long_btf 1 = Some 4"
    using types by (simp add: btf__resolve_size_def btf__type_by_id_def MAX_RESOLVE_DEPTH_def)
  then show ?thesis using types find long_container long_reads(3-)
    by (simp add: btf__get_map_kv_tids_def btf__type_by_id_def deref_def btf_is_struct_def kinds)
qed

theorem long_map_names_confused_witness:
  "btf__get_map_kv_tids long_btf (long_name @ [98, 98]) 4 4 = Some (0, Some (1, 1)) \<and>
    btf__get_map_kv_tids long_btf (long_name @ [99, 99, 99]) 4 4 = Some (0, Some (1, 1))"
proof -
  have long: "length (long_name @ [98, 98]) > 244" "length (long_name @ [99, 99, 99]) > 244"
    "take 243 (long_name @ [98, 98]) = take 243 (long_name @ [99, 99, 99])"
    "take 243 (long_name @ [98, 98]) = long_name"
    by (simp_all add: length_long_name)
  show ?thesis
    using long_map_names_confused [OF long(1-3), of long_btf 4 4] long_found unfolding long(4) by simp
qed

end
