(* ===== verification/Btf_Ext.thy ===== *)
theory Btf_Ext
  imports Btf
begin

text \<open>
  The \<open>.BTF.ext\<close> data of an object file, \<open>libbpf/src/btf.c\<close> lines 789 to 1087 and the walk over its
  sections in \<open>libbpf_internal.h\<close>: validation of the three information segments, and the copy of the
  records of one section with their instruction offsets moved. As in \<open>Btf\<close>, pointers are offsets
  into the data and a read outside the data makes the operation \<open>None\<close>.
\<close>

section \<open>State\<close>

text \<open>A segment without the word of its record size; all zero as long as it is not set up.\<close>

record btf_ext_info =
  info_at :: nat
  rec_size :: u32
  info_len :: u32

record btf_ext =
  ext_data :: "u8 list"
  func_info :: btf_ext_info
  line_info :: btf_ext_info
  field_reloc_info :: btf_ext_info
  ext_data_size :: u32

record btf_ext_header =
  ext_magic :: u16
  ext_version :: u8
  ext_flags :: u8
  ext_hdr_len :: u32

definition rd_ext_header :: "u8 list \<Rightarrow> btf_ext_header option" where
  "rd_ext_header buf =
     do {
       m \<leftarrow> rd16 buf 0;
       v \<leftarrow> rd8 buf 2;
       f \<leftarrow> rd8 buf 3;
       hl \<leftarrow> rd32 buf 4;
       Some \<lparr>ext_magic = m, ext_version = v, ext_flags = f, ext_hdr_len = hl\<rparr>
     }"

record btf_ext_sec_setup_param =
  sec_off :: u32
  sec_len :: u32
  min_rec_size :: u32
  ext_info :: btf_ext_info

text \<open>\<open>struct btf_ext_info_sec\<close>, with the place of its records.\<close>

record btf_ext_info_sec =
  sec_name_off :: u32
  num_info :: u32
  sec_data :: nat

definition rd_sec :: "u8 list \<Rightarrow> nat \<Rightarrow> btf_ext_info_sec option" where
  "rd_sec buf p =
     do {
       n \<leftarrow> rd32 buf p;
       k \<leftarrow> rd32 buf (p + 4);
       Some \<lparr>sec_name_off = n, num_info = k, sec_data = p + 8\<rparr>
     }"

section \<open>Validation\<close>

definition total_record_size :: "u32 \<Rightarrow> u32 \<Rightarrow> u64" where
  "total_record_size num_records record_size = 8 + ucast num_records * ucast record_size"

lemma unat_total_record_size:
  "unat (total_record_size n r) = 8 + unat n * unat r"
proof -
  have "unat n * unat r \<le> 4294967295 * 4294967295"
    using unsigned_less [of n, where ?'a = nat] unsigned_less [of r, where ?'a = nat]
    by (intro mult_le_mono) simp_all
  then show ?thesis
    by (simp add: total_record_size_def unat_word_ariths unsigned_ucast_eq take_bit_nat_eq_self
        order.strict_trans [OF unsigned_less [where ?'a = nat]])
qed

function check_records :: "u8 list \<Rightarrow> u32 \<Rightarrow> nat \<Rightarrow> u32 \<Rightarrow> (int + unit) option" where
  "check_records buf record_size sinfo info_left =
     (if info_left = 0 then Some (Inr ())
      else if info_left < 8 then Some (Inl (- EINVAL))
      else
        (case rd_sec buf sinfo of
           None \<Rightarrow> None
         | Some s \<Rightarrow>
             if num_info s = 0 then Some (Inl (- EINVAL))
             else
               let total = total_record_size (num_info s) record_size in
               if ucast info_left < total then Some (Inl (- EINVAL))
               else check_records buf record_size (sinfo + unat total) (info_left - ucast total)))"
  by pat_completeness auto

lemma record_left:
  fixes left :: u32
  assumes "\<not> ucast left < total_record_size n r"
  shows "8 + unat n * unat r \<le> unat left"
    "unat (left - ucast (total_record_size n r)) = unat left - (8 + unat n * unat r)"
proof -
  have left: "unat left < 4294967296" using unsigned_less [of left, where ?'a = nat] by simp
  show le: "8 + unat n * unat r \<le> unat left"
    using assms left
    by (simp add: word_less_nat_alt not_less unat_total_record_size unsigned_ucast_eq take_bit_nat_eq_self)
  have "unat (ucast (total_record_size n r) :: u32) = 8 + unat n * unat r"
    using le left by (simp add: unsigned_ucast_eq unat_total_record_size take_bit_nat_eq_self)
  then show "unat (left - ucast (total_record_size n r)) = unat left - (8 + unat n * unat r)"
    using le by (subst unat_sub) (simp_all add: word_le_nat_alt)
qed

termination check_records
  by (relation "measure (\<lambda>(buf, r, p, left). unat left)") (auto simp: record_left dest: record_left(1))

declare check_records.simps [simp del]

definition btf_ext_setup_info ::
  "u8 list \<Rightarrow> u32 \<Rightarrow> btf_ext_sec_setup_param \<Rightarrow> (int + btf_ext_info) option" where
  "btf_ext_setup_info buf hlen ext_sec =
     (if sec_len ext_sec = 0 then Some (Inr (ext_info ext_sec))
      else if and (sec_off ext_sec) 0x03 \<noteq> 0 then Some (Inl (- EINVAL))
      else
        (let info = unat hlen + unat (sec_off ext_sec); info_left = sec_len ext_sec in
         if length buf < info + unat (sec_len ext_sec) then Some (Inl (- EINVAL))
         else if info_left < 4 then Some (Inl (- EINVAL))
         else
           do {
             record_size \<leftarrow> rd32 buf info;
             if record_size < min_rec_size ext_sec \<or> and record_size 0x03 \<noteq> 0 then Some (Inl (- EINVAL))
             else
               let sinfo = info + 4; info_left = info_left - 4 in
               if info_left = 0 then Some (Inl (- EINVAL))
               else
                 do {
                   r \<leftarrow> check_records buf record_size sinfo info_left;
                   Some (case r of
                     Inl e \<Rightarrow> Inl e
                   | Inr () \<Rightarrow> Inr \<lparr>info_at = info + 4, rec_size = record_size, info_len = sec_len ext_sec - 4\<rparr>)
                 }
           }))"

text \<open>The three callers read offset and length of their segment from the header.\<close>

definition setup_segment ::
  "u8 list \<Rightarrow> u32 \<Rightarrow> nat \<Rightarrow> u32 \<Rightarrow> btf_ext_info \<Rightarrow> (int + btf_ext_info) option" where
  "setup_segment buf hlen field min_size i =
     do {
       off \<leftarrow> rd32 buf field;
       len \<leftarrow> rd32 buf (field + 4);
       btf_ext_setup_info buf hlen
         \<lparr>sec_off = off, sec_len = len, min_rec_size = min_size, ext_info = i\<rparr>
     }"

definition btf_ext_setup_func_info :: "u32 \<Rightarrow> btf_ext \<Rightarrow> (int + btf_ext) option" where
  "btf_ext_setup_func_info hlen e =
     map_option (map_sum (\<lambda>x. x) (\<lambda>i. e\<lparr>func_info := i\<rparr>))
       (setup_segment (ext_data e) hlen 8 8 (func_info e))"

definition btf_ext_setup_line_info :: "u32 \<Rightarrow> btf_ext \<Rightarrow> (int + btf_ext) option" where
  "btf_ext_setup_line_info hlen e =
     map_option (map_sum (\<lambda>x. x) (\<lambda>i. e\<lparr>line_info := i\<rparr>))
       (setup_segment (ext_data e) hlen 16 16 (line_info e))"

definition btf_ext_setup_field_reloc :: "u32 \<Rightarrow> btf_ext \<Rightarrow> (int + btf_ext) option" where
  "btf_ext_setup_field_reloc hlen e =
     map_option (map_sum (\<lambda>x. x) (\<lambda>i. e\<lparr>field_reloc_info := i\<rparr>))
       (setup_segment (ext_data e) hlen 24 16 (field_reloc_info e))"

definition btf_ext_parse_hdr :: "u8 list \<Rightarrow> u32 \<Rightarrow> (int + u32) option" where
  "btf_ext_parse_hdr buf dsize =
     (if dsize < 8 then Some (Inl (- EINVAL))
      else
        do {
          hdr \<leftarrow> rd_ext_header buf;
          Some (if dsize < ext_hdr_len hdr then Inl (- EINVAL)
                else if ext_magic hdr \<noteq> BTF_MAGIC then Inl (- EINVAL)
                else if ext_version hdr \<noteq> BTF_VERSION then Inl (- ENOTSUP)
                else if ext_flags hdr \<noteq> 0 then Inl (- ENOTSUP)
                else if dsize = ext_hdr_len hdr then Inl (- EINVAL)
                else Inr (ext_hdr_len hdr))
        })"

text \<open>The steps of the constructor that may fail, one after the other.\<close>

definition and_then :: "('a + 'b) option \<Rightarrow> ('b \<Rightarrow> ('a + 'c) option) \<Rightarrow> ('a + 'c) option" where
  "and_then r f =
     (case r of
        None \<Rightarrow> None
      | Some (Inl e) \<Rightarrow> Some (Inl e)
      | Some (Inr x) \<Rightarrow> f x)"

definition no_info :: btf_ext_info where
  "no_info = \<lparr>info_at = 0, rec_size = 0, info_len = 0\<rparr>"

definition btf_ext__new :: "bool \<Rightarrow> bool \<Rightarrow> u8 list \<Rightarrow> (int + btf_ext) option" where
  "btf_ext__new calloc_ok malloc_ok bytes =
     and_then (btf_ext_parse_hdr bytes (of_nat (length bytes)))
       (\<lambda>hlen.
          if \<not> calloc_ok then Some (Inl (- ENOMEM))
          else if \<not> malloc_ok then Some (Inl (- ENOMEM))
          else
            let e = \<lparr>ext_data = bytes, func_info = no_info, line_info = no_info,
                     field_reloc_info = no_info, ext_data_size = of_nat (length bytes)\<rparr> in
            if hlen < 24 then Some (Inr e)
            else
              and_then (btf_ext_setup_func_info hlen e)
                (\<lambda>e. and_then (btf_ext_setup_line_info hlen e)
                  (\<lambda>e. if hlen < 32 then Some (Inr e) else btf_ext_setup_field_reloc hlen e)))"

definition btf_ext__get_raw_data :: "btf_ext \<Rightarrow> u8 list \<times> u32" where
  "btf_ext__get_raw_data e = (ext_data e, ext_data_size e)"

definition btf_ext__func_info_rec_size :: "btf_ext \<Rightarrow> u32" where
  "btf_ext__func_info_rec_size e = rec_size (func_info e)"

definition btf_ext__line_info_rec_size :: "btf_ext \<Rightarrow> u32" where
  "btf_ext__line_info_rec_size e = rec_size (line_info e)"

section \<open>Walking over a segment\<close>

function btf_ext_secs :: "u8 list \<Rightarrow> u32 \<Rightarrow> nat \<Rightarrow> nat \<Rightarrow> btf_ext_info_sec list option" where
  "btf_ext_secs buf record_size sec end_sec =
     (if \<not> sec < end_sec then Some []
      else
        (case rd_sec buf sec of
           None \<Rightarrow> None
         | Some s \<Rightarrow>
             map_option (Cons s)
               (btf_ext_secs buf record_size (sec + 8 + unat (record_size * num_info s)) end_sec)))"
  by pat_completeness auto

termination btf_ext_secs
  by (relation "measure (\<lambda>(buf, r, p, q). q - p)") auto

declare btf_ext_secs.simps [simp del]

definition for_each_btf_ext_sec :: "u8 list \<Rightarrow> btf_ext_info \<Rightarrow> btf_ext_info_sec list option" where
  "for_each_btf_ext_sec buf seg =
     btf_ext_secs buf (rec_size seg) (info_at seg) (info_at seg + unat (info_len seg))"

text \<open>The places of the records of a section.\<close>

definition for_each_btf_ext_rec :: "btf_ext_info \<Rightarrow> btf_ext_info_sec \<Rightarrow> nat list" where
  "for_each_btf_ext_rec seg sec =
     map (\<lambda>i. sec_data sec + i * unat (rec_size seg)) [0..<unat (num_info sec)]"

section \<open>Copying the records of a section\<close>

definition wr32 :: "u8 list \<Rightarrow> nat \<Rightarrow> u32 \<Rightarrow> u8 list option" where
  "wr32 buf p x =
     (if p + 4 \<le> length buf then Some (take p buf @ enc32 x @ drop (p + 4) buf) else None)"

text \<open>The offset in bytes of the object file becomes an index of the program's instructions.\<close>

fun adjust_insn_offs :: "u8 list \<Rightarrow> u32 \<Rightarrow> nat \<Rightarrow> u32 \<Rightarrow> nat list \<Rightarrow> u8 list option" where
  "adjust_insn_offs buf insns_cnt existing_len record_size [] = Some buf"
| "adjust_insn_offs buf insns_cnt existing_len record_size (i # is) =
     do {
       let p = existing_len + unat (of_nat i * record_size);
       insn_off \<leftarrow> rd32 buf p;
       buf \<leftarrow> wr32 buf p (insn_off div 8 + insns_cnt);
       adjust_insn_offs buf insns_cnt existing_len record_size is
     }"

text \<open>
  The copy: the first \<open>existing_len\<close> bytes of the array of the caller, then the records. An allocation
  that is too small for both, after the sum has wrapped around, is an access outside.
\<close>

definition append_records ::
  "u8 list \<Rightarrow> btf_ext_info_sec \<Rightarrow> u32 \<Rightarrow> u32 \<Rightarrow> u8 list \<Rightarrow> u32 \<Rightarrow> u8 list option" where
  "append_records buf s record_size insns_cnt infos cnt =
     (let existing_len = unat (cnt * record_size); records_len = unat (num_info s * record_size) in
      if existing_len + records_len \<ge> 2 ^ 32 \<or> length infos < existing_len \<or>
         length buf < sec_data s + records_len then None
      else
        adjust_insn_offs (take existing_len infos @ take records_len (drop (sec_data s) buf))
          insns_cnt existing_len record_size [0..<unat (num_info s)])"

text \<open>\<open>strcmp\<close> of the name of a section; a null name is an access outside.\<close>

definition sec_named :: "btf \<Rightarrow> btf_ext_info_sec \<Rightarrow> u8 list \<Rightarrow> bool option" where
  "sec_named b s sec_name =
     do {
       name \<leftarrow> btf__name_by_offset b (sec_name_off s);
       p \<leftarrow> name;
       strcmp_eq (data b) p sec_name
     }"

function reloc_loop ::
  "btf \<Rightarrow> u8 list \<Rightarrow> u32 \<Rightarrow> u8 list \<Rightarrow> u32 \<Rightarrow> bool \<Rightarrow> nat \<Rightarrow> u64 \<Rightarrow> u8 list \<Rightarrow> u32 \<Rightarrow>
   (int \<times> u8 list \<times> u32) option" where
  "reloc_loop b buf record_size sec_name insns_cnt realloc_ok sinfo remain_len infos cnt =
     (if remain_len = 0 then Some (- ENOENT, infos, cnt)
      else
        (case rd_sec buf sinfo of
           None \<Rightarrow> None
         | Some s \<Rightarrow>
             let records_len = num_info s * record_size in
             (case sec_named b s sec_name of
                None \<Rightarrow> None
              | Some False \<Rightarrow>
                  reloc_loop b buf record_size sec_name insns_cnt realloc_ok
                    (sinfo + 8 + unat records_len) (remain_len - ucast (8 + records_len)) infos cnt
              | Some True \<Rightarrow>
                  if \<not> realloc_ok then Some (- ENOMEM, infos, cnt)
                  else
                    do {
                      new \<leftarrow> append_records buf s record_size insns_cnt infos cnt;
                      Some (0, new, cnt + num_info s)
                    })))"
  by pat_completeness auto

lemma rd_sec_inside: "rd_sec buf p = Some s \<Longrightarrow> p + 8 \<le> length buf"
  by (auto simp: rd_sec_def rd32_def bind_eq_Some_conv split: if_splits)

termination reloc_loop
  by (relation "measure (\<lambda>(b, buf, r, n, i, ok, p, rest). length buf - p)")
     (auto dest!: rd_sec_inside)

declare reloc_loop.simps [simp del]

definition btf_ext_reloc_info ::
  "btf \<Rightarrow> u8 list \<Rightarrow> btf_ext_info \<Rightarrow> u8 list \<Rightarrow> u32 \<Rightarrow> bool \<Rightarrow> u8 list \<Rightarrow> u32 \<Rightarrow>
   (int \<times> u8 list \<times> u32) option" where
  "btf_ext_reloc_info b buf seg sec_name insns_cnt realloc_ok infos cnt =
     reloc_loop b buf (rec_size seg) sec_name insns_cnt realloc_ok (info_at seg)
       (ucast (info_len seg)) infos cnt"

definition btf_ext__reloc_func_info ::
  "btf \<Rightarrow> btf_ext \<Rightarrow> u8 list \<Rightarrow> u32 \<Rightarrow> bool \<Rightarrow> u8 list \<Rightarrow> u32 \<Rightarrow> (int \<times> u8 list \<times> u32) option" where
  "btf_ext__reloc_func_info b e sec_name insns_cnt realloc_ok infos cnt =
     btf_ext_reloc_info b (ext_data e) (func_info e) sec_name insns_cnt realloc_ok infos cnt"

definition btf_ext__reloc_line_info ::
  "btf \<Rightarrow> btf_ext \<Rightarrow> u8 list \<Rightarrow> u32 \<Rightarrow> bool \<Rightarrow> u8 list \<Rightarrow> u32 \<Rightarrow> (int \<times> u8 list \<times> u32) option" where
  "btf_ext__reloc_line_info b e sec_name insns_cnt realloc_ok infos cnt =
     btf_ext_reloc_info b (ext_data e) (line_info e) sec_name insns_cnt realloc_ok infos cnt"

section \<open>Validated segments\<close>

text \<open>The sections fill the segment from \<open>p\<close> to \<open>q\<close> without a gap, and each has records.\<close>

fun secs_fill :: "nat \<Rightarrow> nat \<Rightarrow> nat \<Rightarrow> btf_ext_info_sec list \<Rightarrow> bool" where
  "secs_fill r p q [] \<longleftrightarrow> p = q"
| "secs_fill r p q (s # ss) \<longleftrightarrow>
     sec_data s = p + 8 \<and> num_info s \<noteq> 0 \<and> secs_fill r (p + 8 + unat (num_info s) * r) q ss"

definition segment_ok :: "u8 list \<Rightarrow> nat \<Rightarrow> btf_ext_info \<Rightarrow> bool" where
  "segment_ok buf min_size seg \<longleftrightarrow>
     info_at seg + unat (info_len seg) \<le> length buf \<and>
     (info_len seg \<noteq> 0 \<longrightarrow> min_size \<le> unat (rec_size seg)) \<and>
     (\<exists>secs. for_each_btf_ext_sec buf seg = Some secs \<and>
        secs_fill (unat (rec_size seg)) (info_at seg) (info_at seg + unat (info_len seg)) secs)"

lemma secs_fill_le: "secs_fill r p q ss \<Longrightarrow> p \<le> q"
  by (induction ss arbitrary: p) force+

lemma rd_sec_ok: "p + 8 \<le> length buf \<Longrightarrow> \<exists>s. rd_sec buf p = Some s"
  by (auto simp: rd_sec_def rd32_def)

lemma rd_sec_data: "rd_sec buf p = Some s \<Longrightarrow> sec_data s = p + 8"
  by (auto simp: rd_sec_def bind_eq_Some_conv)

lemma unat_mult_small:
  fixes x y :: u32
  assumes "unat x * unat y < 2 ^ 32"
  shows "unat (x * y) = unat x * unat y"
  using assms by (simp add: unat_word_ariths)

lemma check_records_fill:
  assumes "p + unat left = q" "q \<le> length buf" "q < 2 ^ 32"
  shows "\<exists>x. check_records buf r p left = Some x \<and>
    (x = Inr () \<longrightarrow> (\<exists>ss. btf_ext_secs buf r p q = Some ss \<and> secs_fill (unat r) p q ss))"
  using assms
proof (induction buf r p left rule: check_records.induct)
  case (1 buf r p left)
  show ?case
  proof (cases "left = 0 \<or> left < 8")
    case True
    then show ?thesis using "1.prems" by (auto simp: check_records.simps [of _ _ _ left] btf_ext_secs.simps)
  next
    case False
    then have big: "8 \<le> unat left" by (simp add: word_less_nat_alt not_less)
    with "1.prems" obtain s where s: "rd_sec buf p = Some s" using rd_sec_ok [of p buf] by auto
    note data = rd_sec_data [OF s]
    show ?thesis
    proof (cases "num_info s = 0 \<or> ucast left < total_record_size (num_info s) r")
      case True
      then show ?thesis using False s by (auto simp: check_records.simps [of _ _ _ left])
    next
      case step: False
      then have fits: "\<not> ucast left < total_record_size (num_info s) r" by simp
      note left = record_left [OF fits]
      have mult: "unat (r * num_info s) = unat (num_info s) * unat r"
        using left(1) "1.prems" by (subst unat_mult_small) (simp_all add: mult.commute)
      have eq: "check_records buf r p left =
          check_records buf r (p + unat (total_record_size (num_info s) r))
            (left - ucast (total_record_size (num_info s) r))"
        using False s step by (simp add: check_records.simps [of _ _ _ left] Let_def)
      obtain x where x: "check_records buf r p left = Some x"
        "x = Inr () \<Longrightarrow> \<exists>ss. btf_ext_secs buf r (p + unat (total_record_size (num_info s) r)) q = Some ss \<and>
           secs_fill (unat r) (p + unat (total_record_size (num_info s) r)) q ss"
        using "1.IH" [OF _ _ s _ refl] False step left "1.prems" eq
        by (auto simp: unat_total_record_size)
      show ?thesis
      proof (intro exI [of _ x] conjI impI x(1))
        assume "x = Inr ()"
        from x(2) [OF this] obtain ss where ss:
          "btf_ext_secs buf r (p + (8 + unat (num_info s) * unat r)) q = Some ss"
          "secs_fill (unat r) (p + (8 + unat (num_info s) * unat r)) q ss"
          by (auto simp: unat_total_record_size)
        have "p < q" using big "1.prems" by simp
        then have "btf_ext_secs buf r p q = Some (s # ss)"
          using s ss(1) mult by (simp add: btf_ext_secs.simps [of _ _ p] add.assoc)
        then show "\<exists>ss. btf_ext_secs buf r p q = Some ss \<and> secs_fill (unat r) p q ss"
          using ss(2) data step by (intro exI [of _ "s # ss"]) (simp add: add.assoc)
      qed
    qed
  qed
qed

lemma no_info_ok [simp]: "segment_ok buf n no_info"
  by (simp add: segment_ok_def no_info_def for_each_btf_ext_sec_def btf_ext_secs.simps)

lemma setup_info_ok:
  assumes "length buf < 2 ^ 32" "segment_ok buf (unat (min_rec_size param)) (ext_info param)"
  shows "\<exists>x. btf_ext_setup_info buf hlen param = Some x \<and>
    (\<forall>i. x = Inr i \<longrightarrow> segment_ok buf (unat (min_rec_size param)) i)"
proof -
  let ?info = "unat hlen + unat (sec_off param)"
  consider "sec_len param = 0" | "sec_len param \<noteq> 0" "and (sec_off param) 0x03 \<noteq> 0 \<or>
       length buf < ?info + unat (sec_len param) \<or> sec_len param < 4"
    | "sec_len param \<noteq> 0" "and (sec_off param) 0x03 = 0" "?info + unat (sec_len param) \<le> length buf"
      "\<not> sec_len param < 4"
    by (meson not_less)
  then show ?thesis
  proof cases
    case 3
    then have len: "4 \<le> unat (sec_len param)" by (simp add: word_less_nat_alt not_less)
    have left: "unat (sec_len param - 4) = unat (sec_len param) - 4"
      using len by (subst unat_sub) (simp_all add: word_le_nat_alt)
    obtain rs where rs: "rd32 buf ?info = Some rs" using rd_inside(3) [of ?info buf] 3 len by auto
    let ?seg = "\<lparr>info_at = ?info + 4, rec_size = rs, info_len = sec_len param - 4\<rparr>"
    have fill: "\<exists>x. check_records buf rs (?info + 4) (sec_len param - 4) = Some x \<and>
      (x = Inr () \<longrightarrow> (\<exists>ss. btf_ext_secs buf rs (?info + 4) (?info + unat (sec_len param)) = Some ss \<and>
         secs_fill (unat rs) (?info + 4) (?info + unat (sec_len param)) ss))"
      using 3 left len assms(1) by (intro check_records_fill) simp_all
    show ?thesis
    proof (cases "rs < min_rec_size param \<or> and rs 0x03 \<noteq> 0 \<or> sec_len param - 4 = 0")
      case True
      then show ?thesis using 3 rs by (auto simp: btf_ext_setup_info_def Let_def)
    next
      case False
      from fill obtain x where x: "check_records buf rs (?info + 4) (sec_len param - 4) = Some x"
        "x = Inr () \<Longrightarrow> (\<exists>ss. btf_ext_secs buf rs (?info + 4) (?info + unat (sec_len param)) = Some ss \<and>
         secs_fill (unat rs) (?info + 4) (?info + unat (sec_len param)) ss)" by blast
      have "btf_ext_setup_info buf hlen param = Some (case x of Inl e \<Rightarrow> Inl e | Inr () \<Rightarrow> Inr ?seg)"
        using 3 rs x(1) False by (simp add: btf_ext_setup_info_def Let_def)
      moreover have "segment_ok buf (unat (min_rec_size param)) ?seg" if "x = Inr ()"
      proof -
        have q: "info_at ?seg + unat (info_len ?seg) = ?info + unat (sec_len param)"
          using left len by simp
        have "unat (min_rec_size param) \<le> unat rs"
          using False by (simp add: word_le_nat_alt not_less)
        moreover have "for_each_btf_ext_sec buf ?seg =
            btf_ext_secs buf rs (?info + 4) (?info + unat (sec_len param))"
          unfolding for_each_btf_ext_sec_def q by simp
        ultimately show ?thesis
          using x(2) [OF that] 3(3) unfolding segment_ok_def q by simp
      qed
      ultimately show ?thesis
        by (cases x) (simp_all add: case_unit_Unity)
    qed
  qed (use assms in \<open>auto simp: btf_ext_setup_info_def Let_def\<close>)
qed

definition ext_ok :: "btf_ext \<Rightarrow> bool" where
  "ext_ok e \<longleftrightarrow> segment_ok (ext_data e) 8 (func_info e) \<and> segment_ok (ext_data e) 16 (line_info e) \<and>
     segment_ok (ext_data e) 16 (field_reloc_info e)"

lemma and_then_ok:
  assumes "\<exists>x. r = Some x \<and> (\<forall>e. x = Inr e \<longrightarrow> P e)"
    "\<And>e. P e \<Longrightarrow> \<exists>x. f e = Some x \<and> (\<forall>e. x = Inr e \<longrightarrow> Q e)"
  shows "\<exists>x. and_then r f = Some x \<and> (\<forall>e. x = Inr e \<longrightarrow> Q e)"
proof -
  obtain x where x: "r = Some x" "\<forall>e. x = Inr e \<longrightarrow> P e" using assms(1) by blast
  then show ?thesis using assms(2) by (cases x) (auto simp: and_then_def)
qed

lemma setup_segment_ok:
  assumes "length buf < 2 ^ 32" "segment_ok buf (unat m) i" "field + 8 \<le> length buf"
  shows "\<exists>x. setup_segment buf hlen field m i = Some x \<and> (\<forall>i. x = Inr i \<longrightarrow> segment_ok buf (unat m) i)"
proof -
  obtain off len where rd: "rd32 buf field = Some off" "rd32 buf (field + 4) = Some len"
    using rd_inside(3) [of field buf] rd_inside(3) [of "field + 4" buf] assms(3) by auto
  let ?param = "\<lparr>sec_off = off, sec_len = len, min_rec_size = m, ext_info = i\<rparr>"
  show ?thesis using setup_info_ok [OF assms(1), of ?param hlen] assms(2) rd by (simp add: setup_segment_def)
qed

lemma setup_ok:
  assumes "\<exists>x. r = Some x \<and> (\<forall>i. x = Inr i \<longrightarrow> P i)" "\<And>i. P i \<Longrightarrow> Q (g i)"
  shows "\<exists>x. map_option (map_sum (\<lambda>x. x) g) r = Some x \<and> (\<forall>e. x = Inr e \<longrightarrow> Q e)"
proof -
  obtain x where x: "r = Some x" "\<forall>e. x = Inr e \<longrightarrow> P e" using assms(1) by blast
  then show ?thesis using assms(2) by (cases x) auto
qed

lemma ext_parse_hdr_ok:
  assumes "length buf < 2 ^ 32"
  shows "\<exists>x. btf_ext_parse_hdr buf (of_nat (length buf)) = Some x \<and>
    (\<forall>h. x = Inr h \<longrightarrow> unat h \<le> length buf)"
proof -
  have len: "unat (of_nat (length buf) :: u32) = length buf"
    using assms by (intro unat_of_nat_small) simp
  show ?thesis
  proof (cases "(of_nat (length buf) :: u32) < 8")
    case False
    then have "8 \<le> length buf" using len by (simp add: word_less_nat_alt not_less)
    then obtain h where "rd_ext_header buf = Some h"
      using rd_inside(1) [of 2 buf] rd_inside(1) [of 3 buf] rd_inside(2) [of 0 buf] rd_inside(3) [of 4 buf]
      by (auto simp: rd_ext_header_def)
    then show ?thesis using False len by (auto simp: btf_ext_parse_hdr_def word_less_nat_alt not_less)
  qed (simp add: btf_ext_parse_hdr_def)
qed

text \<open>C6: validation of \<open>.BTF.ext\<close> is memory safe and sufficient. Whatever the bytes, the constructor
  returns without a read outside them. When it accepts, each of the three segments lies in the data, has
  records of at least the size the loader relies on, and the walk over its sections ends exactly at the
  end of the segment, every section with its header and all its records inside.\<close>

theorem btf_ext_new_safe:
  assumes "length bytes < 2 ^ 32"
  shows "\<exists>x. btf_ext__new calloc_ok malloc_ok bytes = Some x \<and>
    (\<forall>e. x = Inr e \<longrightarrow> ext_data e = bytes \<and> ext_ok e)"
proof -
  let ?P = "\<lambda>e. ext_data e = bytes \<and> ext_ok e"
  have func: "\<exists>x. btf_ext_setup_func_info h e = Some x \<and> (\<forall>e. x = Inr e \<longrightarrow> ?P e)"
    if "?P e" "24 \<le> length bytes" for h e
    unfolding btf_ext_setup_func_info_def using that assms
    by (intro setup_ok [OF setup_segment_ok]) (auto simp: ext_ok_def)
  have line: "\<exists>x. btf_ext_setup_line_info h e = Some x \<and> (\<forall>e. x = Inr e \<longrightarrow> ?P e)"
    if "?P e" "24 \<le> length bytes" for h e
    unfolding btf_ext_setup_line_info_def using that assms
    by (intro setup_ok [OF setup_segment_ok]) (auto simp: ext_ok_def)
  have field: "\<exists>x. btf_ext_setup_field_reloc h e = Some x \<and> (\<forall>e. x = Inr e \<longrightarrow> ?P e)"
    if "?P e" "32 \<le> length bytes" for h e
    unfolding btf_ext_setup_field_reloc_def using that assms
    by (intro setup_ok [OF setup_segment_ok]) (auto simp: ext_ok_def)
  show ?thesis
    unfolding btf_ext__new_def
  proof (rule and_then_ok [OF ext_parse_hdr_ok [OF assms]])
    fix h :: u32
    assume h: "unat h \<le> length bytes"
    let ?e = "\<lparr>ext_data = bytes, func_info = no_info, line_info = no_info,
               field_reloc_info = no_info, ext_data_size = of_nat (length bytes)\<rparr>"
    have e: "?P ?e" by (simp add: ext_ok_def)
    have rest: "\<exists>x. and_then (btf_ext_setup_func_info h ?e)
        (\<lambda>e. and_then (btf_ext_setup_line_info h e)
          (\<lambda>e. if h < 32 then Some (Inr e) else btf_ext_setup_field_reloc h e)) = Some x \<and>
        (\<forall>e. x = Inr e \<longrightarrow> ?P e)" if "\<not> h < 24"
    proof -
      have size: "24 \<le> length bytes" using that h by (simp add: word_less_nat_alt not_less)
      show ?thesis
      proof (intro and_then_ok [OF func [OF e size]] and_then_ok [OF line [OF _ size]])
        fix e e' assume e': "?P e'"
        show "\<exists>x. (if h < 32 then Some (Inr e') else btf_ext_setup_field_reloc h e') = Some x \<and>
        (\<forall>e. x = Inr e \<longrightarrow> ?P e)"
        using e' field [OF e'] h by (auto simp: word_less_nat_alt not_less)
      qed
    qed
    show "\<exists>x. (if \<not> calloc_ok then Some (Inl (- ENOMEM)) else if \<not> malloc_ok then Some (Inl (- ENOMEM))
       else let e = ?e in if h < 24 then Some (Inr e)
         else and_then (btf_ext_setup_func_info h e)
           (\<lambda>e. and_then (btf_ext_setup_line_info h e)
             (\<lambda>e. if h < 32 then Some (Inr e) else btf_ext_setup_field_reloc h e))) = Some x \<and>
      (\<forall>e. x = Inr e \<longrightarrow> ?P e)"
      using rest e by (simp add: Let_def)
  qed
qed

text \<open>One function record, for instruction offset 16 and type 3, in the section named at offset 1.\<close>

definition sample_ext :: "u8 list" where
  "sample_ext =
     enc16 BTF_MAGIC @ [BTF_VERSION, 0] @ enc32 32 @ enc32 0 @ enc32 20 @ enc32 20 @ enc32 0 @
     enc32 20 @ enc32 0 @ enc32 8 @ enc32 1 @ enc32 1 @ enc32 16 @ enc32 3"

theorem btf_ext_new_safe_witness:
  "\<exists>x. btf_ext__new True True sample_ext = Some x \<and>
    (\<forall>e. x = Inr e \<longrightarrow> ext_data e = sample_ext \<and> ext_ok e)"
  by (rule btf_ext_new_safe) (simp add: sample_ext_def)

section \<open>The copied records\<close>

text \<open>The record at \<open>p\<close>, its first word now the index of an instruction of the program.\<close>

definition moved_record :: "u8 list \<Rightarrow> nat \<Rightarrow> u32 \<Rightarrow> nat \<Rightarrow> u8 list" where
  "moved_record buf r insns_cnt p =
     enc32 (le32 (drop p buf) div 8 + insns_cnt) @ take (r - 4) (drop (p + 4) buf)"

lemma length_moved_record:
  "p + r \<le> length buf \<Longrightarrow> 4 \<le> r \<Longrightarrow> length (moved_record buf r c p) = r"
  by (simp add: moved_record_def)

lemma adjust_insn_offs_records:
  assumes "length pre = e + i * unat r" "length recs = k * unat r" "4 \<le> unat r"
    "e + (i + k) * unat r < 2 ^ 32"
  shows "adjust_insn_offs (pre @ recs) c e r [i..<i + k] =
    Some (pre @ concat (map (\<lambda>j. moved_record recs (unat r) c (j * unat r)) [0..<k]))"
  using assms
proof (induction k arbitrary: i pre recs)
  case 0
  then show ?case by simp
next
  case (Suc k)
  let ?r = "unat r"
  let ?rec = "moved_record recs ?r c 0" and ?rest = "drop ?r recs"
  have len: "?r \<le> length recs" using Suc.prems(2) by simp
  have small: "i * ?r < 2 ^ 32" "i < 2 ^ 32"
  proof -
    show "i * ?r < 2 ^ 32" using Suc.prems(4) by (simp add: add_mult_distrib)
    moreover have "i \<le> i * ?r" using Suc.prems(3) by (cases "?r") simp_all
    ultimately show "i < 2 ^ 32" by (meson le_less_trans)
  qed
  then have at: "unat (of_nat i * r) = i * ?r"
    by (subst unat_mult_small) (simp_all add: unat_of_nat_small)
  have read: "rd32 (pre @ recs) (length pre) = Some (le32 recs)"
    using len Suc.prems(3) by (simp add: rd32_def)
  have "take (?r - 4) (drop 4 recs) @ ?rest = drop 4 recs"
    using append_take_drop_id [of "?r - 4" "drop 4 recs"] Suc.prems(3) by simp
  then have "wr32 (pre @ recs) (length pre) (le32 recs div 8 + c) = Some (pre @ ?rec @ ?rest)"
    using len Suc.prems(3) by (simp add: wr32_def moved_record_def)
  moreover have upt: "[i..<i + Suc k] = i # [Suc i..<Suc i + k]"
    by (simp add: upt_conv_Cons del: upt_Suc)
  ultimately have step: "adjust_insn_offs (pre @ recs) c e r [i..<i + Suc k] =
      adjust_insn_offs ((pre @ ?rec) @ ?rest) c e r [Suc i..<Suc i + k]"
    using read at Suc.prems(1) unfolding upt by (simp del: upt_Suc)
  have rec: "length ?rec = ?r" using len Suc.prems(3) by (simp add: length_moved_record)
  have "adjust_insn_offs ((pre @ ?rec) @ ?rest) c e r [Suc i..<Suc i + k] =
      Some ((pre @ ?rec) @ concat (map (\<lambda>j. moved_record ?rest ?r c (j * ?r)) [0..<k]))"
    using Suc.prems rec by (intro Suc.IH) simp_all
  moreover have "moved_record ?rest ?r c (j * ?r) = moved_record recs ?r c (Suc j * ?r)" for j
    by (simp add: moved_record_def add.commute add.left_commute)
  moreover have "[0..<Suc k] = 0 # map Suc [0..<k]" by (simp add: upt_conv_Cons map_Suc_upt del: upt_Suc)
  ultimately show ?case unfolding step by (simp add: comp_def)
qed

lemma append_records_moved:
  assumes fits: "sec_data s + unat (num_info s) * unat r \<le> length buf" and r: "4 \<le> unat r"
    and infos: "length infos = unat cnt * unat r"
    and room: "(unat cnt + unat (num_info s)) * unat r < 2 ^ 32"
  shows "append_records buf s r c infos cnt =
    Some (infos @ concat (map (moved_record buf (unat r) c)
      (map (\<lambda>i. sec_data s + i * unat r) [0..<unat (num_info s)])))"
proof -
  let ?n = "unat (num_info s)" and ?r = "unat r"
  let ?recs = "take (?n * ?r) (drop (sec_data s) buf)"
  have mult: "unat (cnt * r) = unat cnt * ?r" "unat (num_info s * r) = ?n * ?r"
    using room by (simp_all add: unat_mult_small add_mult_distrib)
  have "adjust_insn_offs (infos @ ?recs) c (unat cnt * ?r) r [0..<0 + ?n] =
      Some (infos @ concat (map (\<lambda>j. moved_record ?recs ?r c (j * ?r)) [0..<?n]))"
    using infos fits r room by (intro adjust_insn_offs_records) (simp_all add: add_mult_distrib)
  moreover have "moved_record ?recs ?r c (j * ?r) = moved_record buf ?r c (sec_data s + j * ?r)"
    if "j < ?n" for j
  proof -
    have "Suc j * ?r \<le> ?n * ?r" using that by (intro mult_le_mono1) simp
    then have j: "j * ?r + ?r \<le> ?n * ?r" by simp
    have "le32 (drop (j * ?r) ?recs) = le32 (drop (sec_data s + j * ?r) buf)"
      using j r le32_take [of "?n * ?r - j * ?r" "drop (sec_data s + j * ?r) buf"]
      by (simp add: drop_take add.commute)
    then show ?thesis using j by (simp add: moved_record_def drop_take add.commute add.left_commute)
  qed
  then have "map (\<lambda>j. moved_record ?recs ?r c (j * ?r)) [0..<?n] =
      map (moved_record buf ?r c) (map (\<lambda>i. sec_data s + i * ?r) [0..<?n])" by simp
  ultimately show ?thesis using mult room infos fits
    by (simp add: append_records_def Let_def add_mult_distrib)
qed

text \<open>
  What the function makes of the caller's array: it looks for the first section that has the name or
  whose name cannot be compared. \<open>None\<close> is an access outside.
\<close>

definition reloc_result ::
  "btf \<Rightarrow> u8 list \<Rightarrow> btf_ext_info \<Rightarrow> btf_ext_info_sec list \<Rightarrow> u8 list \<Rightarrow> u32 \<Rightarrow> bool \<Rightarrow> u8 list \<Rightarrow> u32 \<Rightarrow>
   (int \<times> u8 list \<times> u32) option" where
  "reloc_result b buf seg secs name insns_cnt realloc_ok infos cnt =
     (case find (\<lambda>s. sec_named b s name \<noteq> Some False) secs of
        None \<Rightarrow> Some (- ENOENT, infos, cnt)
      | Some s \<Rightarrow>
          if sec_named b s name = None then None
          else if \<not> realloc_ok then Some (- ENOMEM, infos, cnt)
          else if (unat cnt + unat (num_info s)) * unat (rec_size seg) \<ge> 2 ^ 32 then None
          else Some (0, infos @ concat (map (moved_record buf (unat (rec_size seg)) insns_cnt)
                 (for_each_btf_ext_rec seg s)), cnt + num_info s))"

lemma reloc_loop_result:
  assumes "btf_ext_secs buf r p q = Some secs" "secs_fill (unat r) p q secs"
    "unat remain = q - p" "q \<le> length buf" "q < 2 ^ 32" "4 \<le> unat r"
    "length infos = unat cnt * unat r" "length infos < 2 ^ 32" "r = rec_size seg"
  shows "reloc_loop b buf r name c ok p remain infos cnt = reloc_result b buf seg secs name c ok infos cnt"
  using assms
proof (induction secs arbitrary: p remain)
  case Nil
  then have "p = q" by simp
  with Nil.prems(3) have "remain = 0" by (simp add: unat_eq_0)
  then show ?case by (simp add: reloc_loop.simps reloc_result_def)
next
  case (Cons s ss)
  let ?len = "unat (num_info s) * unat r"
  have fill: "secs_fill (unat r) (p + 8 + ?len) q ss" "sec_data s = p + 8"
    using Cons.prems(2) by simp_all
  then have le: "p + 8 + ?len \<le> q" by (auto dest: secs_fill_le)
  then have pos: "remain \<noteq> 0" using Cons.prems(3) by auto
  have mult: "unat (num_info s * r) = ?len" using le Cons.prems(5) by (simp add: unat_mult_small)
  obtain s' where s': "rd_sec buf p = Some s'" using rd_sec_ok [of p buf] le Cons.prems(4) by auto
  have secs: "s' = s" "btf_ext_secs buf r (p + 8 + ?len) q = Some ss"
    using Cons.prems(1) s' le mult by (auto simp: btf_ext_secs.simps [of _ _ p] mult.commute)
  show ?case
  proof (cases "sec_named b s name")
    case None
    then show ?thesis using pos s' secs(1)
      by (simp add: reloc_loop.simps [of _ _ _ _ _ _ p] reloc_result_def Let_def)
  next
    case m: (Some m)
    show ?thesis
    proof (cases m)
    case True
    have cnt: "unat (cnt * r) = unat cnt * unat r" using Cons.prems(7,8) by (simp add: unat_mult_small)
    have small: "append_records buf s r c infos cnt = None" if "(unat cnt + unat (num_info s)) * unat r \<ge> 2 ^ 32"
      using that cnt mult by (simp add: append_records_def Let_def add_mult_distrib)
    have "append_records buf s r c infos cnt = Some (infos @ concat (map (moved_record buf (unat r) c)
        (map (\<lambda>i. sec_data s + i * unat r) [0..<unat (num_info s)])))"
      if "(unat cnt + unat (num_info s)) * unat r < 2 ^ 32"
      using Cons.prems fill le that by (intro append_records_moved) simp_all
    then show ?thesis using True m pos s' secs(1) Cons.prems(9) small
      by (cases "(unat cnt + unat (num_info s)) * unat r < 2 ^ 32")
        (simp_all add: reloc_loop.simps [of _ _ _ _ _ _ p] reloc_result_def for_each_btf_ext_rec_def comp_def)
  next
    case False
    have "unat (8 + num_info s * r) = 8 + ?len"
      using le Cons.prems(5) mult by (subst unat_add_lem [THEN iffD1]) simp_all
    then have "unat (ucast (8 + num_info s * r) :: u64) = 8 + ?len"
      using le Cons.prems(5) by (simp add: unsigned_ucast_eq take_bit_nat_eq_self)
    then have "unat (remain - ucast (8 + num_info s * r)) = q - (p + 8 + ?len)"
      using Cons.prems(3) le by (subst unat_sub) (simp_all add: word_le_nat_alt)
    then have "reloc_loop b buf r name c ok (p + 8 + ?len) (remain - ucast (8 + num_info s * r)) infos cnt =
        reloc_result b buf seg ss name c ok infos cnt"
      using Cons.prems secs(2) fill(1) by (intro Cons.IH) simp_all
    then show ?thesis using False m pos s' secs(1) mult
      by (simp add: reloc_loop.simps [of _ _ _ _ _ _ p] reloc_result_def Let_def)
    qed
  qed
qed

text \<open>C7: the copy into the program's information, in every case. Take a segment that validation accepted, of
  less than 4 GB, and the caller's array with its count of records, also of less than 4 GB. If no section
  has the name, nothing changes and the result is \<open>-ENOENT\<close>. Otherwise the first section with the name
  counts. If the array cannot be enlarged the result is \<open>-ENOMEM\<close> and nothing changes; if it can, the
  records of that section are appended to it in their order, each with its byte offset turned into the
  index of an instruction of the whole program and all other bytes unchanged, and the count grows by
  their number. There are exactly two accesses outside: when the name of a section up to the one looked
  for does not resolve to a string, which validation does not check and \<open>strcmp\<close> then reads, and when the
  new array would have 4 GB or more, so that its size wraps around.\<close>

theorem btf_ext_reloc_copies:
  assumes "segment_ok buf 4 seg" "for_each_btf_ext_sec buf seg = Some secs" "length buf < 2 ^ 32"
    "length infos = unat cnt * unat (rec_size seg)" "length infos < 2 ^ 32"
  shows "btf_ext_reloc_info b buf seg name insns_cnt realloc_ok infos cnt =
    reloc_result b buf seg secs name insns_cnt realloc_ok infos cnt"
proof (cases "info_len seg = 0")
  case True
  then have "secs = []" using assms(2) by (simp add: for_each_btf_ext_sec_def btf_ext_secs.simps)
  then show ?thesis using True
    by (simp add: btf_ext_reloc_info_def reloc_loop.simps reloc_result_def)
next
  case False
  have "secs_fill (unat (rec_size seg)) (info_at seg) (info_at seg + unat (info_len seg)) secs"
    using assms(1,2) by (simp add: segment_ok_def)
  moreover have "unat (ucast (info_len seg) :: u64) = info_at seg + unat (info_len seg) - info_at seg"
    using unsigned_less [of "info_len seg", where ?'a = nat]
    by (simp add: unsigned_ucast_eq take_bit_nat_eq_self)
  ultimately show ?thesis using assms False
    unfolding btf_ext_reloc_info_def for_each_btf_ext_sec_def
    by (intro reloc_loop_result [where q = "info_at seg + unat (info_len seg)"]) (simp_all add: segment_ok_def)
qed

text \<open>A section whose name offset is outside the string section, or at a string the parser gives no
  pointer for, makes the function compare a null pointer, although \<open>btf_ext__new\<close> has accepted the data.\<close>

lemma btf_ext_reloc_null_name:
  assumes "rd_sec buf (info_at seg) = Some s" "info_len seg \<noteq> 0"
    "btf__name_by_offset b (sec_name_off s) = Some None"
  shows "btf_ext_reloc_info b buf seg name insns_cnt realloc_ok infos cnt = None"
proof -
  have "(ucast (info_len seg) :: u64) \<noteq> 0"
  proof
    assume "(ucast (info_len seg) :: u64) = 0"
    then have "unat (ucast (info_len seg) :: u64) = 0" by simp
    then have "unat (info_len seg) = 0"
      using unsigned_less [of "info_len seg", where ?'a = nat]
      by (simp add: unsigned_ucast_eq take_bit_nat_eq_self)
    then show False using assms(2) by (simp add: unat_eq_zero)
  qed
  then show ?thesis using assms
    by (simp add: btf_ext_reloc_info_def reloc_loop.simps sec_named_def Let_def)
qed

text \<open>The strings of the sample: the empty name and \<open>i\<close> at offset 1.\<close>

definition sample_names :: btf where
  "sample_names =
     \<lparr>data = enc_header 0 3 @ [0, 105, 0], types = [], strings = 24, nohdr_data = 24, nr_types = 0,
      types_size = 0, data_size = 27, fd = - 1\<rparr>"

definition sample_seg :: btf_ext_info where
  "sample_seg = \<lparr>info_at = 36, rec_size = 8, info_len = 16\<rparr>"

definition sample_sec :: btf_ext_info_sec where
  "sample_sec = \<lparr>sec_name_off = 1, num_info = 1, sec_data = 44\<rparr>"

lemma rd_sec_sample: "rd_sec sample_ext 36 = Some sample_sec"
proof -
  let ?pre = "enc16 BTF_MAGIC @ [BTF_VERSION, 0] @ enc32 32 @ enc32 0 @ enc32 20 @ enc32 20 @ enc32 0 @
     enc32 20 @ enc32 0 @ enc32 8"
  have "sample_ext = ?pre @ enc32 1 @ enc32 1 @ enc32 16 @ enc32 3" by (simp add: sample_ext_def)
  moreover have "length ?pre = 36" by simp
  ultimately have "drop 36 sample_ext = enc32 1 @ enc32 1 @ enc32 16 @ enc32 3"
    by (metis append_eq_conv_conj)
  then have "rd32 (drop 36 sample_ext) 0 = Some 1" "rd32 (drop 36 sample_ext) 4 = Some 1"
    by (simp_all add: rd32_def)
  then show ?thesis by (simp add: rd_drop rd_sec_def sample_sec_def)
qed

lemma sample_secs: "for_each_btf_ext_sec sample_ext sample_seg = Some [sample_sec]"
  by (simp add: for_each_btf_ext_sec_def sample_seg_def btf_ext_secs.simps rd_sec_sample)
     (simp add: sample_sec_def)

lemma sample_named: "sec_named sample_names sample_sec [105] = Some True"
  "sec_named sample_names sample_sec [106] = Some False"
  by (simp_all add: sec_named_def sample_names_def sample_sec_def btf__name_by_offset_def enc_header_def
      rd32_def rd8_def enc32_def enc16_def)

lemma sample_segment: "segment_ok sample_ext 4 sample_seg"
  using sample_secs
  by (simp add: segment_ok_def) (simp add: sample_seg_def sample_sec_def sample_ext_def)

theorem btf_ext_reloc_copies_witness:
  "btf_ext_reloc_info sample_names sample_ext sample_seg [105] 100 True [] 0 =
    Some (0, moved_record sample_ext 8 100 44, 1) \<and>
   btf_ext_reloc_info sample_names sample_ext sample_seg [105] 100 False [] 0 = Some (- ENOMEM, [], 0) \<and>
   btf_ext_reloc_info sample_names sample_ext sample_seg [106] 100 True [] 0 = Some (- ENOENT, [], 0)"
proof -
  have sizes: "length sample_ext < 2 ^ 32" "length ([] :: u8 list) = unat (0 :: u32) * unat (rec_size sample_seg)"
    "length ([] :: u8 list) < 2 ^ 32"
    by (simp_all add: sample_ext_def)
  show ?thesis
    unfolding btf_ext_reloc_copies [OF sample_segment sample_secs sizes]
    by (simp add: reloc_result_def sample_named for_each_btf_ext_rec_def)
      (simp add: sample_seg_def sample_sec_def)
qed

end
