(* ===== verification/Core_Spec.thy ===== *)
theory Core_Spec
  imports Btf
begin

text \<open>
  The field specifications of CO-RE relocations, \<open>libbpf/src/libbpf.c\<close> lines 1046 to 1061 and 2508 to
  2993: parsing an access string against the local types, names without flavor, the candidates among the
  types of the kernel, compatibility of fields, and the search for a local field in a target type. As in
  \<open>Btf\<close>, \<open>None\<close> is an access outside the data or through a null pointer; it is also the value of a walk
  over typedefs that never ends.
\<close>

section \<open>Strings and members\<close>

text \<open>The bytes of a C string up to its terminator.\<close>

definition cstr :: "u8 list \<Rightarrow> nat \<Rightarrow> u8 list option" where
  "cstr buf p =
     (let s = takeWhile (\<lambda>c. c \<noteq> 0) (drop p buf) in
      if p + length s < length buf then Some s else None)"

text \<open>\<open>btf__name_by_offset\<close>, with the characters in place of the pointer; \<open>Some None\<close> is the null pointer.\<close>

definition name_str :: "btf \<Rightarrow> u32 \<Rightarrow> u8 list option option" where
  "name_str b off =
     do {
       name \<leftarrow> btf__name_by_offset b off;
       (case name of None \<Rightarrow> Some None | Some p \<Rightarrow> map_option Some (cstr (data b) p))
     }"

definition str_is_empty :: "u8 list option \<Rightarrow> bool" where
  "str_is_empty s \<longleftrightarrow> s = None \<or> s = Some []"

definition btf_is_composite :: "btf_type \<Rightarrow> bool" where
  "btf_is_composite t \<longleftrightarrow> btf_kind t = BTF_KIND_STRUCT \<or> btf_kind t = BTF_KIND_UNION"

definition btf_is_array :: "btf_type \<Rightarrow> bool" where "btf_is_array t \<longleftrightarrow> btf_kind t = BTF_KIND_ARRAY"

record btf_member =
  m_name_off :: u32
  m_type :: u32
  m_offset :: u32

text \<open>Member \<open>i\<close> of the array behind a type.\<close>

definition btf_members :: "btf \<Rightarrow> btf_ptr \<Rightarrow> nat \<Rightarrow> btf_member option" where
  "btf_members b t i =
     (case t of
        BtfVoid \<Rightarrow> None
      | BtfAt p \<Rightarrow>
          do {
            n \<leftarrow> rd32 (data b) (p + 12 + 12 * i);
            ty \<leftarrow> rd32 (data b) (p + 12 + 12 * i + 4);
            off \<leftarrow> rd32 (data b) (p + 12 + 12 * i + 8);
            Some \<lparr>m_name_off = n, m_type = ty, m_offset = off\<rparr>
          })"

definition btf_member_bit_offset :: "btf \<Rightarrow> btf_ptr \<Rightarrow> u32 \<Rightarrow> u32 option" where
  "btf_member_bit_offset b t member_idx =
     do {
       ty \<leftarrow> deref b t;
       m \<leftarrow> btf_members b t (unat member_idx);
       Some (if btf_kflag ty then BTF_MEMBER_BIT_OFFSET (m_offset m) else m_offset m)
     }"

definition btf_member_bitfield_size :: "btf \<Rightarrow> btf_ptr \<Rightarrow> u32 \<Rightarrow> u32 option" where
  "btf_member_bitfield_size b t member_idx =
     do {
       ty \<leftarrow> deref b t;
       m \<leftarrow> btf_members b t (unat member_idx);
       Some (if btf_kflag ty then BTF_MEMBER_BITFIELD_SIZE (m_offset m) else 0)
     }"

text \<open>The word behind an integer type.\<close>

definition BTF_INT_ENCODING :: "u32 \<Rightarrow> u32" where "BTF_INT_ENCODING val = drop_bit 24 (and val 0x0f000000)"
definition BTF_INT_OFFSET :: "u32 \<Rightarrow> u32" where "BTF_INT_OFFSET val = drop_bit 16 (and val 0x00ff0000)"

definition int_word :: "btf \<Rightarrow> btf_ptr \<Rightarrow> u32 option" where
  "int_word b t = (case t of BtfVoid \<Rightarrow> None | BtfAt p \<Rightarrow> rd32 (data b) (p + 12))"

definition btf_int_encoding :: "btf \<Rightarrow> btf_ptr \<Rightarrow> u8 option" where
  "btf_int_encoding b t = map_option (\<lambda>w. ucast (BTF_INT_ENCODING w)) (int_word b t)"

definition btf_int_offset :: "btf \<Rightarrow> btf_ptr \<Rightarrow> u8 option" where
  "btf_int_offset b t = map_option (\<lambda>w. ucast (BTF_INT_OFFSET w)) (int_word b t)"

section \<open>Qualifiers and typedefs\<close>

text \<open>
  The loop reads the type before it tests it, so it never ends at a null pointer; the result is the
  type and its id.
\<close>

partial_function (option) skip_from :: "btf \<Rightarrow> btf_ptr option \<Rightarrow> u32 \<Rightarrow> (btf_ptr \<times> u32) option" where
  "skip_from b t tid =
     (case t of
        None \<Rightarrow> None
      | Some p \<Rightarrow>
          do {
            ty \<leftarrow> deref b p;
            if btf_is_mod ty \<or> btf_is_typedef ty then
              do {
                t \<leftarrow> btf__type_by_id b (size_type ty);
                skip_from b t (size_type ty)
              }
            else Some (p, tid)
          })"

definition skip_mods_and_typedefs :: "btf \<Rightarrow> u32 \<Rightarrow> (btf_ptr \<times> u32) option" where
  "skip_mods_and_typedefs b tid =
     do {
       t \<leftarrow> btf__type_by_id b tid;
       skip_from b t tid
     }"

section \<open>Access strings\<close>

definition BPF_CORE_SPEC_MAX_LEN :: nat where "BPF_CORE_SPEC_MAX_LEN = 64"

record bpf_core_accessor =
  acc_type_id :: u32
  acc_idx :: u32
  acc_name :: "u8 list option"

text \<open>The lists are the used parts of the two arrays, their lengths \<open>len\<close> and \<open>raw_len\<close>.\<close>

record bpf_core_spec =
  spec_btf :: btf
  spec :: "bpf_core_accessor list"
  raw_spec :: "int list"
  bit_offset :: u32

definition colon :: u8 where "colon = 58"

definition isspace :: "u8 \<Rightarrow> bool" where "isspace c \<longleftrightarrow> c = 32 \<or> 9 \<le> c \<and> c \<le> 13"
definition isdigit :: "u8 \<Rightarrow> bool" where "isdigit c \<longleftrightarrow> 48 \<le> c \<and> c \<le> 57"

definition digits_value :: "u8 list \<Rightarrow> int" where
  "digits_value ds = foldl (\<lambda>n c. 10 * n + (uint c - 48)) 0 ds"

text \<open>
  \<open>sscanf\<close> with \<open>%d%n\<close>: leading white space, an optional sign, digits; \<open>Some None\<close> when there are none.
  A number that does not fit into an \<open>int\<close> is undefined.
\<close>

definition sscanf_d :: "u8 list \<Rightarrow> (int \<times> u8 list) option option" where
  "sscanf_d s =
     (let s = dropWhile isspace s;
          neg = (s \<noteq> [] \<and> hd s = 45);
          s = (if s \<noteq> [] \<and> (hd s = 45 \<or> hd s = 43) then tl s else s);
          ds = takeWhile isdigit s;
          v = (if neg then - digits_value ds else digits_value ds)
      in if ds = [] then Some None
         else if - (2 ^ 31) \<le> v \<and> v < 2 ^ 31 then Some (Some (v, dropWhile isdigit s))
         else None)"

lemma length_dropWhile_take:
  "takeWhile P xs \<noteq> [] \<Longrightarrow> length (dropWhile P xs) < length xs"
  by (cases xs) (auto simp: le_imp_less_Suc length_dropWhile_le split: if_splits)

lemma sscanf_d_shorter: "sscanf_d s = Some (Some (v, r)) \<Longrightarrow> length r < length s"
proof -
  assume a: "sscanf_d s = Some (Some (v, r))"
  let ?s1 = "dropWhile isspace s"
  let ?s2 = "if ?s1 \<noteq> [] \<and> (hd ?s1 = 45 \<or> hd ?s1 = 43) then tl ?s1 else ?s1"
  have "takeWhile isdigit ?s2 \<noteq> []" "r = dropWhile isdigit ?s2"
    using a unfolding sscanf_d_def Let_def by (auto split: if_splits)
  then have "length r < length ?s2" by (simp add: length_dropWhile_take del: dropWhile_eq_Nil_conv)
  also have "length ?s2 \<le> length ?s1" by simp
  also have "\<dots> \<le> length s" by (rule length_dropWhile_le)
  finally show ?thesis .
qed

function parse_raw :: "u8 list \<Rightarrow> int list \<Rightarrow> (int + int list) option" where
  "parse_raw spec_str raw =
     (if spec_str = [] then Some (Inr raw)
      else
        (case sscanf_d (if hd spec_str = colon then tl spec_str else spec_str) of
           None \<Rightarrow> None
         | Some None \<Rightarrow> Some (Inl (- EINVAL))
         | Some (Some (access_idx, rest)) \<Rightarrow>
             if length raw = BPF_CORE_SPEC_MAX_LEN then Some (Inl (- E2BIG))
             else parse_raw rest (raw @ [access_idx])))"
  by pat_completeness auto

termination parse_raw
  by (relation "measure (\<lambda>(s, raw). length s)")
     (auto dest!: sscanf_d_shorter split: if_splits)

declare parse_raw.simps [simp del]

text \<open>One element of the access string after the first; products wrap around at 32 bits.\<close>

definition spec_parse_step :: "btf \<Rightarrow> int \<Rightarrow> u32 \<Rightarrow> bpf_core_spec \<Rightarrow> (int + u32 \<times> bpf_core_spec) option" where
  "spec_parse_step b access_idx tid s =
     do {
       (t, tid) \<leftarrow> skip_mods_and_typedefs b tid;
       ty \<leftarrow> deref b t;
       if btf_is_composite ty then
         if access_idx \<ge> uint (btf_vlen ty) then Some (Inl (- EINVAL))
         else
           do {
             off \<leftarrow> btf_member_bit_offset b t (word_of_int access_idx);
             m \<leftarrow> btf_members b t (nat access_idx);
             let s = s\<lparr>bit_offset := bit_offset s + off\<rparr>;
             if m_name_off m \<noteq> 0 then
               do {
                 name \<leftarrow> name_str b (m_name_off m);
                 Some (if str_is_empty name then Inl (- EINVAL)
                       else Inr (m_type m,
                              s\<lparr>spec := spec s @ [\<lparr>acc_type_id = tid, acc_idx = word_of_int access_idx,
                                                   acc_name = name\<rparr>]\<rparr>))
               }
             else Some (Inr (m_type m, s))
           }
       else if btf_is_array ty then
         do {
           (elem, nelems) \<leftarrow> btf_array b t;
           (t, tid) \<leftarrow> skip_mods_and_typedefs b elem;
           if word_of_int access_idx \<ge> nelems then Some (Inl (- EINVAL))
           else
             do {
               sz \<leftarrow> btf__resolve_size b tid;
               Some (if sz < 0 then Inl sz
                     else Inr (tid,
                            s\<lparr>spec := spec s @ [\<lparr>acc_type_id = tid, acc_idx = word_of_int access_idx,
                                                 acc_name = None\<rparr>],
                              bit_offset := bit_offset s + word_of_int (access_idx * sz * 8)\<rparr>))
             }
         }
       else Some (Inl (- EINVAL))
     }"

fun spec_parse_loop :: "btf \<Rightarrow> int list \<Rightarrow> u32 \<Rightarrow> bpf_core_spec \<Rightarrow> (int + bpf_core_spec) option" where
  "spec_parse_loop b [] tid s = Some (Inr s)"
| "spec_parse_loop b (access_idx # idxs) tid s =
     (case spec_parse_step b access_idx tid s of
        None \<Rightarrow> None
      | Some (Inl e) \<Rightarrow> Some (Inl e)
      | Some (Inr (tid, s)) \<Rightarrow> spec_parse_loop b idxs tid s)"

definition bpf_core_spec_parse :: "btf \<Rightarrow> u32 \<Rightarrow> u8 list option \<Rightarrow> (int + bpf_core_spec) option" where
  "bpf_core_spec_parse b type_id spec_str =
     (if str_is_empty spec_str \<or> hd (the spec_str) = colon then Some (Inl (- EINVAL))
      else
        (case parse_raw (the spec_str) [] of
           None \<Rightarrow> None
         | Some (Inl e) \<Rightarrow> Some (Inl e)
         | Some (Inr raw) \<Rightarrow>
             if raw = [] then Some (Inl (- EINVAL))
             else
               do {
                 (t, tid) \<leftarrow> skip_mods_and_typedefs b type_id;
                 sz \<leftarrow> btf__resolve_size b tid;
                 if sz < 0 then Some (Inl sz)
                 else
                   spec_parse_loop b (tl raw) tid
                     \<lparr>spec_btf = b,
                      spec = [\<lparr>acc_type_id = tid, acc_idx = word_of_int (hd raw), acc_name = None\<rparr>],
                      raw_spec = raw, bit_offset = word_of_int (hd raw * sz * 8)\<rparr>
               }))"

section \<open>Flavors and candidates\<close>

definition underscore :: u8 where "underscore = 95"

definition bpf_core_is_flavor_sep :: "u8 list \<Rightarrow> bool" where
  "bpf_core_is_flavor_sep s \<longleftrightarrow>
     s ! 0 \<noteq> underscore \<and> s ! 1 = underscore \<and> s ! 2 = underscore \<and> s ! 3 = underscore \<and>
     s ! 4 \<noteq> underscore"

text \<open>The loop of \<open>bpf_core_essential_name_len\<close> from \<open>i - 1\<close> down to \<open>0\<close>.\<close>

fun essential_loop :: "u8 list \<Rightarrow> nat \<Rightarrow> nat" where
  "essential_loop name 0 = length name"
| "essential_loop name (Suc i) =
     (if bpf_core_is_flavor_sep (drop i name) then i + 1 else essential_loop name i)"

definition bpf_core_essential_name_len :: "u8 list \<Rightarrow> nat" where
  "bpf_core_essential_name_len name = essential_loop name (length name - 4)"

definition strncmp_eq :: "u8 list \<Rightarrow> u8 list \<Rightarrow> nat \<Rightarrow> bool" where
  "strncmp_eq a b n \<longleftrightarrow> take n a = take n b"

text \<open>
  The vector of candidates. It is reallocated to \<open>len + 1\<close> bytes, then an entry of 4 bytes is written at
  index \<open>len\<close>; \<open>usable n\<close> is how many bytes the allocator makes usable for a request of \<open>n\<close> bytes.
\<close>

definition push_cand :: "(nat \<Rightarrow> nat) \<Rightarrow> u32 list \<Rightarrow> u32 \<Rightarrow> u32 list option" where
  "push_cand usable cands i =
     (if 4 * length cands + 4 \<le> usable (length cands + 1) then Some (cands @ [i]) else None)"

fun find_cands_loop ::
  "(nat \<Rightarrow> nat) \<Rightarrow> (nat \<Rightarrow> bool) \<Rightarrow> u8 list \<Rightarrow> nat \<Rightarrow> btf \<Rightarrow> nat list \<Rightarrow> u32 list \<Rightarrow> (int + u32 list) option"
where
  "find_cands_loop usable realloc_ok local_name local_len targ [] cands = Some (Inr cands)"
| "find_cands_loop usable realloc_ok local_name local_len targ (i # is) cands =
     do {
       t \<leftarrow> btf__type_by_id targ (of_nat i);
       p \<leftarrow> t;
       ty \<leftarrow> deref targ p;
       targ_name \<leftarrow> name_str targ (name_off ty);
       if str_is_empty targ_name \<or> bpf_core_essential_name_len (the targ_name) \<noteq> local_len \<or>
          \<not> strncmp_eq local_name (the targ_name) local_len
       then find_cands_loop usable realloc_ok local_name local_len targ is cands
       else if \<not> realloc_ok (length cands) then Some (Inl (- ENOMEM))
       else
         do {
           cands \<leftarrow> push_cand usable cands (of_nat i);
           find_cands_loop usable realloc_ok local_name local_len targ is cands
         }
     }"

definition bpf_core_find_cands ::
  "(nat \<Rightarrow> nat) \<Rightarrow> bool \<Rightarrow> (nat \<Rightarrow> bool) \<Rightarrow> btf \<Rightarrow> u32 \<Rightarrow> btf \<Rightarrow> (int + u32 list) option" where
  "bpf_core_find_cands usable calloc_ok realloc_ok local_btf local_type_id targ =
     do {
       t \<leftarrow> btf__type_by_id local_btf local_type_id;
       (case t of
          None \<Rightarrow> Some (Inl (- EINVAL))
        | Some p \<Rightarrow>
            do {
              ty \<leftarrow> deref local_btf p;
              local_name \<leftarrow> name_str local_btf (name_off ty);
              if str_is_empty local_name then Some (Inl (- EINVAL))
              else if \<not> calloc_ok then Some (Inl (- ENOMEM))
              else
                find_cands_loop usable realloc_ok (the local_name)
                  (bpf_core_essential_name_len (the local_name)) targ
                  [1..<unat (btf__get_nr_types targ) + 1] []
            })
     }"

section \<open>Compatibility of fields\<close>

text \<open>Names of forward declarations and enums; a null name is dereferenced.\<close>

definition names_compat :: "btf \<Rightarrow> u32 \<Rightarrow> btf \<Rightarrow> u32 \<Rightarrow> int option" where
  "names_compat local_btf local_off targ_btf targ_off =
     do {
       ln \<leftarrow> name_str local_btf local_off;
       tn \<leftarrow> name_str targ_btf targ_off;
       local_name \<leftarrow> ln;
       targ_name \<leftarrow> tn;
       let local_len = bpf_core_essential_name_len local_name;
       let targ_len = bpf_core_essential_name_len targ_name;
       Some (if local_len = 0 \<or> targ_len = 0 \<or>
                local_len = targ_len \<and> strncmp_eq local_name targ_name local_len then 1 else 0)
     }"

partial_function (option) bpf_core_fields_are_compat :: "btf \<Rightarrow> u32 \<Rightarrow> btf \<Rightarrow> u32 \<Rightarrow> int option" where
  "bpf_core_fields_are_compat local_btf local_id targ_btf targ_id =
     do {
       (local_t, local_id) \<leftarrow> skip_mods_and_typedefs local_btf local_id;
       (targ_t, targ_id) \<leftarrow> skip_mods_and_typedefs targ_btf targ_id;
       local_type \<leftarrow> deref local_btf local_t;
       targ_type \<leftarrow> deref targ_btf targ_t;
       if btf_is_composite local_type \<and> btf_is_composite targ_type then Some 1
       else if btf_kind local_type \<noteq> btf_kind targ_type then Some 0
       else if btf_kind local_type = BTF_KIND_PTR then Some 1
       else if btf_kind local_type = BTF_KIND_FWD \<or> btf_kind local_type = BTF_KIND_ENUM then
         names_compat local_btf (name_off local_type) targ_btf (name_off targ_type)
       else if btf_kind local_type = BTF_KIND_INT then
         do {
           lo \<leftarrow> btf_int_offset local_btf local_t;
           if lo \<noteq> 0 then Some 0
           else map_option (\<lambda>bits. if bits = 0 then 1 else 0) (btf_int_offset targ_btf targ_t)
         }
       else if btf_kind local_type = BTF_KIND_ARRAY then
         do {
           (local_elem, ln) \<leftarrow> btf_array local_btf local_t;
           (targ_elem, tn) \<leftarrow> btf_array targ_btf targ_t;
           bpf_core_fields_are_compat local_btf local_elem targ_btf targ_elem
         }
       else Some 0
     }"

section \<open>Matching\<close>

text \<open>The speculation on member \<open>i\<close>, and its end when the member is not the one.\<close>

definition push_raw :: "bpf_core_spec \<Rightarrow> nat \<Rightarrow> u32 \<Rightarrow> bpf_core_spec" where
  "push_raw s i off = s\<lparr>bit_offset := bit_offset s + off, raw_spec := raw_spec s @ [int i]\<rparr>"

definition pop_raw :: "bpf_core_spec \<Rightarrow> u32 \<Rightarrow> bpf_core_spec" where
  "pop_raw s off = s\<lparr>bit_offset := bit_offset s - off, raw_spec := butlast (raw_spec s)\<rparr>"

text \<open>
  The member with the name of the local field: its accessor is pushed, and popped again when the types
  are not compatible.
\<close>

definition match_named ::
  "btf \<Rightarrow> u32 \<Rightarrow> btf \<Rightarrow> u32 \<Rightarrow> nat \<Rightarrow> btf_member \<Rightarrow> u8 list option \<Rightarrow> bpf_core_spec \<Rightarrow>
   (int \<times> bpf_core_spec \<times> u32) option" where
  "match_named local_btf local_m_type targ_btf targ_id i m targ_name s =
     do {
       found \<leftarrow> bpf_core_fields_are_compat local_btf local_m_type targ_btf (m_type m);
       let s' = s\<lparr>spec := spec s @ [\<lparr>acc_type_id = targ_id, acc_idx = of_nat i, acc_name = targ_name\<rparr>]\<rparr>;
       Some (found, if found = 0 then s else s', m_type m)
     }"

text \<open>
  The recursive search. The first argument bounds the depth of the recursion; each level adds an element
  to \<open>raw_spec\<close>, which holds at most 64, so 65 levels are never used up.
\<close>

function bpf_core_match_member ::
  "nat \<Rightarrow> btf \<Rightarrow> bpf_core_accessor \<Rightarrow> btf \<Rightarrow> u32 \<Rightarrow> bpf_core_spec \<Rightarrow> u32 \<Rightarrow> (int \<times> bpf_core_spec \<times> u32) option"
and match_members ::
  "nat \<Rightarrow> btf \<Rightarrow> bpf_core_accessor \<Rightarrow> btf_member \<Rightarrow> u8 list option \<Rightarrow> btf \<Rightarrow> u32 \<Rightarrow> btf_ptr \<Rightarrow> nat list \<Rightarrow>
   bpf_core_spec \<Rightarrow> u32 \<Rightarrow> (int \<times> bpf_core_spec \<times> u32) option" where
  "bpf_core_match_member d local_btf local_acc targ_btf targ_id s next_targ_id =
     do {
       (t, targ_id) \<leftarrow> skip_mods_and_typedefs targ_btf targ_id;
       targ_type \<leftarrow> deref targ_btf t;
       if \<not> btf_is_composite targ_type then Some (0, s, next_targ_id)
       else
         do {
           lt \<leftarrow> btf__type_by_id local_btf (acc_type_id local_acc);
           lp \<leftarrow> lt;
           local_member \<leftarrow> btf_members local_btf lp (unat (acc_idx local_acc));
           local_name \<leftarrow> name_str local_btf (m_name_off local_member);
           match_members d local_btf local_acc local_member local_name targ_btf targ_id t
             [0..<unat (btf_vlen targ_type)] s next_targ_id
         }
     }"
| "match_members d local_btf local_acc local_member local_name targ_btf targ_id t [] s next_targ_id =
     Some (0, s, next_targ_id)"
| "match_members 0 local_btf local_acc local_member local_name targ_btf targ_id t (i # is) s next_targ_id =
     None"
| "match_members (Suc d) local_btf local_acc local_member local_name targ_btf targ_id t (i # is) s next_targ_id =
     do {
       off \<leftarrow> btf_member_bit_offset targ_btf t (of_nat i);
       if length (raw_spec s) = BPF_CORE_SPEC_MAX_LEN then Some (- E2BIG, s, next_targ_id)
       else
         do {
           m \<leftarrow> btf_members targ_btf t i;
           targ_name \<leftarrow> name_str targ_btf (m_name_off m);
           if str_is_empty targ_name then
             do {
               (found, s', next_targ_id) \<leftarrow>
                 bpf_core_match_member d local_btf local_acc targ_btf (m_type m) (push_raw s i off) next_targ_id;
               if found \<noteq> 0 then Some (found, s', next_targ_id)
               else match_members (Suc d) local_btf local_acc local_member local_name targ_btf targ_id t is
                      (pop_raw s' off) next_targ_id
             }
           else if local_name = None then None
           else if local_name = targ_name then
             match_named local_btf (m_type local_member) targ_btf targ_id i m targ_name (push_raw s i off)
           else match_members (Suc d) local_btf local_acc local_member local_name targ_btf targ_id t is
                  (pop_raw (push_raw s i off) off) next_targ_id
         }
     }"
  by pat_completeness auto

termination
  by (relation "measures
       [\<lambda>x. case x of Inl (d, _) \<Rightarrow> 2 * d + 1 | Inr (d, _) \<Rightarrow> 2 * d,
        \<lambda>x. case x of Inl _ \<Rightarrow> 0 | Inr (d, lb, la, lm, ln, tb, ti, t, is, _) \<Rightarrow> length is]") auto

declare bpf_core_match_member.simps [simp del] match_members.simps [simp del]

definition match_depth :: nat where "match_depth = 65"

text \<open>One accessor of the local specification; \<open>Inl\<close> ends the match with that result.\<close>

definition spec_match_step ::
  "btf \<Rightarrow> btf \<Rightarrow> bool \<Rightarrow> bpf_core_accessor \<Rightarrow> u32 \<Rightarrow> bpf_core_spec \<Rightarrow>
   (int \<times> bpf_core_spec + u32 \<times> bpf_core_spec) option" where
  "spec_match_step local_btf targ_btf first local_acc targ_id s =
     do {
       (t, targ_id) \<leftarrow> skip_mods_and_typedefs targ_btf targ_id;
       targ_type \<leftarrow> deref targ_btf t;
       if acc_name local_acc \<noteq> None then
         do {
           (matched, s, targ_id) \<leftarrow>
             bpf_core_match_member match_depth local_btf local_acc targ_btf targ_id s targ_id;
           Some (if matched \<le> 0 then Inl (matched, s) else Inr (targ_id, s))
         }
       else
         do {
           elem \<leftarrow> (if first then Some (Some targ_id)
                    else if \<not> btf_is_array targ_type then Some None
                    else
                      do {
                        (elem, nelems) \<leftarrow> btf_array targ_btf t;
                        if acc_idx local_acc \<ge> nelems then Some None
                        else map_option (\<lambda>(t, tid). Some tid) (skip_mods_and_typedefs targ_btf elem)
                      });
           (case elem of
              None \<Rightarrow> Some (Inl (0, s))
            | Some targ_id \<Rightarrow>
                if length (raw_spec s) = BPF_CORE_SPEC_MAX_LEN then Some (Inl (- E2BIG, s))
                else
                  do {
                    size \<leftarrow> btf__resolve_size targ_btf targ_id;
                    let sz = sint (word_of_int size :: u32);
                    let s = s\<lparr>spec := spec s @ [\<lparr>acc_type_id = targ_id, acc_idx = acc_idx local_acc,
                                                  acc_name = None\<rparr>],
                             raw_spec := raw_spec s @ [sint (acc_idx local_acc)]\<rparr>;
                    Some (if sz < 0 then Inl (sz, s)
                          else Inr (targ_id,
                                 s\<lparr>bit_offset := bit_offset s + acc_idx local_acc * word_of_int sz * 8\<rparr>))
                  })
         }
     }"

fun spec_match_loop ::
  "btf \<Rightarrow> btf \<Rightarrow> bool \<Rightarrow> bpf_core_accessor list \<Rightarrow> u32 \<Rightarrow> bpf_core_spec \<Rightarrow> (int \<times> bpf_core_spec) option" where
  "spec_match_loop local_btf targ_btf first [] targ_id s = Some (1, s)"
| "spec_match_loop local_btf targ_btf first (local_acc # accs) targ_id s =
     (case spec_match_step local_btf targ_btf first local_acc targ_id s of
        None \<Rightarrow> None
      | Some (Inl r) \<Rightarrow> Some r
      | Some (Inr (targ_id, s)) \<Rightarrow> spec_match_loop local_btf targ_btf False accs targ_id s)"

definition bpf_core_spec_match :: "bpf_core_spec \<Rightarrow> btf \<Rightarrow> u32 \<Rightarrow> (int \<times> bpf_core_spec) option" where
  "bpf_core_spec_match local_spec targ_btf targ_id =
     spec_match_loop (spec_btf local_spec) targ_btf True (spec local_spec) targ_id
       \<lparr>spec_btf = targ_btf, spec = [], raw_spec = [], bit_offset = 0\<rparr>"

section \<open>Bounds of the arrays\<close>

text \<open>Both arrays have 64 elements; the accessors never get ahead of the raw indices.\<close>

definition spec_fits :: "bpf_core_spec \<Rightarrow> bool" where
  "spec_fits s \<longleftrightarrow> length (spec s) \<le> length (raw_spec s) \<and> length (raw_spec s) \<le> BPF_CORE_SPEC_MAX_LEN"

text \<open>What a search that starts in \<open>s\<close> may have done to the specification when it ends with \<open>found\<close>.\<close>

definition grown :: "bpf_core_spec \<Rightarrow> int \<Rightarrow> bpf_core_spec \<Rightarrow> bool" where
  "grown s found s' \<longleftrightarrow>
     length (raw_spec s) \<le> length (raw_spec s') \<and> length (raw_spec s') \<le> BPF_CORE_SPEC_MAX_LEN \<and>
     length (spec s') + length (raw_spec s) \<le> length (spec s) + length (raw_spec s') \<and>
     length (spec s) \<le> length (spec s') \<and> (found = 0 \<longrightarrow> length (spec s') = length (spec s))"

lemma grown_refl: "length (raw_spec s) \<le> BPF_CORE_SPEC_MAX_LEN \<Longrightarrow> grown s e s"
  by (simp add: grown_def)

lemma push_pop_len [simp]:
  "length (raw_spec (push_raw s i off)) = length (raw_spec s) + 1" "spec (push_raw s i off) = spec s"
  "length (raw_spec (pop_raw s off)) = length (raw_spec s) - 1" "spec (pop_raw s off) = spec s"
  by (simp_all add: push_raw_def pop_raw_def)

lemma pop_push [simp]: "pop_raw (push_raw s i off) off = s"
  by (simp add: push_raw_def pop_raw_def)

lemma grown_pop:
  "grown (push_raw s i off) 0 s1 \<Longrightarrow> grown (pop_raw s1 off) f s' \<Longrightarrow> grown s f s'"
  by (auto simp: grown_def)

lemma grown_push: "grown (push_raw s i off) f s' \<Longrightarrow> grown s f s'"
  by (auto simp: grown_def)

lemma match_named_grown:
  assumes "match_named lb mt tb ti i m tn (push_raw s i off) = Some (f, s', nx)"
    "length (raw_spec s) < BPF_CORE_SPEC_MAX_LEN"
  shows "grown s f s'"
  using assms by (auto simp: match_named_def bind_eq_Some_conv grown_def Let_def)

lemma match_grown:
  "bpf_core_match_member d lb la tb ti s nx = Some (f, s', nx') \<Longrightarrow>
     length (raw_spec s) \<le> BPF_CORE_SPEC_MAX_LEN \<Longrightarrow> grown s f s'"
  "match_members d lb la lm ln tb ti t is s nx = Some (f, s', nx') \<Longrightarrow>
     length (raw_spec s) \<le> BPF_CORE_SPEC_MAX_LEN \<Longrightarrow> grown s f s'"
proof (induction d lb la tb ti s nx and d lb la lm ln tb ti t "is" s nx arbitrary: f s' nx' and f s' nx'
    rule: bpf_core_match_member_match_members.induct)
  case (1 d lb la tb ti s nx)
  then show ?case
    by (auto simp: bpf_core_match_member.simps bind_eq_Some_conv grown_refl split: if_splits)
next
  case (4 d lb la lm ln tb ti t i "is" s nx)
  note run = match_members.simps(3) [of d lb la lm ln tb ti t i "is" s nx]
  obtain off where off: "btf_member_bit_offset tb t (of_nat i) = Some off"
    using "4.prems"(1) unfolding run by (auto simp: bind_eq_Some_conv)
  show ?case
  proof (cases "length (raw_spec s) = BPF_CORE_SPEC_MAX_LEN")
    case True
    then show ?thesis using "4.prems" off unfolding run by (auto simp: grown_refl)
  next
    case False
    then have room: "length (raw_spec s) < BPF_CORE_SPEC_MAX_LEN" using "4.prems"(2) by simp
    obtain m tn where m: "btf_members tb t i = Some m" "name_str tb (m_name_off m) = Some tn"
      using "4.prems"(1) off False unfolding run by (auto simp: bind_eq_Some_conv)
    note go = "4.prems"(1) [unfolded run, simplified off m bind.bind_lunit if_not_P [OF False] Let_def]
    show ?thesis
    proof (cases "str_is_empty tn")
      case True
      obtain f1 s1 nx1 where inner:
        "bpf_core_match_member d lb la tb (m_type m) (push_raw s i off) nx = Some (f1, s1, nx1)"
        using go True by (auto simp: bind_eq_Some_conv)
      have g1: "grown (push_raw s i off) f1 s1"
        using "4.IH"(1) [OF off False m True inner] room by simp
      show ?thesis
      proof (cases "f1 = 0")
        case zero: True
        have "match_members (Suc d) lb la lm ln tb ti t is (pop_raw s1 off) nx1 = Some (f, s', nx')"
          using go True inner zero by simp
        moreover have "length (raw_spec (pop_raw s1 off)) \<le> BPF_CORE_SPEC_MAX_LEN"
          using g1 unfolding grown_def push_pop_len by linarith
        ultimately have "grown (pop_raw s1 off) f s'"
          using "4.IH"(2) [OF off False m True inner refl refl] zero by blast
        then show ?thesis using g1 zero grown_pop by blast
      next
        case False
        then show ?thesis using go True inner g1 grown_push by auto
      qed
    next
      case named: False
      show ?thesis
      proof (cases "ln = tn")
        case True
        then show ?thesis using go named room match_named_grown by (auto split: if_splits)
      next
        case False
        then have "match_members (Suc d) lb la lm ln tb ti t is s nx = Some (f, s', nx')"
          using go named by (auto split: if_splits)
        then show ?thesis using "4.IH"(3) [OF off _ m named] False go room named by (auto split: if_splits)
      qed
    qed
  qed
qed (auto simp: match_members.simps grown_refl)

lemma parse_raw_length:
  "parse_raw str raw = Some (Inr r) \<Longrightarrow> length raw \<le> BPF_CORE_SPEC_MAX_LEN \<Longrightarrow>
     length r \<le> BPF_CORE_SPEC_MAX_LEN"
proof (induction str raw rule: parse_raw.induct)
  case (1 str raw)
  show ?case
  proof (cases "str = []")
    case True
    then show ?thesis using "1.prems" by (simp add: parse_raw.simps)
  next
    case False
    then obtain v rest where v: "sscanf_d (if hd str = colon then tl str else str) = Some (Some (v, rest))"
      using "1.prems"(1) by (auto simp: parse_raw.simps [of str] split: option.splits)
    then have "length raw \<noteq> BPF_CORE_SPEC_MAX_LEN" "parse_raw rest (raw @ [v]) = Some (Inr r)"
      using "1.prems"(1) False by (auto simp: parse_raw.simps [of str] split: if_splits)
    then show ?thesis using "1.IH" [OF False v refl refl] "1.prems"(2) by simp
  qed
qed

lemma spec_parse_step_len:
  assumes "spec_parse_step b i tid s = Some (Inr (tid', s'))"
  shows "raw_spec s' = raw_spec s" "length (spec s') \<le> length (spec s) + 1"
  using assms by (auto simp: spec_parse_step_def bind_eq_Some_conv Let_def split: if_splits)

lemma spec_parse_loop_fits:
  "spec_parse_loop b idxs tid s = Some (Inr s') \<Longrightarrow>
     length (spec s) + length idxs \<le> length (raw_spec s) \<Longrightarrow>
     length (raw_spec s) \<le> BPF_CORE_SPEC_MAX_LEN \<Longrightarrow> spec_fits s'"
proof (induction b idxs tid s rule: spec_parse_loop.induct)
  case (2 b i idxs tid s)
  then obtain tid1 s1 where s1: "spec_parse_step b i tid s = Some (Inr (tid1, s1))"
    "spec_parse_loop b idxs tid1 s1 = Some (Inr s')"
    by (auto split: option.splits sum.splits)
  then show ?case using 2 spec_parse_step_len [OF s1(1)] by simp
qed (simp add: spec_fits_def)

lemma spec_match_step_fits:
  assumes "spec_match_step lb tb first la ti s = Some r" "spec_fits s"
  shows "case r of Inl (e, s') \<Rightarrow> spec_fits s' | Inr (ti', s') \<Rightarrow> spec_fits s'"
proof -
  obtain t ti1 ty where t: "skip_mods_and_typedefs tb ti = Some (t, ti1)" "deref tb t = Some ty"
    using assms(1) by (auto simp: spec_match_step_def bind_eq_Some_conv)
  show ?thesis
  proof (cases "acc_name la = None")
    case False
    then obtain f s' nx where "bpf_core_match_member match_depth lb la tb ti1 s ti1 = Some (f, s', nx)"
      "r = (if f \<le> 0 then Inl (f, s') else Inr (nx, s'))"
      using assms(1) t by (auto simp: spec_match_step_def bind_eq_Some_conv)
    moreover have "spec_fits s'" if "grown s f s'" using that assms(2) by (auto simp: grown_def spec_fits_def)
    ultimately show ?thesis using match_grown(1) assms(2) by (auto simp: spec_fits_def)
  next
    case True
    obtain elem where elem: "(if first then Some (Some ti1)
        else if \<not> btf_is_array ty then Some None
        else do {
          (elem, nelems) \<leftarrow> btf_array tb t;
          if acc_idx la \<ge> nelems then Some None
          else map_option (\<lambda>(t, tid). Some tid) (skip_mods_and_typedefs tb elem)
        }) = Some elem"
      using assms(1) t True unfolding spec_match_step_def by (auto simp: bind_eq_Some_conv)
    note run = assms(1) [unfolded spec_match_step_def t bind.bind_lunit prod.case True elem, simplified]
    show ?thesis
      using run assms(2)
      by (auto simp: spec_fits_def Let_def bind_eq_Some_conv split: option.splits if_splits)
  qed
qed

lemma spec_match_loop_fits:
  "spec_match_loop lb tb first accs ti s = Some (e, s') \<Longrightarrow> spec_fits s \<Longrightarrow> spec_fits s'"
proof (induction lb tb first accs ti s rule: spec_match_loop.induct)
  case (2 lb tb first la accs ti s)
  then show ?case using spec_match_step_fits [of lb tb first la ti s]
    by (auto split: option.splits sum.splits)
qed simp

text \<open>C13: the fixed arrays of a specification never overflow. Whatever the access string and the types,
  a specification that is parsed, and one that a match leaves behind with any result, has at most 64 raw
  indices and at most as many accessors.\<close>

theorem core_spec_bounds:
  "(\<forall>s. bpf_core_spec_parse b tid str = Some (Inr s) \<longrightarrow> spec_fits s) \<and>
   (\<forall>e s. bpf_core_spec_match ls tb ti = Some (e, s) \<longrightarrow> spec_fits s)"
proof (intro conjI allI impI)
  fix s assume a: "bpf_core_spec_parse b tid str = Some (Inr s)"
  then obtain raw where raw: "parse_raw (the str) [] = Some (Inr raw)" "raw \<noteq> []"
    by (auto simp: bpf_core_spec_parse_def split: if_splits option.splits sum.splits)
  then have "length raw \<le> BPF_CORE_SPEC_MAX_LEN" using parse_raw_length [of "the str" "[]" raw] by simp
  then show "spec_fits s" using a raw
    by (auto simp: bpf_core_spec_parse_def bind_eq_Some_conv split: if_splits elim!: spec_parse_loop_fits)
next
  fix e s assume "bpf_core_spec_match ls tb ti = Some (e, s)"
  then show "spec_fits s" unfolding bpf_core_spec_match_def
    by (rule spec_match_loop_fits) (simp add: spec_fits_def)
qed

section \<open>The depth of the search\<close>

lemma match_deep:
  "length (raw_spec s) \<le> BPF_CORE_SPEC_MAX_LEN \<Longrightarrow> BPF_CORE_SPEC_MAX_LEN < d + length (raw_spec s) \<Longrightarrow>
     bpf_core_match_member (d + k) lb la tb ti s nx = bpf_core_match_member d lb la tb ti s nx"
  "length (raw_spec s) \<le> BPF_CORE_SPEC_MAX_LEN \<Longrightarrow> BPF_CORE_SPEC_MAX_LEN < d + length (raw_spec s) \<Longrightarrow>
     match_members (d + k) lb la lm ln tb ti t is s nx = match_members d lb la lm ln tb ti t is s nx"
proof (induction d lb la tb ti s nx and d lb la lm ln tb ti t "is" s nx
    rule: bpf_core_match_member_match_members.induct)
  case (1 d lb la tb ti s nx)
  then show ?case
    unfolding bpf_core_match_member.simps by (auto intro!: bind_option_cong)
next
  case (4 d lb la lm ln tb ti t i "is" s nx)
  note run = match_members.simps(3) [of _ lb la lm ln tb ti t i "is" s nx]
  have "match_members (Suc (d + k)) lb la lm ln tb ti t (i # is) s nx =
      match_members (Suc d) lb la lm ln tb ti t (i # is) s nx"
  proof (cases "btf_member_bit_offset tb t (of_nat i)")
    case off: (Some off)
    show ?thesis
    proof (cases "length (raw_spec s) = BPF_CORE_SPEC_MAX_LEN")
      case True
      then show ?thesis using off by (simp add: run)
    next
      case False
      show ?thesis
      proof (cases "do { m \<leftarrow> btf_members tb t i; tn \<leftarrow> name_str tb (m_name_off m); Some (m, tn) }")
        case None
        then show ?thesis using off False by (cases "btf_members tb t i"; cases "name_str tb (m_name_off (the (btf_members tb t i)))")
                (auto simp: run)
      next
        case (Some mtn)
        then obtain m tn where m: "btf_members tb t i = Some m" "name_str tb (m_name_off m) = Some tn"
          by (auto simp: bind_eq_Some_conv)
        have inner: "bpf_core_match_member (d + k) lb la tb (m_type m) (push_raw s i off) nx =
            bpf_core_match_member d lb la tb (m_type m) (push_raw s i off) nx" if "str_is_empty tn"
          using "4.IH"(1) [OF off False m that] "4.prems" False by simp
        have cont: "match_members (Suc d + k) lb la lm ln tb ti t is (pop_raw s1 off) nx1 =
            match_members (Suc d) lb la lm ln tb ti t is (pop_raw s1 off) nx1"
          if "str_is_empty tn" "bpf_core_match_member d lb la tb (m_type m) (push_raw s i off) nx =
            Some (0, s1, nx1)" for s1 nx1
        proof -
          have g: "grown (push_raw s i off) 0 s1"
            using match_grown(1) [OF that(2)] "4.prems" False by simp
          then have "length (raw_spec (pop_raw s1 off)) \<le> BPF_CORE_SPEC_MAX_LEN"
            "BPF_CORE_SPEC_MAX_LEN < Suc d + length (raw_spec (pop_raw s1 off))"
            using "4.prems"(2) unfolding grown_def push_pop_len by linarith+
          then show ?thesis using "4.IH"(2) [OF off False m that refl refl] by blast
        qed
        show ?thesis
        proof (cases "str_is_empty tn")
          case True
          then show ?thesis using off False m inner cont
            by (auto simp: run intro!: bind_option_cong)
        next
          case named: False
          show ?thesis
          proof (cases "ln = None \<or> ln = tn")
            case True
            then show ?thesis using off False m named by (auto simp: run)
          next
            case other: False
            then have "match_members (Suc d + k) lb la lm ln tb ti t is s nx =
                match_members (Suc d) lb la lm ln tb ti t is s nx"
              using "4.IH"(3) [OF off False m named] "4.prems" by simp
            then show ?thesis using off False m named other by (auto simp: run)
          qed
        qed
      qed
    qed
  qed (simp add: run)
  then show ?case by simp
qed (simp_all add: match_members.simps)

text \<open>C14: the bound on the depth of the search is never reached: with any larger bound the search gives the
  same result, because each level takes one of the 64 places of the raw indices.\<close>

theorem match_depth_enough:
  assumes "length (raw_spec s) \<le> BPF_CORE_SPEC_MAX_LEN" "match_depth \<le> d"
  shows "bpf_core_match_member d lb la tb ti s nx = bpf_core_match_member match_depth lb la tb ti s nx"
proof -
  have "BPF_CORE_SPEC_MAX_LEN < match_depth + length (raw_spec s)"
    by (simp add: BPF_CORE_SPEC_MAX_LEN_def match_depth_def)
  from match_deep(1) [OF assms(1) this, of "d - match_depth"] show ?thesis using assms(2) by simp
qed

section \<open>Fields by name\<close>

text \<open>
  A field with a name in a composite type, directly or in its anonymous members: the member indices on
  the way, the sum of the offsets, and the composite, the index and the type of the member itself.
\<close>

inductive field_at :: "btf \<Rightarrow> u8 list \<Rightarrow> u32 \<Rightarrow> nat list \<Rightarrow> u32 \<Rightarrow> u32 \<Rightarrow> nat \<Rightarrow> u32 \<Rightarrow> bool" for b name where
  here: "skip_mods_and_typedefs b tid = Some (t, cid) \<Longrightarrow> deref b t = Some ty \<Longrightarrow> btf_is_composite ty \<Longrightarrow>
    i < unat (btf_vlen ty) \<Longrightarrow> btf_member_bit_offset b t (of_nat i) = Some off \<Longrightarrow>
    btf_members b t i = Some m \<Longrightarrow> name_str b (m_name_off m) = Some (Some name) \<Longrightarrow> name \<noteq> [] \<Longrightarrow>
    field_at b name tid [i] off cid i (m_type m)"
| inside: "skip_mods_and_typedefs b tid = Some (t, cid) \<Longrightarrow> deref b t = Some ty \<Longrightarrow> btf_is_composite ty \<Longrightarrow>
    i < unat (btf_vlen ty) \<Longrightarrow> btf_member_bit_offset b t (of_nat i) = Some off \<Longrightarrow>
    btf_members b t i = Some m \<Longrightarrow> name_str b (m_name_off m) = Some tn \<Longrightarrow> str_is_empty tn \<Longrightarrow>
    field_at b name (m_type m) path off' c j mty \<Longrightarrow> field_at b name tid (i # path) (off + off') c j mty"

definition via_member ::
  "btf \<Rightarrow> u8 list \<Rightarrow> btf_ptr \<Rightarrow> u32 \<Rightarrow> nat \<Rightarrow> nat list \<Rightarrow> u32 \<Rightarrow> u32 \<Rightarrow> nat \<Rightarrow> u32 \<Rightarrow> bool" where
  "via_member b name t cid i path off c j mty \<longleftrightarrow>
     (\<exists>m tn o1. btf_member_bit_offset b t (of_nat i) = Some o1 \<and> btf_members b t i = Some m \<and>
        name_str b (m_name_off m) = Some tn \<and>
        (if str_is_empty tn
         then \<exists>path' o2. path = i # path' \<and> off = o1 + o2 \<and> field_at b name (m_type m) path' o2 c j mty
         else tn = Some name \<and> path = [i] \<and> off = o1 \<and> c = cid \<and> j = i \<and> mty = m_type m))"

lemma field_at_iff:
  assumes "skip_mods_and_typedefs b tid = Some (t, cid)" "deref b t = Some ty" "name \<noteq> []"
  shows "field_at b name tid path off c j mty \<longleftrightarrow>
    btf_is_composite ty \<and> (\<exists>i < unat (btf_vlen ty). via_member b name t cid i path off c j mty)"
proof
  assume "field_at b name tid path off c j mty"
  then show "btf_is_composite ty \<and> (\<exists>i < unat (btf_vlen ty). via_member b name t cid i path off c j mty)"
  proof cases
    case (here t' ty' m)
    then show ?thesis using assms by (auto simp: via_member_def str_is_empty_def)
  next
    case (inside t' cid' ty' i off1 m tn path' off')
    then show ?thesis using assms by (fastforce simp: via_member_def)
  qed
next
  assume "btf_is_composite ty \<and> (\<exists>i < unat (btf_vlen ty). via_member b name t cid i path off c j mty)"
  then show "field_at b name tid path off c j mty"
    using assms by (auto simp: via_member_def intro: field_at.intros split: if_splits)
qed

definition ext_spec :: "bpf_core_spec \<Rightarrow> u8 list \<Rightarrow> nat list \<Rightarrow> u32 \<Rightarrow> u32 \<Rightarrow> nat \<Rightarrow> bpf_core_spec" where
  "ext_spec s name path off c j =
     s\<lparr>raw_spec := raw_spec s @ map int path, bit_offset := bit_offset s + off,
       spec := spec s @ [\<lparr>acc_type_id = c, acc_idx = of_nat j, acc_name = Some name\<rparr>]\<rparr>"

lemma ext_spec_push: "ext_spec (push_raw s i o1) name path off c j = ext_spec s name (i # path) (o1 + off) c j"
  by (simp add: ext_spec_def push_raw_def add.assoc)

text \<open>The result of a search, for the fields that \<open>R\<close> gives.\<close>

definition search_ok ::
  "(u32 \<Rightarrow> int option) \<Rightarrow> u8 list \<Rightarrow> (nat list \<Rightarrow> u32 \<Rightarrow> u32 \<Rightarrow> nat \<Rightarrow> u32 \<Rightarrow> bool) \<Rightarrow>
   bpf_core_spec \<Rightarrow> int \<Rightarrow> bpf_core_spec \<Rightarrow> u32 \<Rightarrow> bool" where
  "search_ok cp name R s f s' nx' \<longleftrightarrow>
     (f = 0 \<longrightarrow> s' = s \<and> (\<forall>path off c j ty. \<not> R path off c j ty)) \<and>
     (f = 1 \<longrightarrow> (\<exists>path off c j. R path off c j nx' \<and> s' = ext_spec s name path off c j \<and> cp nx' = Some 1))"

lemma match_sound:
  fixes la :: bpf_core_accessor
  assumes local: "btf__type_by_id lb (acc_type_id la) = Some (Some lp)"
    "btf_members lb lp (unat (acc_idx la)) = Some lmem" "name_str lb (m_name_off lmem) = Some (Some name)"
    "name \<noteq> []"
  shows "bpf_core_match_member d lb la tb ti s nx = Some (f, s', nx') \<Longrightarrow>
      \<forall>path off c j ty. field_at tb name ti path off c j ty \<longrightarrow>
        bpf_core_fields_are_compat lb (m_type lmem) tb ty \<noteq> Some 0 \<Longrightarrow>
      search_ok (bpf_core_fields_are_compat lb (m_type lmem) tb) name (field_at tb name ti) s f s' nx'"
    "match_members d lb la lm ln tb ti t is s nx = Some (f, s', nx') \<Longrightarrow> lm = lmem \<Longrightarrow> ln = Some name \<Longrightarrow>
      \<forall>i \<in> set is. \<forall>path off c j ty. via_member tb name t ti i path off c j ty \<longrightarrow>
        bpf_core_fields_are_compat lb (m_type lmem) tb ty \<noteq> Some 0 \<Longrightarrow>
      search_ok (bpf_core_fields_are_compat lb (m_type lmem) tb) name
        (\<lambda>path off c j ty. \<exists>i \<in> set is. via_member tb name t ti i path off c j ty) s f s' nx'"
  using local
proof (induction d lb la tb ti s nx and d lb la lm ln tb ti t "is" s nx arbitrary: f s' nx' and f s' nx'
    rule: bpf_core_match_member_match_members.induct)
  case (1 d lb la tb ti s nx)
  obtain t cid ty where t: "skip_mods_and_typedefs tb ti = Some (t, cid)" "deref tb t = Some ty"
    using "1.prems"(1) by (auto simp: bpf_core_match_member.simps bind_eq_Some_conv)
  note iff = field_at_iff [OF t(1,2) "1.prems"(6)]
  show ?case
  proof (cases "btf_is_composite ty")
    case False
    then show ?thesis using "1.prems"(1) t
      by (auto simp: bpf_core_match_member.simps search_ok_def iff)
  next
    case True
    then have run: "match_members d lb la lmem (Some name) tb cid t [0..<unat (btf_vlen ty)] s nx =
        Some (f, s', nx')"
      using "1.prems" t by (simp add: bpf_core_match_member.simps)
    have nn: "\<not> \<not> btf_is_composite ty" using True by simp
    have R: "field_at tb name ti path off c j mty \<longleftrightarrow>
        (\<exists>i \<in> set [0..<unat (btf_vlen ty)]. via_member tb name t cid i path off c j mty)" for path off c j mty
      using True by (auto simp: iff)
    show ?thesis
      using "1.IH" [OF t(1) refl t(2) nn "1.prems"(3) refl "1.prems"(4,5) run refl refl _ "1.prems"(3-6)]
        "1.prems"(2) by (simp only: R) blast
  qed
next
  case (2 d lb la lm ln tb ti t s nx)
  then show ?case by (simp add: match_members.simps search_ok_def)
next
  case (3 lb la lm ln tb ti t i "is" s nx)
  then show ?case by (simp add: match_members.simps)
next
  case (4 d lb la lm ln tb ti t i "is" s nx)
  note local = "4.prems"(5-8)
  note run = match_members.simps(3) [of d lb la lm ln tb ti t i "is" s nx]
  obtain off where off: "btf_member_bit_offset tb t (of_nat i) = Some off"
    using "4.prems"(1) unfolding run by (auto simp: bind_eq_Some_conv)
  show ?case
  proof (cases "length (raw_spec s) = BPF_CORE_SPEC_MAX_LEN")
    case True
    then show ?thesis using "4.prems"(1) off unfolding run by (auto simp: search_ok_def)
  next
    case room: False
    obtain m tn where m: "btf_members tb t i = Some m" "name_str tb (m_name_off m) = Some tn"
      using "4.prems"(1) off room unfolding run by (auto simp: bind_eq_Some_conv)
    note go = "4.prems"(1) [unfolded run, simplified off m bind.bind_lunit if_not_P [OF room] Let_def]
    note via = via_member_def [of tb name t ti i, unfolded off m]
    have tail: "\<forall>i \<in> set is. \<forall>path off c j ty. via_member tb name t ti i path off c j ty \<longrightarrow>
        bpf_core_fields_are_compat lb (m_type lmem) tb ty \<noteq> Some 0" using "4.prems"(4) by simp
    show ?thesis
    proof (cases "str_is_empty tn")
      case empty: True
      have via: "via_member tb name t ti i path o1 c j ty \<longleftrightarrow>
          (\<exists>p o2. path = i # p \<and> o1 = off + o2 \<and> field_at tb name (m_type m) p o2 c j ty)" for path o1 c j ty
        using off m empty by (auto simp: via_member_def)
      obtain f1 s1 nx1 where inner:
        "bpf_core_match_member d lb la tb (m_type m) (push_raw s i off) nx = Some (f1, s1, nx1)"
        using go empty by (auto simp: bind_eq_Some_conv)
      have deep_ok: "\<forall>p o2 c j ty. field_at tb name (m_type m) p o2 c j ty \<longrightarrow>
          bpf_core_fields_are_compat lb (m_type lmem) tb ty \<noteq> Some 0"
      proof (intro allI impI)
        fix p o2 c j ty assume "field_at tb name (m_type m) p o2 c j ty"
        then have "via_member tb name t ti i (i # p) (off + o2) c j ty" by (auto simp: via)
        then show "bpf_core_fields_are_compat lb (m_type lmem) tb ty \<noteq> Some 0"
          using "4.prems"(4) by (meson list.set_intros(1))
      qed
      have deep: "search_ok (bpf_core_fields_are_compat lb (m_type lmem) tb) name (field_at tb name (m_type m))
          (push_raw s i off) f1 s1 nx1"
        by (rule "4.IH"(1) [OF off room m empty inner deep_ok local])
      show ?thesis
      proof (cases "f1 = 0")
        case zero: True
        then have s1: "s1 = push_raw s i off" "\<not> field_at tb name (m_type m) p o2 c j ty" for p o2 c j ty
          using deep by (auto simp: search_ok_def)
        have "match_members (Suc d) lb la lm ln tb ti t is (pop_raw s1 off) nx1 = Some (f, s', nx')"
          using go empty inner zero by simp
        then have "search_ok (bpf_core_fields_are_compat lb (m_type lmem) tb) name
            (\<lambda>path off c j ty. \<exists>i \<in> set is. via_member tb name t ti i path off c j ty) (pop_raw s1 off) f s' nx'"
          using "4.IH"(2) [OF off room m empty inner refl refl] zero "4.prems"(2,3) tail local by blast
        then show ?thesis using s1 by (auto simp: search_ok_def via)
      next
        case False
        then have eq: "f = f1" "s' = s1" "nx' = nx1" using go empty inner by simp_all
        show ?thesis
        proof (cases "f1 = 1")
          case True
          then obtain p o2 c j where d: "field_at tb name (m_type m) p o2 c j nx1"
            "s1 = ext_spec s name (i # p) (off + o2) c j"
            "bpf_core_fields_are_compat lb (m_type lmem) tb nx1 = Some 1"
            using deep by (auto simp: search_ok_def ext_spec_push)
          then have "via_member tb name t ti i (i # p) (off + o2) c j nx1" by (auto simp: via)
          then have "\<exists>i' \<in> set (i # is). via_member tb name t ti i' (i # p) (off + o2) c j nx1" by simp
          then show ?thesis unfolding search_ok_def eq using False d(2,3) by blast
        qed (use False eq in \<open>simp add: search_ok_def\<close>)
      qed
    next
      case named: False
      have via: "via_member tb name t ti i path o1 c j ty \<longleftrightarrow>
          tn = Some name \<and> path = [i] \<and> o1 = off \<and> c = ti \<and> j = i \<and> ty = m_type m" for path o1 c j ty
        using off m named by (auto simp: via_member_def)
      show ?thesis
      proof (cases "tn = Some name")
        case True
        then have "match_named lb (m_type lmem) tb ti i m tn (push_raw s i off) = Some (f, s', nx')"
          using go named "4.prems"(2,3) by simp
        then have found: "bpf_core_fields_are_compat lb (m_type lmem) tb (m_type m) = Some f" "nx' = m_type m"
          "f \<noteq> 0 \<Longrightarrow> s' = ext_spec s name [i] off ti i"
          by (auto simp: match_named_def bind_eq_Some_conv ext_spec_def push_raw_def Let_def True)
        have "\<exists>i' \<in> set (i # is). via_member tb name t ti i' [i] off ti i nx'"
          using True found(2) by (simp add: via)
        moreover have "f \<noteq> 0" using calculation found(1,2) "4.prems"(4) by blast
        ultimately show ?thesis using found unfolding search_ok_def by blast
      next
        case False
        then have "match_members (Suc d) lb la lm ln tb ti t is s nx = Some (f, s', nx')"
          using go named "4.prems"(3) by (auto split: if_splits)
        then have "search_ok (bpf_core_fields_are_compat lb (m_type lmem) tb) name
            (\<lambda>path off c j ty. \<exists>i \<in> set is. via_member tb name t ti i path off c j ty) s f s' nx'"
          using "4.IH"(3) [OF off room m named] False "4.prems"(2,3) tail local by simp
        then show ?thesis using False by (auto simp: search_ok_def via)
      qed
    qed
  qed
qed

text \<open>C8: the search for a field. When the local member has a name, every field with that name is compatible,
  and the search gives a result (it stays inside the data and ends), a search that finds one returns a field of that name in the target type, directly or within anonymous members, with the
  path to it added to the raw indices, the sum of the offsets on the way added to the offset, and one
  accessor added; a search that finds none leaves the specification as it was, and there is no such
  field.\<close>

theorem match_member_correct:
  assumes "btf__type_by_id lb (acc_type_id la) = Some (Some lp)"
    "btf_members lb lp (unat (acc_idx la)) = Some lmem" "name_str lb (m_name_off lmem) = Some (Some name)"
    "name \<noteq> []"
    "\<forall>path off c j ty. field_at tb name ti path off c j ty \<longrightarrow>
       bpf_core_fields_are_compat lb (m_type lmem) tb ty \<noteq> Some 0"
    "bpf_core_match_member match_depth lb la tb ti s nx = Some (f, s', nx')"
  shows "(f = 0 \<longrightarrow> s' = s \<and> (\<forall>path off c j ty. \<not> field_at tb name ti path off c j ty)) \<and>
    (f = 1 \<longrightarrow> (\<exists>path off c j. field_at tb name ti path off c j nx' \<and>
       s' = s\<lparr>raw_spec := raw_spec s @ map int path, bit_offset := bit_offset s + off,
              spec := spec s @ [\<lparr>acc_type_id = c, acc_idx = of_nat j, acc_name = Some name\<rparr>]\<rparr>))"
  using match_sound(1) [OF assms(1-4,6,5)] unfolding search_ok_def ext_spec_def by blast

text \<open>A struct with a field of 5 bits at bit 3 of an \<open>int\<close>.\<close>

definition core_types :: "(btf_type \<times> u32 list) list" where
  "core_types =
     [(\<lparr>name_off = 0, info = 0x01000000, size_type = 4\<rparr>, [0x20]),
      (\<lparr>name_off = 1, info = 0x84000001, size_type = 4\<rparr>, [1, 1, 0x05000003])]"

definition core_btf :: btf where
  "core_btf =
     \<lparr>data = enc_btf core_types [0, 105, 0], types = [BtfVoid, BtfAt 24, BtfAt 40], strings = 64,
      nohdr_data = 24, nr_types = 2, types_size = 16, data_size = 67, fd = - 1\<rparr>"

lemma core_reads:
  "deref core_btf (BtfAt 24) = Some \<lparr>name_off = 0, info = 0x01000000, size_type = 4\<rparr>"
  "deref core_btf (BtfAt 40) = Some \<lparr>name_off = 1, info = 0x84000001, size_type = 4\<rparr>"
  "btf_members core_btf (BtfAt 40) 0 = Some \<lparr>m_name_off = 1, m_type = 1, m_offset = 0x05000003\<rparr>"
  "btf__type_by_id core_btf 1 = Some (Some (BtfAt 24))"
  "btf__type_by_id core_btf 2 = Some (Some (BtfAt 40))"
  by (simp_all add: core_btf_def enc_btf_def enc_header_def core_types_def enc_entry_def btf__type_by_id_def
      enc16_def enc32_def rd_type_def rd32_def deref_def btf_members_def)

lemma core_skip: "skip_mods_and_typedefs core_btf 1 = Some (BtfAt 24, 1)"
  by (simp add: skip_mods_and_typedefs_def skip_from.simps core_reads btf_is_mod_def btf_is_typedef_def
      btf_kind_def BTF_INFO_KIND_def btf_kinds)

lemma core_name: "name_str core_btf 1 = Some (Some [105])"
  by (simp add: name_str_def btf__name_by_offset_def cstr_def core_btf_def enc_btf_def enc_header_def core_types_def
      enc_entry_def enc16_def enc32_def rd32_def)

lemma core_skip2: "skip_mods_and_typedefs core_btf 2 = Some (BtfAt 40, 2)"
  by (simp add: skip_mods_and_typedefs_def skip_from.simps core_reads btf_is_mod_def btf_is_typedef_def
      btf_kind_def BTF_INFO_KIND_def btf_kinds)

lemma core_compat: "bpf_core_fields_are_compat core_btf 1 core_btf 1 = Some 1"
proof -
  have "int_word core_btf (BtfAt 24) = Some 0x20"
    by (simp add: int_word_def core_btf_def enc_btf_def enc_header_def core_types_def enc_entry_def enc16_def
        enc32_def rd32_def)
  then show ?thesis
    by (simp add: bpf_core_fields_are_compat.simps core_skip core_reads btf_is_composite_def btf_kind_def
        BTF_INFO_KIND_def btf_kinds btf_int_offset_def BTF_INT_OFFSET_def)
qed

lemma core_field: "field_at core_btf [105] 2 path off c j ty \<Longrightarrow> ty = 1"
  using field_at_iff [OF core_skip2 core_reads(2), of "[105]" path off c j ty]
  by (auto simp: via_member_def core_reads core_name str_is_empty_def btf_vlen_def BTF_INFO_VLEN_def
      btf_is_composite_def)

definition core_acc :: bpf_core_accessor where
  "core_acc = \<lparr>acc_type_id = 2, acc_idx = 0, acc_name = Some [105]\<rparr>"

definition core_start :: bpf_core_spec where
  "core_start = \<lparr>spec_btf = core_btf, spec = [\<lparr>acc_type_id = 2, acc_idx = 0, acc_name = None\<rparr>],
    raw_spec = [0], bit_offset = 0\<rparr>"

definition core_found :: bpf_core_spec where
  "core_found = \<lparr>spec_btf = core_btf, spec = [\<lparr>acc_type_id = 2, acc_idx = 0, acc_name = None\<rparr>, core_acc],
    raw_spec = [0, 0], bit_offset = 3\<rparr>"

lemma core_match:
  "bpf_core_match_member match_depth core_btf core_acc core_btf 2 core_start 2 = Some (1, core_found, 1)"
proof -
  let ?m = "\<lparr>m_name_off = 1, m_type = 1, m_offset = 0x05000003\<rparr>"
  have off: "btf_member_bit_offset core_btf (BtfAt 40) 0 = Some 3"
    by (simp add: btf_member_bit_offset_def core_reads btf_kflag_def BTF_INFO_KFLAG_def BTF_MEMBER_BIT_OFFSET_def)
  have ty: "btf_is_composite \<lparr>name_off = 1, info = 0x84000001, size_type = 4\<rparr>"
    "unat (btf_vlen \<lparr>name_off = 1, info = 0x84000001, size_type = 4\<rparr>) = 1"
    by (simp_all add: btf_is_composite_def btf_kind_def BTF_INFO_KIND_def btf_kinds btf_vlen_def BTF_INFO_VLEN_def)
  have "match_members (Suc 64) core_btf core_acc ?m (Some [105]) core_btf 2 (BtfAt 40) [0] core_start 2 =
      Some (1, core_found, 1)"
    unfolding match_members.simps
    by (simp add: off core_reads core_name core_start_def core_found_def core_acc_def BPF_CORE_SPEC_MAX_LEN_def
        str_is_empty_def match_named_def core_compat push_raw_def Let_def)
  then have "match_members match_depth core_btf core_acc ?m (Some [105]) core_btf 2 (BtfAt 40) [0] core_start 2 =
      Some (1, core_found, 1)"
    by (simp add: match_depth_def)
  moreover have "acc_type_id core_acc = 2" "acc_idx core_acc = 0" by (simp_all add: core_acc_def)
  ultimately show ?thesis using ty
    by (simp add: bpf_core_match_member.simps core_skip2 core_reads core_name)
qed

theorem match_member_correct_witness:
  "\<exists>path off c j. field_at core_btf [105] 2 path off c j 1 \<and>
     core_found = core_start\<lparr>raw_spec := raw_spec core_start @ map int path,
       bit_offset := bit_offset core_start + off,
       spec := spec core_start @ [\<lparr>acc_type_id = c, acc_idx = of_nat j, acc_name = Some [105]\<rparr>]\<rparr>"
proof -
  let ?m = "\<lparr>m_name_off = 1, m_type = 1, m_offset = 0x05000003\<rparr>"
  have "btf__type_by_id core_btf (acc_type_id core_acc) = Some (Some (BtfAt 40))"
    "btf_members core_btf (BtfAt 40) (unat (acc_idx core_acc)) = Some ?m"
    "name_str core_btf (m_name_off ?m) = Some (Some [105])" "[105 :: u8] \<noteq> []"
    by (simp_all add: core_acc_def core_reads core_name)
  from match_member_correct [OF this _ core_match] show ?thesis
    using core_compat core_field by fastforce
qed

theorem match_depth_enough_witness:
  "bpf_core_match_member 100 core_btf core_acc core_btf 2 core_start 2 =
     bpf_core_match_member match_depth core_btf core_acc core_btf 2 core_start 2"
  by (rule match_depth_enough) (simp_all add: core_start_def BPF_CORE_SPEC_MAX_LEN_def match_depth_def)

lemma core_raw: "parse_raw [48, 58, 48] [] = Some (Inr [0, 0])"
  by (simp add: parse_raw.simps sscanf_d_def isspace_def isdigit_def colon_def digits_value_def Let_def
      BPF_CORE_SPEC_MAX_LEN_def)

lemma core_size: "btf__resolve_size core_btf 2 = Some 4"
proof -
  have "resolve_size_loop core_btf (Suc 31) (Some (BtfAt 40)) 1 = Some (Inr (4, 1))"
    unfolding resolve_size_loop.simps
    by (simp add: core_reads btf_type_is_void_def btf_is_fwd_def resolve_size_step_def Let_def btf_kind_def
        BTF_INFO_KIND_def btf_kinds)
  then show ?thesis by (simp add: btf__resolve_size_def core_reads MAX_RESOLVE_DEPTH_def)
qed

lemma core_parse: "bpf_core_spec_parse core_btf 2 (Some [48, 58, 48]) = Some (Inr core_found)"
proof -
  have "btf_member_bit_offset core_btf (BtfAt 40) 0 = Some 3"
    by (simp add: btf_member_bit_offset_def core_reads btf_kflag_def BTF_INFO_KFLAG_def BTF_MEMBER_BIT_OFFSET_def)
  then show ?thesis
    by (simp add: bpf_core_spec_parse_def core_raw core_size core_skip2 str_is_empty_def colon_def
        spec_parse_step_def core_reads core_name btf_is_composite_def btf_kind_def BTF_INFO_KIND_def btf_kinds
        btf_vlen_def BTF_INFO_VLEN_def core_found_def core_acc_def Let_def)
qed

theorem core_spec_bounds_witness: "spec_fits core_found"
  using core_spec_bounds [of core_btf 2 "Some [48, 58, 48]" core_found core_btf 2] core_parse by blast

section \<open>Flavors\<close>

definition flavor_sep_at :: "u8 list \<Rightarrow> nat \<Rightarrow> bool" where
  "flavor_sep_at name i \<longleftrightarrow> i + 4 < length name \<and> bpf_core_is_flavor_sep (drop i name)"

lemma essential_loop_last:
  "n + 4 \<le> length name \<or> n = 0 \<Longrightarrow>
   essential_loop name n = (if \<exists>i < n. flavor_sep_at name i
     then Suc (Max {i. i < n \<and> flavor_sep_at name i}) else length name)"
proof (induction n)
  case (Suc n)
  have sep: "bpf_core_is_flavor_sep (drop n name) \<longleftrightarrow> flavor_sep_at name n"
    using Suc.prems by (auto simp: flavor_sep_at_def)
  show ?case
  proof (cases "flavor_sep_at name n")
    case True
    then have "Max {i. i < Suc n \<and> flavor_sep_at name i} = n"
      by (intro Max_eqI) auto
    then show ?thesis using True sep by auto
  next
    case False
    then have "{i. i < Suc n \<and> flavor_sep_at name i} = {i. i < n \<and> flavor_sep_at name i}"
      "(\<exists>i < Suc n. flavor_sep_at name i) \<longleftrightarrow> (\<exists>i < n. flavor_sep_at name i)"
      by (auto simp: less_Suc_eq)
    then show ?thesis using False sep Suc by auto
  qed
qed simp

text \<open>The flavor of a name. A suffix of three underscores and a flavor without such a separator of its
  own is cut off, when neither the name ends nor the flavor begins with an underscore; so all flavors of a
  type have the same essential name.\<close>

theorem essential_name_strips:
  assumes "name \<noteq> []" "last name \<noteq> underscore" "flavor \<noteq> []" "hd flavor \<noteq> underscore"
    "\<forall>i. \<not> flavor_sep_at flavor i"
  shows "take (bpf_core_essential_name_len (name @ [underscore, underscore, underscore] @ flavor))
    (name @ [underscore, underscore, underscore] @ flavor) = name"
proof -
  let ?full = "name @ [underscore, underscore, underscore] @ flavor" and ?n = "length name"
  have here: "flavor_sep_at ?full (?n - 1)"
    using assms(1-4)
    by (auto simp: flavor_sep_at_def bpf_core_is_flavor_sep_def nth_append last_conv_nth hd_conv_nth
        numeral_eq_Suc nth_Cons')
  have later: "i = ?n - 1" if "flavor_sep_at ?full i" "?n - 1 \<le> i" for i
  proof (rule ccontr)
    assume "i \<noteq> ?n - 1"
    then have "?n \<le> i" using that(2) by simp
    then obtain j where j: "i = ?n + j" by (metis le_iff_add)
    then have drop: "drop i ?full = drop j ([underscore, underscore, underscore] @ flavor)" by simp
    consider "j < 3" | k where "j = 3 + k" by (metis le_iff_add not_less)
    then show False
    proof cases
      case 1
      then have "drop i ?full ! 0 = underscore" unfolding drop by (auto simp: less_Suc_eq numeral_eq_Suc)
      then show False using that(1) by (simp add: flavor_sep_at_def bpf_core_is_flavor_sep_def)
    next
      case 2
      then have "flavor_sep_at flavor k"
        using that(1) j drop by (simp add: flavor_sep_at_def numeral_eq_Suc)
      then show False using assms(5) by blast
    qed
  qed
  have "Max {i. i < length ?full - 4 \<and> flavor_sep_at ?full i} = ?n - 1"
  proof (rule Max_eqI)
    show "?n - 1 \<in> {i. i < length ?full - 4 \<and> flavor_sep_at ?full i}"
      using here by (auto simp: flavor_sep_at_def)
    show "y \<le> ?n - 1" if "y \<in> {i. i < length ?full - 4 \<and> flavor_sep_at ?full i}" for y
      using that later [of y] by (cases "?n - 1 \<le> y") auto
  qed simp
  moreover have "\<exists>i < length ?full - 4. flavor_sep_at ?full i"
    using here by (intro exI [of _ "?n - 1"]) (auto simp: flavor_sep_at_def)
  ultimately have "essential_loop ?full (length ?full - 4) = Suc (?n - 1)"
    using essential_loop_last [of "length ?full - 4" ?full] by (metis (lifting) le_add_diff_inverse2 nle_le diff_is_0_eq')
  then show ?thesis using assms(1) by (simp add: bpf_core_essential_name_len_def)
qed

theorem essential_name_strips_witness:
  "take (bpf_core_essential_name_len ([97, 98] @ [underscore, underscore, underscore] @ [99]))
    ([97, 98] @ [underscore, underscore, underscore] @ [99]) = [97, 98]"
  by (rule essential_name_strips) (simp_all add: underscore_def flavor_sep_at_def)

section \<open>Candidates\<close>

text \<open>The name of a type of the target, and whether its essential part is that of a local name.\<close>

definition type_name :: "btf \<Rightarrow> nat \<Rightarrow> u8 list option" where
  "type_name b i = (case btf__type_by_id b (of_nat i) of
     Some (Some p) \<Rightarrow> (case deref b p of Some ty \<Rightarrow> (case name_str b (name_off ty) of Some n \<Rightarrow> n | None \<Rightarrow> None)
                       | None \<Rightarrow> None)
   | _ \<Rightarrow> None)"

definition essential :: "u8 list \<Rightarrow> u8 list" where
  "essential name = take (bpf_core_essential_name_len name) name"

definition is_cand :: "u8 list \<Rightarrow> btf \<Rightarrow> nat \<Rightarrow> bool" where
  "is_cand local_name targ i \<longleftrightarrow>
     (\<exists>n. type_name targ i = Some n \<and> n \<noteq> [] \<and> essential n = essential local_name)"

lemma essential_len_le: "bpf_core_essential_name_len name \<le> length name"
proof -
  have "essential_loop name n \<le> length name" if "n \<le> length name" for n
    using that by (induction n) auto
  then show ?thesis by (simp add: bpf_core_essential_name_len_def)
qed

lemma essential_eq:
  "bpf_core_essential_name_len n = bpf_core_essential_name_len l \<and>
     strncmp_eq l n (bpf_core_essential_name_len l) \<longleftrightarrow> essential n = essential l"
proof -
  have "length (essential n) = bpf_core_essential_name_len n" "length (essential l) = bpf_core_essential_name_len l"
    by (simp_all add: essential_def essential_len_le min_absorb2)
  then show ?thesis unfolding essential_def strncmp_eq_def by metis
qed

lemma push_cand_fits:
  "push_cand usable cands i = Some c \<longleftrightarrow> 4 * length cands + 4 \<le> usable (length cands + 1) \<and> c = cands @ [i]"
  by (auto simp: push_cand_def)

lemma find_cands_loop_filter:
  "find_cands_loop usable ro l (bpf_core_essential_name_len l) targ js cands = Some (Inr r) \<Longrightarrow>
     r = cands @ map of_nat (filter (is_cand l targ) js) \<and>
     (\<forall>k. length cands \<le> k \<and> k < length r \<longrightarrow> 4 * k + 4 \<le> usable (k + 1))"
proof (induction js arbitrary: cands)
  case (Cons i js)
  obtain p ty n where t: "btf__type_by_id targ (of_nat i) = Some (Some p)" "deref targ p = Some ty"
    "name_str targ (name_off ty) = Some n"
    using Cons.prems by (auto simp: bind_eq_Some_conv)
  then have name: "type_name targ i = n" by (simp add: type_name_def)
  have cand: "is_cand l targ i \<longleftrightarrow> \<not> (str_is_empty n \<or>
      bpf_core_essential_name_len (the n) \<noteq> bpf_core_essential_name_len l \<or>
      \<not> strncmp_eq l (the n) (bpf_core_essential_name_len l))"
    using essential_eq [of "the n" l] by (auto simp: is_cand_def name str_is_empty_def)
  show ?case
  proof (cases "is_cand l targ i")
    case False
    then have "find_cands_loop usable ro l (bpf_core_essential_name_len l) targ js cands = Some (Inr r)"
      using Cons.prems t cand by (simp split: if_splits)
    then show ?thesis using Cons.IH False by simp
  next
    case True
    then obtain c where c: "push_cand usable cands (of_nat i) = Some c"
      "find_cands_loop usable ro l (bpf_core_essential_name_len l) targ js c = Some (Inr r)"
      using Cons.prems t cand by (auto simp: bind_eq_Some_conv split: if_splits)
    then show ?thesis using Cons.IH [OF c(2)] True
      by (auto simp: push_cand_fits) (metis le_antisym not_less_eq_eq)
  qed
qed simp

text \<open>C12: the candidates of a local type. A search that succeeds, in a target with less than 2 to the 31 types,
  returns exactly the types of the target
  that have a name with the same essential part, in the order of their ids.\<close>

theorem find_cands_exact:
  assumes "bpf_core_find_cands usable calloc_ok realloc_ok local_btf local_id targ = Some (Inr cands)"
    "nr_types targ < 0x80000000"
  shows "\<exists>name. type_name local_btf (unat local_id) = Some name \<and>
    map unat cands = filter (is_cand name targ) [1..<unat (nr_types targ) + 1]"
proof -
  obtain p ty name where t: "btf__type_by_id local_btf local_id = Some (Some p)" "deref local_btf p = Some ty"
    "name_str local_btf (name_off ty) = Some (Some name)"
    using assms(1) by (auto simp: bpf_core_find_cands_def bind_eq_Some_conv str_is_empty_def
        split: option.splits if_splits)
  then have "find_cands_loop usable realloc_ok name (bpf_core_essential_name_len name) targ
      [1..<unat (nr_types targ) + 1] [] = Some (Inr cands)"
    using assms(1) by (auto simp: bpf_core_find_cands_def btf__get_nr_types_def simp del: upt_Suc split: if_splits)
  then have "cands = map of_nat (filter (is_cand name targ) [1..<unat (nr_types targ) + 1])"
    using find_cands_loop_filter by fastforce
  moreover have "unat (of_nat i :: u32) = i" if "i \<in> set [1..<unat (nr_types targ) + 1]" for i
    using that assms(2) unsigned_less [of "nr_types targ", where ?'a = nat]
    by (intro unat_of_nat_small) (auto simp: word_less_nat_alt)
  ultimately have "map unat cands = filter (is_cand name targ) [1..<unat (nr_types targ) + 1]"
    by (auto simp: comp_def intro!: map_idI simp del: upt_Suc)
  moreover have "type_name local_btf (unat local_id) = Some name" using t by (simp add: type_name_def)
  ultimately show ?thesis by blast
qed

text \<open>Searches that differ in the allocator only: where one succeeds, the other takes the same steps up to
  the first entry that does not fit.\<close>

lemma find_cands_loop_alloc:
  "find_cands_loop roomy ro l len targ js cands = Some (Inr r) \<Longrightarrow>
     length cands \<le> length r \<and>
     find_cands_loop usable ro l len targ js cands =
       (if \<forall>k. length cands \<le> k \<and> k < length r \<longrightarrow> 4 * k + 4 \<le> usable (k + 1) then Some (Inr r) else None)"
proof (induction js arbitrary: cands)
  case (Cons i js)
  obtain t p ty name where t: "btf__type_by_id targ (of_nat i) = Some t" "t = Some p" "deref targ p = Some ty"
    "name_str targ (name_off ty) = Some name"
    using Cons.prems by (auto simp: bind_eq_Some_conv)
  show ?case
  proof (cases "str_is_empty name \<or> bpf_core_essential_name_len (the name) \<noteq> len \<or> \<not> strncmp_eq l (the name) len")
    case True
    then show ?thesis using Cons t by simp
  next
    case False
    have run: "find_cands_loop u ro l len targ (i # js) cands =
        (if 4 * length cands + 4 \<le> u (length cands + 1)
         then find_cands_loop u ro l len targ js (cands @ [of_nat i]) else None)" if "ro (length cands)" for u
      using False t that by (simp add: push_cand_def)
    have ro: "ro (length cands)"
    proof (rule ccontr)
      assume "\<not> ro (length cands)"
      then show False using Cons.prems False t by simp
    qed
    have "find_cands_loop roomy ro l len targ js (cands @ [of_nat i]) = Some (Inr r)"
      using Cons.prems run [OF ro, of roomy] by (simp split: if_splits)
    note IH = Cons.IH [OF this]
    show ?thesis
    proof (cases "4 * length cands + 4 \<le> usable (length cands + 1)")
      case True
      then have "(\<forall>k. length (cands @ [of_nat i :: u32]) \<le> k \<and> k < length r \<longrightarrow> 4 * k + 4 \<le> usable (k + 1)) \<longleftrightarrow>
          (\<forall>k. length cands \<le> k \<and> k < length r \<longrightarrow> 4 * k + 4 \<le> usable (k + 1))"
        by (auto simp: Suc_le_eq) (metis le_neq_implies_less)
      then show ?thesis using IH run [OF ro, of usable] True by auto
    next
      case False
      then have "\<not> (\<forall>k. length cands \<le> k \<and> k < length r \<longrightarrow> 4 * k + 4 \<le> usable (k + 1))"
        using IH by (auto simp: Suc_le_eq)
      then show ?thesis using IH run [OF ro, of usable] False by auto
    qed
  qed
qed auto

text \<open>C16: the vector of candidates is written past its end. It is enlarged to \<open>len + 1\<close> bytes, not entries,
  before the entry of four bytes at index \<open>len\<close> is stored. Take a search that returns its candidates with
  some allocator that leaves room enough; all it reads is then readable and no allocation fails. The same
  search with another allocator returns them too if every store fits into what that one makes usable, and
  otherwise it makes an access outside the block: with an allocator that is exact, as soon as there is a
  candidate, and with one whose smallest block has 24 bytes, as soon as there are seven.\<close>

theorem cand_vector_overflow:
  assumes "bpf_core_find_cands roomy calloc_ok realloc_ok local_btf local_id targ = Some (Inr cands)"
  shows "bpf_core_find_cands usable calloc_ok realloc_ok local_btf local_id targ =
      (if \<forall>k < length cands. 4 * k + 4 \<le> usable (k + 1) then Some (Inr cands) else None) \<and>
    bpf_core_find_cands (\<lambda>n. n) calloc_ok realloc_ok local_btf local_id targ =
      (if cands = [] then Some (Inr []) else None) \<and>
    bpf_core_find_cands (\<lambda>n. max 24 n) calloc_ok realloc_ok local_btf local_id targ =
      (if length cands < 7 then Some (Inr cands) else None)"
proof -
  obtain p ty name where t: "btf__type_by_id local_btf local_id = Some (Some p)" "deref local_btf p = Some ty"
    "name_str local_btf (name_off ty) = Some (Some name)"
    using assms(1) by (auto simp: bpf_core_find_cands_def bind_eq_Some_conv str_is_empty_def
        split: option.splits if_splits)
  have calloc: "\<not> str_is_empty (Some name)" "calloc_ok"
    using assms t by (auto simp: bpf_core_find_cands_def split: if_splits)
  then have run: "bpf_core_find_cands u calloc_ok realloc_ok local_btf local_id targ =
      find_cands_loop u realloc_ok name (bpf_core_essential_name_len name) targ
        [1..<unat (nr_types targ) + 1] []" for u
    using t by (simp add: bpf_core_find_cands_def btf__get_nr_types_def del: upt_Suc)
  have any: "bpf_core_find_cands u calloc_ok realloc_ok local_btf local_id targ =
      (if \<forall>k < length cands. 4 * k + 4 \<le> u (k + 1) then Some (Inr cands) else None)" for u
    using find_cands_loop_alloc [OF assms [unfolded run], of u] unfolding run by simp
  have small: "(\<forall>k < length cands. 4 * k + 4 \<le> max 24 (k + 1)) \<longleftrightarrow> length cands < 7"
  proof
    assume *: "\<forall>k < length cands. 4 * k + 4 \<le> max 24 (k + 1)"
    show "length cands < 7"
    proof (rule ccontr)
      assume "\<not> length cands < 7"
      then have "6 < length cands" by linarith
      with * have "4 * 6 + 4 \<le> max 24 (6 + 1 :: nat)" by blast
      then show False by simp
    qed
  next
    assume "length cands < 7"
    then show "\<forall>k < length cands. 4 * k + 4 \<le> max 24 (k + 1)" by (intro allI impI) (simp add: le_max_iff_disj)
  qed
  have exact: "(\<forall>k < length cands. 4 * k + 4 \<le> k + 1) \<longleftrightarrow> cands = []"
    by (cases cands) (simp_all, force)
  have "bpf_core_find_cands (\<lambda>n. n) calloc_ok realloc_ok local_btf local_id targ =
      (if cands = [] then Some (Inr []) else None)"
    unfolding any [of "\<lambda>n. n"] exact by simp
  moreover have "bpf_core_find_cands (\<lambda>n. max 24 n) calloc_ok realloc_ok local_btf local_id targ =
      (if length cands < 7 then Some (Inr cands) else None)"
    unfolding any [of "\<lambda>n. max 24 n"] small by simp
  ultimately show ?thesis by (intro conjI any)
qed

lemma core_cands:
  "usable 1 \<ge> 4 \<Longrightarrow> bpf_core_find_cands usable True (\<lambda>n. True) core_btf 2 core_btf = Some (Inr [2])"
proof -
  assume u: "usable 1 \<ge> 4"
  have anon: "name_str core_btf 0 = Some (Some [])"
    by (simp add: name_str_def btf__name_by_offset_def cstr_def core_btf_def enc_btf_def enc_header_def
        core_types_def enc_entry_def enc16_def enc32_def rd32_def)
  have n: "nr_types core_btf = 2" "[Suc 0..<3] = [Suc 0, 2]" by (simp_all add: core_btf_def upt_rec)
  then show ?thesis using u
    by (simp add: bpf_core_find_cands_def core_reads core_name anon btf__get_nr_types_def str_is_empty_def
        strncmp_eq_def push_cand_def)
qed

theorem find_cands_exact_witness:
  "\<exists>name. type_name core_btf (unat (2 :: u32)) = Some name \<and>
    map unat [2 :: u32] = filter (is_cand name core_btf) [1..<unat (nr_types core_btf) + 1]"
  by (rule find_cands_exact [OF core_cands [of "\<lambda>n. 24"]]) (simp_all add: core_btf_def)

theorem cand_vector_overflow_witness:
  "bpf_core_find_cands (\<lambda>n. n) True (\<lambda>n. True) core_btf 2 core_btf = None \<and>
   bpf_core_find_cands (\<lambda>n. max 24 n) True (\<lambda>n. True) core_btf 2 core_btf = Some (Inr [2])"
  using cand_vector_overflow [OF core_cands [of "\<lambda>n. 4 * n"]] by simp

section \<open>Printing and parsing\<close>

text \<open>The raw part of \<open>bpf_core_dump_spec\<close>: the indices with \<open>%d\<close>, separated by colons.\<close>

fun dump_raw :: "int list \<Rightarrow> u8 list" where
  "dump_raw [] = []"
| "dump_raw [v] = format_d v"
| "dump_raw (v # vs) = format_d v @ colon # dump_raw vs"

lemma digit_char:
  "d < 10 \<Longrightarrow> isdigit (48 + of_nat d) \<and> uint (48 + of_nat d :: u8) - 48 = int d"
proof -
  assume d: "d < 10"
  define w where "w = (48 + of_nat d :: u8)"
  have w: "unat w = 48 + d" using d by (simp add: w_def unat_word_ariths unat_of_nat_small)
  then have "isdigit w" using d by (simp add: isdigit_def word_le_nat_alt)
  moreover have "uint w - 48 = int d" unfolding uint_nat w by simp
  ultimately show ?thesis by (simp add: w_def)
qed

lemma decimal_digits: "\<forall>c \<in> set (decimal n). isdigit c"
proof (induction n rule: decimal.induct)
  case (1 n)
  show ?case
  proof (cases "n < 10")
    case True
    then show ?thesis using digit_char [of n] by (simp add: decimal.simps [of n])
  next
    case False
    then show ?thesis using 1 digit_char [of "n mod 10"] by (simp add: decimal.simps [of n])
  qed
qed

lemma decimal_nonempty: "decimal n \<noteq> []"
  by (simp add: decimal.simps [of n])

lemma digits_value_decimal: "digits_value (decimal n) = int n"
proof (induction n rule: decimal.induct)
  case (1 n)
  show ?case
  proof (cases "n < 10")
    case True
    then show ?thesis using digit_char [of n] by (simp add: decimal.simps [of n] digits_value_def)
  next
    case False
    then have "digits_value (decimal n) = 10 * int (n div 10) + int (n mod 10)"
      using 1 digit_char [of "n mod 10"] by (simp add: decimal.simps [of n] digits_value_def)
    also have "\<dots> = int n" by presburger
    finally show ?thesis .
  qed
qed

lemma isdigit_facts: "isdigit c \<Longrightarrow> \<not> isspace c \<and> c \<noteq> 45 \<and> c \<noteq> 43 \<and> c \<noteq> colon"
  by (auto simp: isdigit_def isspace_def colon_def word_le_nat_alt)

lemma sscanf_format:
  assumes "- (2 ^ 31) \<le> v" "v < 2 ^ 31" "r = [] \<or> \<not> isdigit (hd r)"
  shows "sscanf_d (format_d v @ r) = Some (Some (v, r))"
proof -
  have tw: "takeWhile isdigit (decimal n @ r) = decimal n" "dropWhile isdigit (decimal n @ r) = r" for n
    using assms(3) decimal_digits [of n] by (cases r; simp add: takeWhile_append2 dropWhile_append2)+
  have hd: "decimal n @ r = hd (decimal n) # tl (decimal n) @ r" "isdigit (hd (decimal n))" for n
    using decimal_nonempty [of n] decimal_digits [of n] by (cases "decimal n"; simp)+
  have ws: "dropWhile isspace (decimal n @ r) = decimal n @ r" for n
    using hd(2) [of n] isdigit_facts by (subst (1 2) hd(1)) simp
  show ?thesis
  proof (cases "v < 0")
    case True
    have "dropWhile isspace (45 # decimal (nat (- v)) @ r) = 45 # decimal (nat (- v)) @ r"
      by (simp add: isspace_def)
    then show ?thesis using True assms(1,2) tw decimal_nonempty
      by (simp add: sscanf_d_def format_d_def Let_def digits_value_decimal)
  next
    case False
    have "hd (decimal (nat v) @ r) \<noteq> 45" "hd (decimal (nat v) @ r) \<noteq> 43"
      using hd(2) [of "nat v"] isdigit_facts decimal_nonempty [of "nat v"] by (simp_all add: hd_append)
    then show ?thesis using False assms(1,2) tw decimal_nonempty
      by (simp add: sscanf_d_def format_d_def Let_def digits_value_decimal ws)
  qed
qed

lemma dump_raw_Cons: "vs \<noteq> [] \<Longrightarrow> dump_raw (v # vs) = format_d v @ colon # dump_raw vs"
  by (cases vs) simp_all

lemma format_d_hd: "format_d v \<noteq> []" "hd (format_d v @ r) \<noteq> colon"
proof -
  have "isdigit (hd (decimal (nat v)))" using decimal_nonempty [of "nat v"] decimal_digits [of "nat v"]
    by (cases "decimal (nat v)") simp_all
  then show "format_d v \<noteq> []" "hd (format_d v @ r) \<noteq> colon"
    using decimal_nonempty [of "nat v"] isdigit_facts [of "hd (decimal (nat v))"]
    by (auto simp: format_d_def hd_append colon_def)
qed

lemma parse_dump_raw_from:
  assumes "\<forall>v \<in> set vs. - (2 ^ 31) \<le> v \<and> v < 2 ^ 31" "vs \<noteq> []" "length raw \<le> BPF_CORE_SPEC_MAX_LEN"
    "str = dump_raw vs \<or> str = colon # dump_raw vs"
  shows "parse_raw str raw = Some (if length raw + length vs \<le> BPF_CORE_SPEC_MAX_LEN
    then Inr (raw @ vs) else Inl (- E2BIG))"
  using assms
proof (induction vs arbitrary: raw str)
  case (Cons v vs)
  define rest where "rest = (if vs = [] then [] else colon # dump_raw vs)"
  have dump: "dump_raw (v # vs) = format_d v @ rest" by (cases vs) (simp_all add: rest_def)
  have "str \<noteq> []" using Cons.prems(4) format_d_hd(1) by (auto simp: dump)
  moreover have "(if hd str = colon then tl str else str) = format_d v @ rest"
    using Cons.prems(4) format_d_hd(2) [of v rest] by (auto simp: dump)
  moreover have "sscanf_d (format_d v @ rest) = Some (Some (v, rest))"
    using Cons.prems(1) by (intro sscanf_format) (auto simp: rest_def colon_def isdigit_def)
  ultimately have step: "parse_raw str raw = (if length raw = BPF_CORE_SPEC_MAX_LEN then Some (Inl (- E2BIG))
      else parse_raw rest (raw @ [v]))"
    by (simp add: parse_raw.simps [of str])
  show ?case
  proof (cases "vs = []")
    case True
    then show ?thesis using step Cons.prems(3) by (auto simp: rest_def parse_raw.simps)
  next
    case False
    then show ?thesis using step Cons.IH [of "raw @ [v]" rest] Cons.prems(1,3) by (auto simp: rest_def)
  qed
qed simp

text \<open>C15: an access string is read back as it is printed. The indices that a specification prints, up to
  64 of them, parse to themselves, with or without a sign; more than 64 are refused.\<close>

theorem parse_dump_raw:
  assumes "\<forall>v \<in> set vs. - (2 ^ 31) \<le> v \<and> v < 2 ^ 31" "vs \<noteq> []"
  shows "parse_raw (dump_raw vs) [] =
    Some (if length vs \<le> BPF_CORE_SPEC_MAX_LEN then Inr vs else Inl (- E2BIG))"
  using parse_dump_raw_from [OF assms, of "[]" "dump_raw vs"] by simp

theorem parse_dump_raw_witness:
  "parse_raw (dump_raw [0, 12, - 3]) [] =
    Some (if length [0, 12, - 3 :: int] \<le> BPF_CORE_SPEC_MAX_LEN then Inr [0, 12, - 3] else Inl (- E2BIG))"
  by (rule parse_dump_raw) simp_all

end
