(* ===== verification/Bpf_Object.thy ===== *)
theory Bpf_Object
  imports Btf_Ext
begin

text \<open>
  The state of a BPF object while it is opened and loaded, \<open>libbpf/src/libbpf.c\<close> lines 157 to 292: programs
  with their instructions and relocations, maps, and the section numbers of the ELF file; and the
  operations on the list of programs, lines 354 to 498 and 1741 to 1794. Strings are lists of bytes.
  What comes from libelf is an argument. The outcomes of allocations are arguments as well.
\<close>

section \<open>Error numbers\<close>

definition LIBBPF_ERRNO__LIBELF :: int where "LIBBPF_ERRNO__LIBELF = 4000"
definition LIBBPF_ERRNO__FORMAT :: int where "LIBBPF_ERRNO__FORMAT = 4001"
definition LIBBPF_ERRNO__INTERNAL :: int where "LIBBPF_ERRNO__INTERNAL = 4004"
definition LIBBPF_ERRNO__RELOC :: int where "LIBBPF_ERRNO__RELOC = 4005"

section \<open>Instructions\<close>

record bpf_insn =
  insn_code :: u8
  dst_reg :: u8
  src_reg :: u8
  insn_off :: u16
  imm :: u32

definition BPF_CLASS :: "u8 \<Rightarrow> u8" where "BPF_CLASS code = and code 0x07"
definition BPF_SRC :: "u8 \<Rightarrow> u8" where "BPF_SRC code = and code 0x08"
definition BPF_LD :: u8 where "BPF_LD = 0x00"
definition BPF_ALU :: u8 where "BPF_ALU = 0x04"
definition BPF_JMP :: u8 where "BPF_JMP = 0x05"
definition BPF_ALU64 :: u8 where "BPF_ALU64 = 0x07"
definition BPF_K :: u8 where "BPF_K = 0x00"
definition BPF_IMM :: u8 where "BPF_IMM = 0x00"
definition BPF_DW :: u8 where "BPF_DW = 0x18"
definition BPF_CALL :: u8 where "BPF_CALL = 0x80"
definition BPF_PSEUDO_MAP_FD :: u8 where "BPF_PSEUDO_MAP_FD = 1"
definition BPF_PSEUDO_MAP_VALUE :: u8 where "BPF_PSEUDO_MAP_VALUE = 2"
definition BPF_PSEUDO_CALL :: u8 where "BPF_PSEUDO_CALL = 1"

text \<open>The bytes of an instruction; the two registers share a byte, the first in its low half.\<close>

definition rd_insn :: "u8 list \<Rightarrow> nat \<Rightarrow> bpf_insn option" where
  "rd_insn buf p =
     do {
       c \<leftarrow> rd8 buf p;
       regs \<leftarrow> rd8 buf (p + 1);
       off \<leftarrow> rd16 buf (p + 2);
       i \<leftarrow> rd32 buf (p + 4);
       Some \<lparr>insn_code = c, dst_reg = and regs 0x0f, src_reg = drop_bit 4 regs, insn_off = off, imm = i\<rparr>
     }"

section \<open>Programs, maps and the object\<close>

datatype reloc_type = RELO_LD64 | RELO_CALL | RELO_DATA

record reloc_desc =
  relo_type :: reloc_type
  insn_idx :: int
  map_idx :: nat
  sym_off :: u32

text \<open>Function and line information is null until it was found in the \<open>.BTF.ext\<close> section.\<close>

record bpf_program =
  prog_idx :: int
  prog_name :: "u8 list option"
  section_name :: "u8 list option"
  pin_name :: "u8 list option"
  prog_insns :: "bpf_insn list"
  main_prog_cnt :: nat
  reloc_descs :: "reloc_desc list option"
  prog_func_info :: "u8 list option"
  func_info_rec_size :: u32
  func_info_cnt :: u32
  prog_line_info :: "u8 list option"
  line_info_rec_size :: u32
  line_info_cnt :: u32

datatype libbpf_map_type = LIBBPF_MAP_UNSPEC | LIBBPF_MAP_DATA | LIBBPF_MAP_BSS | LIBBPF_MAP_RODATA

record bpf_map_def =
  map_type :: u32
  key_size :: u32
  value_size :: u32
  max_entries :: u32
  map_flags :: u32

record bpf_map =
  map_fd :: int
  map_name :: "u8 list"
  sec_idx :: int
  sec_offset :: u64
  inner_map_fd :: int
  map_def :: bpf_map_def
  btf_key_type_id :: u32
  btf_value_type_id :: u32
  map_libbpf_type :: libbpf_map_type
  pin_path :: "u8 list option"
  pinned :: bool
  reused :: bool

record bpf_object =
  obj_programs :: "bpf_program list"
  obj_maps :: "bpf_map list"
  has_pseudo_calls :: bool
  relaxed_core_relocs :: bool
  cap_global_data :: bool
  maps_shndx :: int
  btf_maps_shndx :: int
  text_shndx :: int
  data_shndx :: int
  rodata_shndx :: int
  bss_shndx :: int
  obj_btf :: "btf option"
  obj_btf_ext :: "btf_ext option"

section \<open>Adding programs\<close>

definition slash :: u8 where "slash = 47"

definition pin_name_of :: "u8 list \<Rightarrow> u8 list" where
  "pin_name_of name = map (\<lambda>c. if c = slash then 95 else c) name"

text \<open>
  \<open>bpf_program__init\<close>; \<open>None\<close> is the access through a null pointer when the second copy of the name cannot
  be allocated, since its slashes are replaced before the result is checked.
\<close>

definition bpf_program__init ::
  "bool \<Rightarrow> bool \<Rightarrow> bool \<Rightarrow> u8 list \<Rightarrow> u8 list \<Rightarrow> int \<Rightarrow> (int + bpf_program) option" where
  "bpf_program__init name_ok pin_ok insns_ok bytes sec_name idx =
     (if bytes = [] \<or> length bytes mod 8 \<noteq> 0 then Some (Inl (- EINVAL))
      else if \<not> name_ok then Some (Inl (- ENOMEM))
      else if \<not> pin_ok then None
      else if \<not> insns_ok then Some (Inl (- ENOMEM))
      else
        Some (Inr
          \<lparr>prog_idx = idx, prog_name = None, section_name = Some sec_name, pin_name = Some (pin_name_of sec_name),
           prog_insns = map (\<lambda>i. the (rd_insn bytes (8 * i))) [0..<length bytes div 8], main_prog_cnt = 0,
           reloc_descs = None, prog_func_info = None, func_info_rec_size = 0, func_info_cnt = 0,
           prog_line_info = None, line_info_rec_size = 0, line_info_cnt = 0\<rparr>))"

definition bpf_object__add_program ::
  "bool \<Rightarrow> bool \<Rightarrow> bool \<Rightarrow> bool \<Rightarrow> u8 list \<Rightarrow> u8 list \<Rightarrow> int \<Rightarrow> bpf_object \<Rightarrow> (int \<times> bpf_object) option" where
  "bpf_object__add_program name_ok pin_ok insns_ok realloc_ok bytes sec_name idx obj =
     do {
       p \<leftarrow> bpf_program__init name_ok pin_ok insns_ok bytes sec_name idx;
       Some (case p of
          Inl e \<Rightarrow> (e, obj)
        | Inr prog \<Rightarrow>
            if \<not> realloc_ok then (- ENOMEM, obj)
            else (0, obj\<lparr>obj_programs := obj_programs obj @ [prog]\<rparr>))
     }"

text \<open>A symbol of the ELF file; its name is null when the string table does not have it.\<close>

record elf_sym =
  st_name :: "u8 list option"
  st_bind :: u8
  st_shndx :: u16
  st_value :: u64

fun prog_sym_name :: "u8 \<Rightarrow> elf_sym option list \<Rightarrow> int \<Rightarrow> int + u8 list option" where
  "prog_sym_name STB_GLOBAL [] idx = Inr None"
| "prog_sym_name STB_GLOBAL (s # syms) idx =
     (case s of
        None \<Rightarrow> prog_sym_name STB_GLOBAL syms idx
      | Some y \<Rightarrow>
          if uint (st_shndx y) \<noteq> idx \<or> st_bind y \<noteq> STB_GLOBAL then prog_sym_name STB_GLOBAL syms idx
          else if st_name y = None then Inl (- LIBBPF_ERRNO__LIBELF)
          else Inr (st_name y))"

definition text_name :: "u8 list" where "text_name = [46, 116, 101, 120, 116]"

fun init_prog_names ::
  "u8 \<Rightarrow> elf_sym option list \<Rightarrow> (nat \<Rightarrow> bool) \<Rightarrow> int \<Rightarrow> nat \<Rightarrow> bpf_program list \<Rightarrow> int \<times> bpf_program list" where
  "init_prog_names STB_GLOBAL syms dup_ok text i [] = (0, [])"
| "init_prog_names STB_GLOBAL syms dup_ok text i (prog # progs) =
     (case prog_sym_name STB_GLOBAL syms (prog_idx prog) of
        Inl e \<Rightarrow> (e, prog # progs)
      | Inr name \<Rightarrow>
          let name = (if name = None \<and> prog_idx prog = text then Some text_name else name) in
          if name = None then (- EINVAL, prog # progs)
          else if \<not> dup_ok i then (- ENOMEM, prog # progs)
          else
            let (err, progs) = init_prog_names STB_GLOBAL syms dup_ok text (i + 1) progs
            in (err, prog\<lparr>prog_name := name\<rparr> # progs))"

definition bpf_object__init_prog_names ::
  "u8 \<Rightarrow> elf_sym option list \<Rightarrow> (nat \<Rightarrow> bool) \<Rightarrow> bpf_object \<Rightarrow> int \<times> bpf_object" where
  "bpf_object__init_prog_names STB_GLOBAL syms dup_ok obj =
     (let (err, progs) = init_prog_names STB_GLOBAL syms dup_ok (text_shndx obj) 0 (obj_programs obj)
      in (err, obj\<lparr>obj_programs := progs\<rparr>))"

section \<open>Looking up\<close>

fun bpf_object__find_prog_by_idx :: "bpf_program list \<Rightarrow> int \<Rightarrow> nat option" where
  "bpf_object__find_prog_by_idx [] idx = None"
| "bpf_object__find_prog_by_idx (prog # progs) idx =
     (if prog_idx prog = idx then Some 0 else map_option Suc (bpf_object__find_prog_by_idx progs idx))"

fun bpf_object__find_program_by_title :: "bpf_program list \<Rightarrow> u8 list \<Rightarrow> nat option" where
  "bpf_object__find_program_by_title [] title = None"
| "bpf_object__find_program_by_title (pos # ps) title =
     (if section_name pos = Some title then Some 0
      else map_option Suc (bpf_object__find_program_by_title ps title))"

definition bpf_object__shndx_is_data :: "bpf_object \<Rightarrow> int \<Rightarrow> bool" where
  "bpf_object__shndx_is_data obj shndx \<longleftrightarrow>
     shndx = data_shndx obj \<or> shndx = bss_shndx obj \<or> shndx = rodata_shndx obj"

definition bpf_object__shndx_is_maps :: "bpf_object \<Rightarrow> int \<Rightarrow> bool" where
  "bpf_object__shndx_is_maps obj shndx \<longleftrightarrow> shndx = maps_shndx obj \<or> shndx = btf_maps_shndx obj"

definition bpf_object__section_to_libbpf_map_type :: "bpf_object \<Rightarrow> int \<Rightarrow> libbpf_map_type" where
  "bpf_object__section_to_libbpf_map_type obj shndx =
     (if shndx = data_shndx obj then LIBBPF_MAP_DATA
      else if shndx = bss_shndx obj then LIBBPF_MAP_BSS
      else if shndx = rodata_shndx obj then LIBBPF_MAP_RODATA
      else LIBBPF_MAP_UNSPEC)"

lemma find_prog_Some:
  "bpf_object__find_prog_by_idx progs idx = Some i \<Longrightarrow> i < length progs \<and> prog_idx (progs ! i) = idx"
  by (induction progs arbitrary: i) (auto split: if_splits)

end
