(* ===== verification/Core_Reloc.thy ===== *)
theory Core_Reloc
  imports Core_Spec Bpf_Object Hashmap
begin

text \<open>
  Applying CO-RE relocations, \<open>libbpf/src/libbpf.c\<close> lines 2995 to 3550, and the macros with which a BPF
  program reads a relocated bit field (\<open>bpf_core_read.h\<close>): the value of a relocation from a field
  specification, the patch of the instruction, the choice among candidate types with its cache, and the
  run over all records of the \<open>.BTF.ext\<close> data. Log output is left out.
\<close>

section \<open>Relocation records and instructions\<close>

definition BPF_FIELD_BYTE_OFFSET :: u32 where "BPF_FIELD_BYTE_OFFSET = 0"
definition BPF_FIELD_BYTE_SIZE :: u32 where "BPF_FIELD_BYTE_SIZE = 1"
definition BPF_FIELD_EXISTS :: u32 where "BPF_FIELD_EXISTS = 2"
definition BPF_FIELD_SIGNED :: u32 where "BPF_FIELD_SIGNED = 3"
definition BPF_FIELD_LSHIFT_U64 :: u32 where "BPF_FIELD_LSHIFT_U64 = 4"
definition BPF_FIELD_RSHIFT_U64 :: u32 where "BPF_FIELD_RSHIFT_U64 = 5"

lemmas field_kinds = BPF_FIELD_BYTE_OFFSET_def BPF_FIELD_BYTE_SIZE_def BPF_FIELD_EXISTS_def
  BPF_FIELD_SIGNED_def BPF_FIELD_LSHIFT_U64_def BPF_FIELD_RSHIFT_U64_def

record bpf_field_reloc =
  reloc_insn_off :: u32
  reloc_type_id :: u32
  access_str_off :: u32
  reloc_kind :: u32

definition rd_field_reloc :: "u8 list \<Rightarrow> nat \<Rightarrow> bpf_field_reloc option" where
  "rd_field_reloc buf p =
     do {
       i \<leftarrow> rd32 buf p;
       t \<leftarrow> rd32 buf (p + 4);
       a \<leftarrow> rd32 buf (p + 8);
       k \<leftarrow> rd32 buf (p + 12);
       Some \<lparr>reloc_insn_off = i, reloc_type_id = t, access_str_off = a, reloc_kind = k\<rparr>
     }"

definition BTF_INT_SIGNED :: u8 where "BTF_INT_SIGNED = 1"

section \<open>The value of a relocation\<close>

text \<open>
  The smallest load that holds a bit field: size and offset in bytes, starting with the size of the
  declared type. A size of 0 divides by zero.
\<close>

function bitfield_load :: "u32 \<Rightarrow> u32 \<Rightarrow> u32 \<Rightarrow> (int + u32 \<times> u32) option" where
  "bitfield_load bit_off bit_sz byte_sz =
     (if byte_sz = 0 then None
      else
        let byte_off = bit_off div 8 div byte_sz * byte_sz in
        if bit_off + bit_sz - byte_off * 8 > byte_sz * 8 then
          if byte_sz \<ge> 8 then Some (Inl (- E2BIG))
          else bitfield_load bit_off bit_sz (byte_sz * 2)
        else Some (Inr (byte_sz, byte_off)))"
  by pat_completeness auto

lemma double_byte_sz:
  fixes n :: u32
  assumes "n \<noteq> 0" "\<not> n \<ge> 8"
  shows "unat (n * 2) = 2 * unat n" "0 < unat n" "unat n < 8"
  using assms by (simp_all add: word_le_nat_alt not_le unat_mult_lem [THEN iffD1] unat_gt_0)

termination bitfield_load
  by (relation "measure (\<lambda>(bo, bs, n). 16 - unat n)") (simp, use double_byte_sz in force)

declare bitfield_load.simps [simp del]

text \<open>The value, and whether the value in the instruction has to agree with the local one.\<close>

definition bpf_core_calc_field_relo :: "u32 \<Rightarrow> bpf_core_spec \<Rightarrow> (int + u32 \<times> bool) option" where
  "bpf_core_calc_field_relo kind s =
     (let b = spec_btf s; acc = last (spec s) in
      do {
        t \<leftarrow> btf__type_by_id b (acc_type_id acc);
        if acc_name acc = None then
          if kind = BPF_FIELD_BYTE_OFFSET then Some (Inr (bit_offset s div 8, True))
          else if kind = BPF_FIELD_BYTE_SIZE then
            do {
              size \<leftarrow> btf__resolve_size b (acc_type_id acc);
              Some (if size < 0 then Inl (- EINVAL) else Inr (word_of_int size, True))
            }
          else Some (Inl (- EINVAL))
        else
          do {
            t \<leftarrow> t;
            m \<leftarrow> btf_members b t (unat (acc_idx acc));
            (mt, tid) \<leftarrow> skip_mods_and_typedefs b (m_type m);
            mty \<leftarrow> deref b mt;
            bits \<leftarrow> btf_member_bitfield_size b t (acc_idx acc);
            let bit_off = bit_offset s;
            let bitfield = (bits > 0);
            load \<leftarrow>
              (if bitfield then bitfield_load bit_off bits (size_type mty)
               else
                 do {
                   size \<leftarrow> btf__resolve_size b (m_type m);
                   Some (if size < 0 then Inl (- EINVAL) else Inr (word_of_int size, bit_off div 8))
                 });
            (case load of
               Inl e \<Rightarrow> Some (Inl e)
             | Inr (byte_sz, byte_off) \<Rightarrow>
                 let bit_sz = (if bitfield then bits else byte_sz * 8) in
                 if kind = BPF_FIELD_BYTE_OFFSET then Some (Inr (byte_off, \<not> bitfield))
                 else if kind = BPF_FIELD_BYTE_SIZE then Some (Inr (byte_sz, \<not> bitfield))
                 else if kind = BPF_FIELD_SIGNED then
                   if btf_kind mty = BTF_KIND_ENUM then Some (Inr (1, True))
                   else map_option (\<lambda>e. Inr (of_bool (and e BTF_INT_SIGNED \<noteq> 0), True)) (btf_int_encoding b mt)
                 else if kind = BPF_FIELD_LSHIFT_U64 then
                   Some (Inr (64 - (bit_off + bit_sz - byte_off * 8), \<not> bitfield))
                 else if kind = BPF_FIELD_RSHIFT_U64 then Some (Inr (64 - bit_sz, True))
                 else Some (Inl (- EINVAL)))
          }
      })"

section \<open>Patching\<close>

definition reloc_values ::
  "bpf_field_reloc \<Rightarrow> bpf_core_spec \<Rightarrow> bpf_core_spec option \<Rightarrow> (int + u32 \<times> u32 \<times> bool \<times> bool) option" where
  "reloc_values relo local_spec targ_spec =
     (if reloc_kind relo = BPF_FIELD_EXISTS then
        Some (Inr (1, if targ_spec \<noteq> None then 1 else 0, True, False))
      else
        (case targ_spec of
           None \<Rightarrow> Some (Inr (0, - 1, True, True))
         | Some targ_spec \<Rightarrow>
             do {
               l \<leftarrow> bpf_core_calc_field_relo (reloc_kind relo) local_spec;
               (case l of
                  Inl e \<Rightarrow> Some (Inl e)
                | Inr (orig_val, validate) \<Rightarrow>
                    do {
                      r \<leftarrow> bpf_core_calc_field_relo (reloc_kind relo) targ_spec;
                      Some (case r of
                        Inl e \<Rightarrow> Inl e
                      | Inr (new_val, _) \<Rightarrow> Inr (orig_val, new_val, validate, False))
                    })
             }))"

text \<open>The instruction is not looked up within bounds: an index past the program is an access outside.\<close>

definition bpf_core_reloc_insn ::
  "bpf_insn list \<Rightarrow> bpf_field_reloc \<Rightarrow> bpf_core_spec \<Rightarrow> bpf_core_spec option \<Rightarrow> (int + bpf_insn list) option"
where
  "bpf_core_reloc_insn insns relo local_spec targ_spec =
     (if reloc_insn_off relo mod 8 \<noteq> 0 then Some (Inl (- EINVAL))
      else
        do {
          let insn_idx = unat (reloc_insn_off relo div 8);
          v \<leftarrow> reloc_values relo local_spec targ_spec;
          (case v of
             Inl e \<Rightarrow> Some (Inl e)
           | Inr (orig_val, new_val, validate, failed) \<Rightarrow>
               if insn_idx < length insns then
                 let insn = insns ! insn_idx; cls = BPF_CLASS (insn_code insn) in
                 if cls = BPF_ALU \<or> cls = BPF_ALU64 then
                   if BPF_SRC (insn_code insn) \<noteq> BPF_K then Some (Inl (- EINVAL))
                   else if \<not> failed \<and> validate \<and> imm insn \<noteq> orig_val then Some (Inl (- EINVAL))
                   else Some (Inr (insns[insn_idx := insn\<lparr>imm := new_val\<rparr>]))
                 else Some (Inl (- EINVAL))
               else None)
        })"

section \<open>One relocation\<close>

text \<open>
  The outcomes of the allocations of one relocation: usable bytes for a request, the vector and its
  reallocations, the bucket array and the entry of the cache.
\<close>

record core_env =
  usable :: "nat \<Rightarrow> nat"
  vec_ok :: bool
  vec_realloc_ok :: "nat \<Rightarrow> bool"
  buckets_ok :: bool
  entry_ok :: bool

text \<open>The cache maps the id of a local type to the address of its vector of candidates.\<close>

record core_state =
  cand_cache :: "(u32, nat) hashmap"
  cand_vecs :: "u32 list list"

definition bpf_core_hash_fn :: "u32 \<Rightarrow> u64" where "bpf_core_hash_fn key = ucast key"
definition bpf_core_equal_fn :: "u32 \<Rightarrow> u32 \<Rightarrow> bool" where "bpf_core_equal_fn k1 k2 \<longleftrightarrow> k1 = k2"

definition cached_cands ::
  "core_env \<Rightarrow> btf \<Rightarrow> u32 \<Rightarrow> btf \<Rightarrow> core_state \<Rightarrow> (int + nat \<times> core_state) option" where
  "cached_cands env local_btf local_id targ_btf st =
     do {
       found \<leftarrow> hashmap__find (cand_cache st) local_id;
       (case found of
          Some v \<Rightarrow> Some (Inr (v, st))
        | None \<Rightarrow>
            do {
              r \<leftarrow> bpf_core_find_cands (usable env) (vec_ok env) (vec_realloc_ok env) local_btf local_id targ_btf;
              (case r of
                 Inl e \<Rightarrow> Some (Inl e)
               | Inr cands \<Rightarrow>
                   do {
                     let v = length (cand_vecs st);
                     (err, old, cache) \<leftarrow> hashmap__set (buckets_ok env) (entry_ok env) (cand_cache st) local_id v;
                     Some (if err \<noteq> 0 then Inl err
                           else Inr (v, st\<lparr>cand_cache := cache, cand_vecs := cand_vecs st @ [cands]\<rparr>))
                   })
            })
     }"

text \<open>
  The loop over the candidates. The kept ids are written over the front of the vector, behind the
  candidate under test, so the vector is given by the kept ids once the loop is over.
\<close>

fun match_cands ::
  "bpf_core_spec \<Rightarrow> btf \<Rightarrow> u32 list \<Rightarrow> u32 list \<times> bpf_core_spec option \<Rightarrow>
   (int + u32 list \<times> bpf_core_spec option) option" where
  "match_cands local_spec targ_btf [] acc = Some (Inr acc)"
| "match_cands local_spec targ_btf (cand_id # ids) (kept, targ_spec) =
     do {
       t \<leftarrow> btf__type_by_id targ_btf cand_id;
       p \<leftarrow> t;
       cand_type \<leftarrow> deref targ_btf p;
       (err, cand_spec) \<leftarrow> bpf_core_spec_match local_spec targ_btf cand_id;
       if err < 0 then Some (Inl err)
       else if err = 0 then match_cands local_spec targ_btf ids (kept, targ_spec)
       else
         (case targ_spec of
            None \<Rightarrow> match_cands local_spec targ_btf ids
                      (kept @ [acc_type_id (hd (spec cand_spec))], Some cand_spec)
          | Some s \<Rightarrow>
              if bit_offset cand_spec \<noteq> bit_offset s then Some (Inl (- EINVAL))
              else match_cands local_spec targ_btf ids
                     (kept @ [acc_type_id (hd (spec cand_spec))], Some s))
     }"

definition bpf_core_reloc_field ::
  "core_env \<Rightarrow> bool \<Rightarrow> bpf_insn list \<Rightarrow> bpf_field_reloc \<Rightarrow> btf \<Rightarrow> btf \<Rightarrow> core_state \<Rightarrow>
   (int + bpf_insn list \<times> core_state) option" where
  "bpf_core_reloc_field env relaxed insns relo local_btf targ_btf st =
     do {
       let local_id = reloc_type_id relo;
       t \<leftarrow> btf__type_by_id local_btf local_id;
       (case t of
          None \<Rightarrow> Some (Inl (- EINVAL))
        | Some p \<Rightarrow>
            do {
              local_type \<leftarrow> deref local_btf p;
              local_name \<leftarrow> name_str local_btf (name_off local_type);
              if str_is_empty local_name then Some (Inl (- EINVAL))
              else
                do {
                  spec_str \<leftarrow> name_str local_btf (access_str_off relo);
                  if str_is_empty spec_str then Some (Inl (- EINVAL))
                  else
                    do {
                      parsed \<leftarrow> bpf_core_spec_parse local_btf local_id spec_str;
                      (case parsed of
                         Inl e \<Rightarrow> Some (Inl (- EINVAL))
                       | Inr local_spec \<Rightarrow>
                           do {
                             c \<leftarrow> cached_cands env local_btf local_id targ_btf st;
                             (case c of
                                Inl e \<Rightarrow> Some (Inl e)
                              | Inr (v, st) \<Rightarrow>
                                  do {
                                    r \<leftarrow> match_cands local_spec targ_btf (cand_vecs st ! v) ([], None);
                                    (case r of
                                       Inl e \<Rightarrow> Some (Inl e)
                                     | Inr (kept, targ_spec) \<Rightarrow>
                                         let st = (if kept \<noteq> [] then st\<lparr>cand_vecs := (cand_vecs st)[v := kept]\<rparr> else st)
                                         in if kept = [] \<and> \<not> relaxed \<and> reloc_kind relo \<noteq> BPF_FIELD_EXISTS
                                            then Some (Inl (- ESRCH))
                                            else
                                              do {
                                                r \<leftarrow> bpf_core_reloc_insn insns relo local_spec targ_spec;
                                                Some (case r of
                                                  Inl e \<Rightarrow> Inl (- EINVAL)
                                                | Inr insns \<Rightarrow> Inr (insns, st))
                                              })
                                  })
                           })
                    }
                }
            })
     }"

section \<open>All relocations\<close>

text \<open>
  The records of a section and the sections, up to the first error; the instructions that are patched
  before it stay patched.
\<close>

fun reloc_records ::
  "(nat \<Rightarrow> core_env) \<Rightarrow> bool \<Rightarrow> u8 list \<Rightarrow> btf \<Rightarrow> btf \<Rightarrow> nat \<Rightarrow> nat list \<Rightarrow> bpf_insn list \<times> core_state \<Rightarrow>
   (int \<times> bpf_insn list \<times> core_state) option" where
  "reloc_records env relaxed buf local_btf targ_btf i [] st = Some (0, st)"
| "reloc_records env relaxed buf local_btf targ_btf i (p # ps) (insns, st) =
     do {
       rec \<leftarrow> rd_field_reloc buf p;
       r \<leftarrow> bpf_core_reloc_field (env i) relaxed insns rec local_btf targ_btf st;
       (case r of
          Inl e \<Rightarrow> Some (e, insns, st)
        | Inr st \<Rightarrow> reloc_records env relaxed buf local_btf targ_btf (i + 1) ps st)
     }"

fun reloc_sections ::
  "(nat \<Rightarrow> nat \<Rightarrow> core_env) \<Rightarrow> bool \<Rightarrow> u8 list \<Rightarrow> btf_ext_info \<Rightarrow> btf \<Rightarrow> btf \<Rightarrow> nat \<Rightarrow> btf_ext_info_sec list \<Rightarrow>
   bpf_program list \<times> core_state \<Rightarrow> (int \<times> bpf_program list) option" where
  "reloc_sections env relaxed buf seg local_btf targ_btf k [] (progs, st) = Some (0, progs)"
| "reloc_sections env relaxed buf seg local_btf targ_btf k (sec # secs) (progs, st) =
     do {
       sec_name \<leftarrow> name_str local_btf (sec_name_off sec);
       if str_is_empty sec_name then Some (- EINVAL, progs)
       else
         (case bpf_object__find_program_by_title progs (the sec_name) of
            None \<Rightarrow> Some (- EINVAL, progs)
          | Some i \<Rightarrow>
              do {
                (err, ins, st) \<leftarrow> reloc_records (env k) relaxed buf local_btf targ_btf 0
                  (for_each_btf_ext_rec seg sec) (prog_insns (progs ! i), st);
                let progs = progs[i := (progs ! i)\<lparr>prog_insns := ins\<rparr>];
                if err \<noteq> 0 then Some (err, progs)
                else reloc_sections env relaxed buf seg local_btf targ_btf (k + 1) secs (progs, st)
              })
     }"

text \<open>The target types come from the file that is named, or from the kernel.\<close>

definition bpf_core_reloc_fields ::
  "(nat \<Rightarrow> nat \<Rightarrow> core_env) \<Rightarrow> bool \<Rightarrow> (int + btf) \<Rightarrow> bool \<Rightarrow> btf \<Rightarrow> btf_ext \<Rightarrow> bpf_program list \<Rightarrow>
   (int \<times> bpf_program list) option" where
  "bpf_core_reloc_fields env map_ok targ relaxed local_btf ext progs =
     (case targ of
        Inl e \<Rightarrow> Some (e, progs)
      | Inr targ_btf \<Rightarrow>
          (case hashmap__new map_ok bpf_core_hash_fn bpf_core_equal_fn of
             Inl e \<Rightarrow> Some (e, progs)
           | Inr cache \<Rightarrow>
               do {
                 let seg = field_reloc_info ext;
                 secs \<leftarrow> for_each_btf_ext_sec (ext_data ext) seg;
                 reloc_sections env relaxed (ext_data ext) seg local_btf targ_btf 0 secs
                   (progs, \<lparr>cand_cache = cache, cand_vecs = []\<rparr>)
               }))"

definition bpf_object__relocate_core ::
  "(nat \<Rightarrow> nat \<Rightarrow> core_env) \<Rightarrow> bool \<Rightarrow> (int + btf) \<Rightarrow> bool \<Rightarrow> btf \<Rightarrow> btf_ext \<Rightarrow> bpf_program list \<Rightarrow>
   (int \<times> bpf_program list) option" where
  "bpf_object__relocate_core env map_ok targ relaxed local_btf ext progs =
     (if info_len (field_reloc_info ext) \<noteq> 0
      then bpf_core_reloc_fields env map_ok targ relaxed local_btf ext progs
      else Some (0, progs))"

section \<open>Reading a relocated bit field\<close>

text \<open>
  The macros of \<open>bpf_core_read.h\<close> on the bytes of an object, with the four relocated values; \<open>None\<close> is a
  read outside the object or of an uninitialised value. The cases of the \<open>switch\<close> in
  \<open>BPF_CORE_READ_BITFIELD\<close> do not end with \<open>break\<close>, so each of the known sizes ends in the load of
  8 bytes.
\<close>

definition le_bytes :: "u8 list \<Rightarrow> u64" where
  "le_bytes bs = foldr (\<lambda>c v. or (ucast c) (push_bit 8 v)) bs 0"

definition shift_out :: "u32 \<Rightarrow> u32 \<Rightarrow> bool \<Rightarrow> u64 \<Rightarrow> u64" where
  "shift_out lshift rshift sgn_ext val =
     (let val = push_bit (unat lshift) val in
      if sgn_ext then signed_drop_bit (unat rshift) val else drop_bit (unat rshift) val)"

definition BPF_CORE_READ_BITFIELD_PROBED ::
  "u8 list \<Rightarrow> u32 \<Rightarrow> u32 \<Rightarrow> u32 \<Rightarrow> u32 \<Rightarrow> bool \<Rightarrow> u64 option" where
  "BPF_CORE_READ_BITFIELD_PROBED obj byte_off byte_sz lshift rshift sgn_ext =
     (if unat byte_off + unat byte_sz \<le> length obj \<and> byte_sz \<le> 8
      then Some (shift_out lshift rshift sgn_ext (le_bytes (take (unat byte_sz) (drop (unat byte_off) obj))))
      else None)"

definition BPF_CORE_READ_BITFIELD ::
  "u8 list \<Rightarrow> u32 \<Rightarrow> u32 \<Rightarrow> u32 \<Rightarrow> u32 \<Rightarrow> bool \<Rightarrow> u64 option" where
  "BPF_CORE_READ_BITFIELD obj byte_off byte_sz lshift rshift sgn_ext =
     (if byte_sz \<in> {1, 2, 4, 8} \<and> unat byte_off + 8 \<le> length obj
      then Some (shift_out lshift rshift sgn_ext (le_bytes (take 8 (drop (unat byte_off) obj))))
      else None)"

text \<open>The bits of an object, and the value of the bit field of \<open>bits\<close> bits from bit \<open>start\<close>.\<close>

definition obj_bit :: "u8 list \<Rightarrow> nat \<Rightarrow> bool" where
  "obj_bit obj n \<longleftrightarrow> n div 8 < length obj \<and> bit (obj ! (n div 8)) (n mod 8)"

definition field_bit :: "u8 list \<Rightarrow> nat \<Rightarrow> nat \<Rightarrow> bool \<Rightarrow> nat \<Rightarrow> bool" where
  "field_bit obj start bits sgn_ext n \<longleftrightarrow>
     (if n < bits then obj_bit obj (start + n) else sgn_ext \<and> obj_bit obj (start + bits - 1))"

lemma bit_le_bytes: "bit (le_bytes bs) n \<longleftrightarrow> n < 64 \<and> obj_bit bs n"
proof (induction bs arbitrary: n)
  case Nil
  then show ?case by (simp add: le_bytes_def obj_bit_def)
next
  case (Cons c bs)
  have "bit (le_bytes (c # bs)) n \<longleftrightarrow> n < 64 \<and> (bit c n \<or> 8 \<le> n \<and> bit (le_bytes bs) (n - 8))"
    by (auto simp: le_bytes_def bit_simps dest: bit_imp_le_length)
  also have "\<dots> \<longleftrightarrow> n < 64 \<and> obj_bit (c # bs) n"
  proof (cases "8 \<le> n")
    case True
    then have "n div 8 = Suc ((n - 8) div 8)" "(n - 8) mod 8 = n mod 8" "\<not> bit c n"
      by (simp_all add: le_div_geq le_mod_geq bit_word.rep_eq)
    then show ?thesis using True Cons.IH [of "n - 8"] by (auto simp: obj_bit_def)
  next
    case False
    then show ?thesis by (auto simp: obj_bit_def)
  qed
  finally show ?case .
qed

lemma obj_bit_window:
  assumes "n < 8 * k" "off + k \<le> length obj"
  shows "obj_bit (take k (drop off obj)) n \<longleftrightarrow> obj_bit obj (8 * off + n)"
proof -
  have "n div 8 < k" using assms(1) by (simp add: less_mult_imp_div_less mult.commute)
  then show ?thesis using assms(2) by (simp add: obj_bit_def)
qed

text \<open>Shifting the loaded value out leaves the field, whatever was loaded behind it.\<close>

lemma shift_out_field:
  fixes off sz bit_off bits :: nat
  assumes sz: "off + sz \<le> length obj" "sz \<le> 8" and field: "8 * off \<le> bit_off" "bit_off + bits \<le> 8 * off + 8 * sz"
    and bits: "0 < bits" and l: "unat lshift = 64 - (bit_off + bits - 8 * off)" and r: "unat rshift = 64 - bits"
    and n: "n < 64"
  shows "bit (shift_out lshift rshift sgn_ext (le_bytes (take sz (drop off obj)))) n \<longleftrightarrow>
    field_bit obj bit_off bits sgn_ext n"
proof -
  let ?v = "le_bytes (take sz (drop off obj))"
  let ?x = "push_bit (unat lshift) ?v"
  have le: "bit_off + bits - 8 * off \<le> 64" "bits \<le> 64" using sz(2) field by simp_all
  have shifted: "bit ?x (64 - bits + k) \<longleftrightarrow> obj_bit obj (bit_off + k)" if "k < bits" for k
  proof -
    have idx: "64 - bits + k - unat lshift = bit_off + k - 8 * off" using that l le field by simp
    have in_range: "unat lshift \<le> 64 - bits + k" "64 - bits + k < 64"
      using that l le field by simp_all
    have "bit ?x (64 - bits + k) \<longleftrightarrow> bit ?v (bit_off + k - 8 * off)"
      using in_range idx by (simp add: bit_push_bit_iff)
    also have "\<dots> \<longleftrightarrow> obj_bit (take sz (drop off obj)) (bit_off + k - 8 * off)"
    proof -
      have "bit_off + k - 8 * off < 64" using that le field(1) by linarith
      then show ?thesis by (simp add: bit_le_bytes)
    qed
    also have "\<dots> \<longleftrightarrow> obj_bit obj (8 * off + (bit_off + k - 8 * off))"
      using that field sz by (intro obj_bit_window) simp_all
    finally show ?thesis using field by simp
  qed
  show ?thesis
  proof (cases "n < bits")
    case True
    have "bit (shift_out lshift rshift sgn_ext ?v) n \<longleftrightarrow> bit ?x (64 - bits + n)"
      using True le r by (auto simp: shift_out_def bit_simps Let_def add.commute)
    then show ?thesis using shifted [OF True] True by (simp add: field_bit_def)
  next
    case False
    have "bit (shift_out lshift rshift sgn_ext ?v) n \<longleftrightarrow> sgn_ext \<and> bit ?x 63"
      using False n le r bits by (auto simp: shift_out_def bit_simps Let_def dest: bit_imp_le_length)
    moreover have "64 - bits + (bits - 1) = 63" using bits le by simp
    ultimately show ?thesis using shifted [of "bits - 1"] bits False by (simp add: field_bit_def)
  qed
qed

lemma bitfield_load_fits:
  assumes "bitfield_load bit_off bits n = Some (Inr (bsz, off))" "unat bit_off + unat bits < 2 ^ 32" "bsz \<le> 8"
  shows "unat (off * 8) = 8 * unat off \<and> 8 * unat off \<le> unat bit_off \<and>
    unat bit_off + unat bits \<le> 8 * unat off + 8 * unat bsz"
  using assms
proof (induction bit_off bits n rule: bitfield_load.induct)
  case (1 bit_off bits n)
  let ?off = "bit_off div 8 div n * n"
  note load = bitfield_load.simps [of bit_off bits n]
  have n: "n \<noteq> 0" using "1.prems"(1) by (auto simp: load)
  show ?case
  proof (cases "bit_off + bits - ?off * 8 > n * 8")
    case True
    then have "\<not> n \<ge> 8" "bitfield_load bit_off bits (n * 2) = Some (Inr (bsz, off))"
      using "1.prems"(1) n by (auto simp: load Let_def split: if_splits)
    then show ?thesis using "1.IH" [OF n refl True] "1.prems" by simp
  next
    case False
    then have eq: "bsz = n" "off = ?off" using "1.prems"(1) n by (auto simp: load Let_def)
    have "unat bit_off div 8 div unat n * unat n \<le> unat bit_off div 8" by (rule div_times_less_eq_dividend)
    then have le: "8 * (unat bit_off div 8 div unat n * unat n) \<le> unat bit_off" by linarith
    have bo: "unat bit_off < 2 ^ 32" using unsigned_less [of bit_off, where ?'a = nat] by simp
    have off: "unat ?off = unat bit_off div 8 div unat n * unat n"
      using le bo by (simp add: unat_mult_small unat_div)
    have "unat ?off * unat (8 :: u32) < 2 ^ 32" unfolding off
      using le_less_trans [OF le bo] by (simp add: mult.commute)
    from unat_mult_small [OF this] have off8: "unat (?off * 8) = 8 * unat ?off" by simp
    have "unat (bit_off + bits) = unat bit_off + unat bits"
      using "1.prems"(2) by (simp add: unat_word_ariths)
    then have "unat (bit_off + bits - ?off * 8) = unat bit_off + unat bits - 8 * unat ?off"
      using off8 le off by (subst unat_sub) (simp_all add: word_le_nat_alt)
    moreover have "unat (n * 8) = 8 * unat n"
      using "1.prems"(3) eq by (simp add: unat_mult_small word_le_nat_alt)
    ultimately have "unat bit_off + unat bits - 8 * unat ?off \<le> 8 * unat n"
      using False by (simp add: word_less_nat_alt not_less)
    moreover have "8 * unat ?off \<le> unat bit_off" unfolding off by (rule le)
    ultimately show ?thesis using off8 unfolding eq by linarith
  qed
qed

text \<open>What the four relocations of one bit field compute.\<close>

lemma calc_bitfield:
  assumes "acc_name (last (spec s)) \<noteq> None"
    "btf__type_by_id (spec_btf s) (acc_type_id (last (spec s))) = Some (Some t)"
    "btf_member_bitfield_size (spec_btf s) t (acc_idx (last (spec s))) = Some bits" "bits \<noteq> 0"
    "bpf_core_calc_field_relo BPF_FIELD_BYTE_OFFSET s = Some (Inr (off, v1))"
    "bpf_core_calc_field_relo BPF_FIELD_BYTE_SIZE s = Some (Inr (bsz, v2))"
    "bpf_core_calc_field_relo BPF_FIELD_LSHIFT_U64 s = Some (Inr (l, v3))"
    "bpf_core_calc_field_relo BPF_FIELD_RSHIFT_U64 s = Some (Inr (r, v4))"
  obtains n where "bitfield_load (bit_offset s) bits n = Some (Inr (bsz, off))"
    "l = 64 - (bit_offset s + bits - off * 8)" "r = 64 - bits"
proof -
  obtain m mt tid mty where m: "btf_members (spec_btf s) t (unat (acc_idx (last (spec s)))) = Some m"
    "skip_mods_and_typedefs (spec_btf s) (m_type m) = Some (mt, tid)" "deref (spec_btf s) mt = Some mty"
    using assms(1,2,5) by (auto simp: bpf_core_calc_field_relo_def Let_def bind_eq_Some_conv)
  obtain load where load: "bitfield_load (bit_offset s) bits (size_type mty) = Some load"
    using assms(1-5) m
    by (cases "bitfield_load (bit_offset s) bits (size_type mty)")
       (auto simp: bpf_core_calc_field_relo_def Let_def word_gt_0)
  have "load = Inr (bsz, off)"
    using assms(1-6) m load
    by (cases load) (auto simp: bpf_core_calc_field_relo_def Let_def field_kinds word_gt_0)
  with load have "bitfield_load (bit_offset s) bits (size_type mty) = Some (Inr (bsz, off))" by simp
  moreover from this have "l = 64 - (bit_offset s + bits - off * 8)" "r = 64 - bits"
    using assms(1-4,7,8) m by (auto simp: bpf_core_calc_field_relo_def Let_def field_kinds word_gt_0)
  ultimately show thesis by (rule that)
qed

text \<open>C9: a relocated bit field is read correctly. Let the specification end at a named member of non-zero bit
  size whose last bit is below bit 2 to the 32, and let libbpf compute offset, size and the two shifts for
  it, the size being at most 8 bytes and the bytes inside the object. Then these four values, used by the
  macros of the BPF program, give exactly the bits of the field, for every content of the object, extended
  by zeros or by its sign as the program's fifth value says, whichever that is; the direct macro, which
  always loads 8 bytes, gives the same value when the object has them.\<close>

theorem core_bitfield_read:
  assumes "acc_name (last (spec s)) \<noteq> None"
    "btf__type_by_id (spec_btf s) (acc_type_id (last (spec s))) = Some (Some t)"
    "btf_member_bitfield_size (spec_btf s) t (acc_idx (last (spec s))) = Some bits" "bits \<noteq> 0"
    "bpf_core_calc_field_relo BPF_FIELD_BYTE_OFFSET s = Some (Inr (off, v1))"
    "bpf_core_calc_field_relo BPF_FIELD_BYTE_SIZE s = Some (Inr (bsz, v2))"
    "bpf_core_calc_field_relo BPF_FIELD_LSHIFT_U64 s = Some (Inr (l, v3))"
    "bpf_core_calc_field_relo BPF_FIELD_RSHIFT_U64 s = Some (Inr (r, v4))"
    "unat (bit_offset s) + unat bits < 2 ^ 32" "bsz \<le> 8" "unat off + unat bsz \<le> length obj"
  shows "\<exists>val. BPF_CORE_READ_BITFIELD_PROBED obj off bsz l r sgn_ext = Some val \<and>
    (\<forall>n < 64. bit val n \<longleftrightarrow> field_bit obj (unat (bit_offset s)) (unat bits) sgn_ext n) \<and>
    (bsz \<in> {1, 2, 4, 8} \<and> unat off + 8 \<le> length obj \<longrightarrow> BPF_CORE_READ_BITFIELD obj off bsz l r sgn_ext = Some val)"
proof -
  obtain n where load: "bitfield_load (bit_offset s) bits n = Some (Inr (bsz, off))"
    and l: "l = 64 - (bit_offset s + bits - off * 8)" and r: "r = 64 - bits"
    using calc_bitfield [OF assms(1-8)] by blast
  note fits = bitfield_load_fits [OF load assms(9,10)]
  have bsz: "unat bsz \<le> 8" using assms(10) by (simp add: word_le_nat_alt)
  have bits: "0 < unat bits" "unat bits \<le> 64" using assms(4) fits bsz by (simp_all add: unat_gt_0)
  have sum: "unat (bit_offset s + bits) = unat (bit_offset s) + unat bits"
    using assms(9) by (simp add: unat_word_ariths)
  have ul: "unat (bit_offset s + bits - off * 8) = unat (bit_offset s) + unat bits - 8 * unat off"
    using fits sum by (subst unat_sub) (simp_all add: word_le_nat_alt)
  have le64: "unat (bit_offset s) + unat bits - 8 * unat off \<le> 64" using fits bsz by linarith
  have l': "unat l = 64 - (unat (bit_offset s) + unat bits - 8 * unat off)"
    unfolding l using ul le64 by (subst unat_sub) (simp_all add: word_le_nat_alt)
  have r': "unat r = 64 - unat bits" unfolding r using bits by (subst unat_sub) (simp_all add: word_le_nat_alt)
  let ?val = "shift_out l r sgn_ext (le_bytes (take (unat bsz) (drop (unat off) obj)))"
  have val: "bit ?val n \<longleftrightarrow> field_bit obj (unat (bit_offset s)) (unat bits) sgn_ext n" if "n < 64" for n
    using fits bits(1) l' r' bsz assms(11) that by (intro shift_out_field) simp_all
  have "shift_out l r sgn_ext (le_bytes (take 8 (drop (unat off) obj))) = ?val" if "unat off + 8 \<le> length obj"
  proof (rule bit_word_eqI)
    fix n assume "n < LENGTH(64)"
    then show "bit (shift_out l r sgn_ext (le_bytes (take 8 (drop (unat off) obj)))) n \<longleftrightarrow> bit ?val n"
      using val [of n] fits bits(1) l' r' bsz that
      by (subst shift_out_field [where bit_off = "unat (bit_offset s)" and bits = "unat bits"]) simp_all
  qed
  then show ?thesis using val assms(10,11)
    by (auto simp: BPF_CORE_READ_BITFIELD_PROBED_def BPF_CORE_READ_BITFIELD_def)
qed

definition core_spec :: bpf_core_spec where
  "core_spec =
     \<lparr>spec_btf = core_btf,
      spec = [\<lparr>acc_type_id = 2, acc_idx = 0, acc_name = None\<rparr>,
              \<lparr>acc_type_id = 2, acc_idx = 0, acc_name = Some [105]\<rparr>],
      raw_spec = [0, 0], bit_offset = 3\<rparr>"

lemma core_bits: "btf_member_bitfield_size core_btf (BtfAt 40) 0 = Some 5"
  by (simp add: btf_member_bitfield_size_def core_reads btf_kflag_def BTF_INFO_KFLAG_def
      BTF_MEMBER_BITFIELD_SIZE_def)

lemma core_load: "bitfield_load 3 5 4 = Some (Inr (4, 0))"
  by (simp add: bitfield_load.simps)

lemma core_values:
  "bpf_core_calc_field_relo BPF_FIELD_BYTE_OFFSET core_spec = Some (Inr (0, False))"
  "bpf_core_calc_field_relo BPF_FIELD_BYTE_SIZE core_spec = Some (Inr (4, False))"
  "bpf_core_calc_field_relo BPF_FIELD_LSHIFT_U64 core_spec = Some (Inr (56, False))"
  "bpf_core_calc_field_relo BPF_FIELD_RSHIFT_U64 core_spec = Some (Inr (59, True))"
  by (simp_all add: bpf_core_calc_field_relo_def core_spec_def core_reads core_skip core_bits core_load
      field_kinds Let_def)

theorem core_bitfield_read_witness:
  "\<exists>val. BPF_CORE_READ_BITFIELD_PROBED [0xa9, 1, 2, 3, 4, 5, 6, 7] 0 4 56 59 False = Some val \<and>
    (\<forall>n < 64. bit val n \<longleftrightarrow> field_bit [0xa9, 1, 2, 3, 4, 5, 6, 7] (unat (bit_offset core_spec)) (unat (5 :: u32)) False n) \<and>
    ((4 :: u32) \<in> {1, 2, 4, 8} \<and> unat (0 :: u32) + 8 \<le> length [0xa9, 1, 2, 3, 4, 5, 6, 7 :: u8] \<longrightarrow>
      BPF_CORE_READ_BITFIELD [0xa9, 1, 2, 3, 4, 5, 6, 7] 0 4 56 59 False = Some val)"
proof (rule core_bitfield_read [OF _ _ _ _ core_values])
  show "btf__type_by_id (spec_btf core_spec) (acc_type_id (last (spec core_spec))) = Some (Some (BtfAt 40))"
    "btf_member_bitfield_size (spec_btf core_spec) (BtfAt 40) (acc_idx (last (spec core_spec))) = Some 5"
    by (simp_all add: core_spec_def core_reads core_bits)
qed (simp_all add: core_spec_def)

lemma core_spec_match: "bpf_core_spec_match core_found core_btf 2 = Some (1, core_found)"
proof -
  have "spec_match_step core_btf core_btf True \<lparr>acc_type_id = 2, acc_idx = 0, acc_name = None\<rparr> 2
      \<lparr>spec_btf = core_btf, spec = [], raw_spec = [], bit_offset = 0\<rparr> = Some (Inr (2, core_start))"
    by (simp add: spec_match_step_def core_skip2 core_reads core_size core_start_def BPF_CORE_SPEC_MAX_LEN_def Let_def)
  moreover have "spec_match_step core_btf core_btf False core_acc 2 core_start = Some (Inr (1, core_found))"
    by (simp add: spec_match_step_def core_skip2 core_reads core_match core_acc_def [THEN arg_cong [where f = acc_name]])
  moreover have "spec core_found = [\<lparr>acc_type_id = 2, acc_idx = 0, acc_name = None\<rparr>, core_acc]"
    "spec_btf core_found = core_btf"
    by (simp_all add: core_found_def)
  ultimately show ?thesis by (simp add: bpf_core_spec_match_def)
qed

definition core_insn :: bpf_insn where
  "core_insn = \<lparr>insn_code = 0xb7, dst_reg = 1, src_reg = 0, insn_off = 0, imm = 4\<rparr>"
definition core_relo :: bpf_field_reloc where
  "core_relo = \<lparr>reloc_insn_off = 0, reloc_type_id = 2, access_str_off = 0, reloc_kind = BPF_FIELD_BYTE_SIZE\<rparr>"

lemma core_patch:
  "bpf_core_reloc_insn [core_insn] core_relo core_spec (Some core_spec) = Some (Inr [core_insn])"
  by (simp add: bpf_core_reloc_insn_def core_relo_def reloc_values_def core_values BPF_FIELD_EXISTS_def core_insn_def
      BPF_CLASS_def BPF_SRC_def BPF_ALU_def BPF_ALU64_def BPF_K_def BPF_FIELD_BYTE_SIZE_def
      core_values(2) [unfolded BPF_FIELD_BYTE_SIZE_def] Let_def)
section \<open>What is patched\<close>

lemma reloc_values_field:
  assumes "reloc_values relo ls (Some t) = Some (Inr (w, v, validate, failed))"
    "reloc_kind relo \<noteq> BPF_FIELD_EXISTS"
  shows "\<exists>b. bpf_core_calc_field_relo (reloc_kind relo) ls = Some (Inr (w, validate)) \<and>
    bpf_core_calc_field_relo (reloc_kind relo) t = Some (Inr (v, b)) \<and> \<not> failed"
proof -
  obtain c where c: "bpf_core_calc_field_relo (reloc_kind relo) ls = Some c"
    using assms by (cases "bpf_core_calc_field_relo (reloc_kind relo) ls") (simp_all add: reloc_values_def)
  obtain x where x: "c = Inr x" using assms c by (cases c) (simp_all add: reloc_values_def)
  obtain d where d: "bpf_core_calc_field_relo (reloc_kind relo) t = Some d"
    using assms c x
    by (cases "bpf_core_calc_field_relo (reloc_kind relo) t"; cases x) (simp_all add: reloc_values_def)
  obtain y where "d = Inr y" using assms c x d by (cases d; cases x) (simp_all add: reloc_values_def)
  then show ?thesis using assms c x d by (cases x; cases y) (simp add: reloc_values_def)
qed

text \<open>C10: the patch of an instruction. When it succeeds, exactly one instruction changes, an arithmetic
  instruction with an immediate operand at the offset of the record, and in it only the operand: to the
  value that the target type gives, after the old value was found to be the one of the local type wherever
  that is unambiguous; to 1 or 0 for a question of existence; and to a value that no field has when the
  relocation was allowed to fail.\<close>

theorem core_reloc_insn_patches:
  assumes "bpf_core_reloc_insn ins relo ls ts = Some (Inr ins')"
  shows "\<exists>i v. unat (reloc_insn_off relo) = 8 * i \<and> i < length ins \<and>
    ins' = ins[i := (ins ! i)\<lparr>imm := v\<rparr>] \<and>
    BPF_CLASS (insn_code (ins ! i)) \<in> {BPF_ALU, BPF_ALU64} \<and> BPF_SRC (insn_code (ins ! i)) = BPF_K \<and>
    (if reloc_kind relo = BPF_FIELD_EXISTS
     then imm (ins ! i) = 1 \<and> v = (if ts \<noteq> None then 1 else 0)
     else (case ts of
         None \<Rightarrow> v = - 1
       | Some t \<Rightarrow> \<exists>w validate b. bpf_core_calc_field_relo (reloc_kind relo) ls = Some (Inr (w, validate)) \<and>
           bpf_core_calc_field_relo (reloc_kind relo) t = Some (Inr (v, b)) \<and>
           (validate \<longrightarrow> imm (ins ! i) = w)))"
proof -
  let ?i = "unat (reloc_insn_off relo div 8)"
  have aligned: "reloc_insn_off relo mod 8 = 0"
    using assms by (auto simp: bpf_core_reloc_insn_def split: if_splits)
  have "unat (reloc_insn_off relo) = 8 * ?i + unat (reloc_insn_off relo mod 8)"
    by (simp add: unat_div unat_mod)
  then have i: "unat (reloc_insn_off relo) = 8 * ?i" using aligned by simp
  have "\<exists>x. reloc_values relo ls ts = Some (Inr x)"
    using assms aligned
    by (cases "reloc_values relo ls ts") (auto simp: bpf_core_reloc_insn_def Let_def split: sum.splits)
  then obtain w v validate failed where v: "reloc_values relo ls ts = Some (Inr (w, v, validate, failed))"
    by fastforce
  have len: "?i < length ins"
    using assms aligned v by (auto simp: bpf_core_reloc_insn_def Let_def split: if_splits)
  have patch: "ins' = ins[?i := (ins ! ?i)\<lparr>imm := v\<rparr>]"
    "BPF_CLASS (insn_code (ins ! ?i)) \<in> {BPF_ALU, BPF_ALU64}" "BPF_SRC (insn_code (ins ! ?i)) = BPF_K"
    "\<not> failed \<and> validate \<longrightarrow> imm (ins ! ?i) = w"
    using assms aligned v len by (auto simp: bpf_core_reloc_insn_def Let_def split: if_splits)
  have "if reloc_kind relo = BPF_FIELD_EXISTS
     then imm (ins ! ?i) = 1 \<and> v = (if ts \<noteq> None then 1 else 0)
     else (case ts of
         None \<Rightarrow> v = - 1
       | Some t \<Rightarrow> \<exists>w validate b. bpf_core_calc_field_relo (reloc_kind relo) ls = Some (Inr (w, validate)) \<and>
           bpf_core_calc_field_relo (reloc_kind relo) t = Some (Inr (v, b)) \<and>
           (validate \<longrightarrow> imm (ins ! ?i) = w))"
  proof (cases "reloc_kind relo = BPF_FIELD_EXISTS")
    case True
    then show ?thesis using v patch(4) by (auto simp: reloc_values_def)
  next
    case False
    show ?thesis
    proof (cases ts)
      case None
      then show ?thesis using False v by (auto simp: reloc_values_def)
    next
      case (Some t)
      then show ?thesis using False patch(4) reloc_values_field [OF v [unfolded Some] False] by auto
    qed
  qed
  then show ?thesis using i len patch(1-3) by blast
qed

theorem core_reloc_insn_patches_witness:
  "\<exists>i v. unat (reloc_insn_off core_relo) = 8 * i \<and> i < length [core_insn] \<and>
    [core_insn] = [core_insn][i := ([core_insn] ! i)\<lparr>imm := v\<rparr>] \<and>
    BPF_CLASS (insn_code ([core_insn] ! i)) \<in> {BPF_ALU, BPF_ALU64} \<and>
    BPF_SRC (insn_code ([core_insn] ! i)) = BPF_K \<and>
    (if reloc_kind core_relo = BPF_FIELD_EXISTS
     then imm ([core_insn] ! i) = 1 \<and> v = (if Some core_spec \<noteq> None then 1 else 0)
     else (case Some core_spec of
         None \<Rightarrow> v = - 1
       | Some t \<Rightarrow> \<exists>w validate b.
           bpf_core_calc_field_relo (reloc_kind core_relo) core_spec = Some (Inr (w, validate)) \<and>
           bpf_core_calc_field_relo (reloc_kind core_relo) t = Some (Inr (v, b)) \<and>
           (validate \<longrightarrow> imm ([core_insn] ! i) = w)))"
  by (rule core_reloc_insn_patches [OF core_patch])

text \<open>C17: an instruction offset past the program is not refused: with values that can be computed, the
  patch goes on to read and write outside the array of instructions.\<close>

theorem core_reloc_insn_unchecked:
  assumes "reloc_insn_off relo mod 8 = 0" "unat (reloc_insn_off relo div 8) \<ge> length ins"
    "reloc_values relo ls ts = Some (Inr v)"
  shows "bpf_core_reloc_insn ins relo ls ts = None"
  using assms by (cases v) (simp add: bpf_core_reloc_insn_def Let_def)

theorem core_reloc_insn_unchecked_witness: "bpf_core_reloc_insn [] core_relo core_spec None = None"
  by (rule core_reloc_insn_unchecked [where v = "(0, - 1, True, True)"])
    (simp_all add: core_relo_def reloc_values_def field_kinds)

section \<open>Agreement of the candidates\<close>

lemma match_cands_agree:
  assumes "match_cands ls tb ids (kept0, ts0) = Some (Inr (kept, ts))"
  defines "matches \<equiv> filter (\<lambda>i. fst (the (bpf_core_spec_match ls tb i)) > 0) ids"
  shows "(\<forall>i \<in> set ids. \<exists>r s. bpf_core_spec_match ls tb i = Some (r, s) \<and> 0 \<le> r) \<and>
    kept = kept0 @ map (\<lambda>i. acc_type_id (hd (spec (snd (the (bpf_core_spec_match ls tb i)))))) matches \<and>
    ts = (if ts0 = None then map_option (\<lambda>i. snd (the (bpf_core_spec_match ls tb i)))
                               (if matches = [] then None else Some (hd matches)) else ts0) \<and>
    (\<forall>i \<in> set matches. ts \<noteq> None \<and> bit_offset (snd (the (bpf_core_spec_match ls tb i))) = bit_offset (the ts))"
  using assms(1) unfolding matches_def
proof (induction ls tb ids "(kept0, ts0)" arbitrary: kept0 ts0 rule: match_cands.induct)
  case (2 ls tb i ids kept0 ts0)
  obtain t p ty r s where m: "btf__type_by_id tb i = Some t" "t = Some p" "deref tb p = Some ty"
    "bpf_core_spec_match ls tb i = Some (r, s)" "0 \<le> r"
    using "2.prems" by (auto simp: bind_eq_Some_conv not_less split: if_splits)
  have nn: "\<not> r < 0" using m(5) by simp
  show ?case
  proof (cases "r = 0")
    case True
    then have "match_cands ls tb ids (kept0, ts0) = Some (Inr (kept, ts))" using "2.prems" m by simp
    from "2.hyps"(1) [OF m(1,2,3,4) refl nn True this] show ?thesis using True m(4) by (auto split: if_splits)
  next
    case pos: False
    show ?thesis
    proof (cases ts0)
      case None
      then have run: "match_cands ls tb ids (kept0 @ [acc_type_id (hd (spec s))], Some s) = Some (Inr (kept, ts))"
        using "2.prems" m pos by simp
      from "2.hyps"(2) [OF m(1,2,3,4) refl nn pos None run] show ?thesis using pos m(4,5) None by auto
    next
      case (Some s0)
      then have off: "\<not> bit_offset s \<noteq> bit_offset s0" using "2.prems" m pos by (auto split: if_splits)
      then have run: "match_cands ls tb ids (kept0 @ [acc_type_id (hd (spec s))], Some s0) = Some (Inr (kept, ts))"
        using "2.prems" m pos Some by simp
      from "2.hyps"(3) [OF m(1,2,3,4) refl nn pos Some off run] show ?thesis using pos m(4,5) Some off by auto
    qed
  qed
qed simp

text \<open>C11: the candidates that count. When the choice among the candidates of a type succeeds, every candidate
  was matched without error, those that match are kept under their resolved ids in their order, the
  specification that is applied is the one of the first match, and all matches agree on the offset of the
  field.\<close>

theorem core_cands_agree:
  assumes "match_cands ls tb ids ([], None) = Some (Inr (kept, ts))"
  shows "(\<forall>i \<in> set ids. \<exists>r s. bpf_core_spec_match ls tb i = Some (r, s) \<and> 0 \<le> r) \<and>
    (let matches = filter (\<lambda>i. fst (the (bpf_core_spec_match ls tb i)) > 0) ids;
         found = (\<lambda>i. snd (the (bpf_core_spec_match ls tb i)))
     in kept = map (\<lambda>i. acc_type_id (hd (spec (found i)))) matches \<and>
        ts = (if matches = [] then None else Some (found (hd matches))) \<and>
        (\<forall>i \<in> set matches. bit_offset (found i) = bit_offset (found (hd matches))))"
  using match_cands_agree [OF assms] by (auto simp: Let_def split: if_splits)

theorem core_cands_agree_witness:
  "(\<exists>r s. bpf_core_spec_match core_found core_btf 2 = Some (r, s) \<and> 0 \<le> r) \<and>
    (let matches = filter (\<lambda>i. fst (the (bpf_core_spec_match core_found core_btf i)) > 0) [2];
         found = (\<lambda>i. snd (the (bpf_core_spec_match core_found core_btf i)))
     in [2] = map (\<lambda>i. acc_type_id (hd (spec (found i)))) matches \<and>
        Some core_found = (if matches = [] then None else Some (found (hd matches))) \<and>
        (\<forall>i \<in> set matches. bit_offset (found i) = bit_offset (found (hd matches))))"
proof -
  have "acc_type_id (hd (spec core_found)) = 2" by (simp add: core_found_def)
  then have "match_cands core_found core_btf [2] ([], None) = Some (Inr ([2], Some core_found))"
    by (simp add: core_reads core_spec_match)
  from core_cands_agree [OF this] show ?thesis unfolding list.set ball_simps by blast
qed

end
