(* ===== verification/Perf_Buffer.thy ===== *)
theory Perf_Buffer
  imports Byte_Buffer
begin

text \<open>
  Perf buffers, \<open>libbpf/src/libbpf.c\<close> lines 5866 to 6282: the ring of variable-sized records that the kernel
  fills for every CPU, the reader that reassembles records which wrap around, the dispatch to the
  callbacks of the application, polling, and opening and freeing of the buffers with their resources.
  Log output is left out.
\<close>

section \<open>Reading one ring\<close>

datatype bpf_perf_event_ret = LIBBPF_PERF_EVENT_DONE | LIBBPF_PERF_EVENT_ERROR | LIBBPF_PERF_EVENT_CONT

fun perf_ret_code :: "bpf_perf_event_ret \<Rightarrow> int" where
  "perf_ret_code LIBBPF_PERF_EVENT_DONE = 0"
| "perf_ret_code LIBBPF_PERF_EVENT_ERROR = - 1"
| "perf_ret_code LIBBPF_PERF_EVENT_CONT = - 2"

text \<open>
  What the code takes from \<open>linux/perf_event.h\<close>: where a record header has its type and its size, how long
  it is, and the two types of records that are handled.
\<close>

record perf_abi =
  type_at :: nat
  size_at :: nat
  perf_hdr :: nat
  PERF_RECORD_SAMPLE :: u32
  PERF_RECORD_LOST :: u32

text \<open>The shared memory: the two indices of the header page, and the data area behind it.\<close>

record perf_mmap =
  data_head :: u64
  data_tail :: u64
  area :: "u8 list"

text \<open>
  A record as the callback gets it: in place, or put together in the copy buffer when it wraps around.
  The inner \<open>None\<close> is a failed allocation, the outer one an access outside the area.
\<close>

definition perf_record_at ::
  "bool \<Rightarrow> u8 list \<Rightarrow> nat \<Rightarrow> nat \<Rightarrow> nat \<Rightarrow> u64 \<Rightarrow> (u8 list option \<times> u64) option" where
  "perf_record_at malloc_ok base mmap_size off n copy_size =
     (if off + n > mmap_size then
        let len_first = mmap_size - off; len_secnd = n - len_first in
        if copy_size < of_nat n \<and> \<not> malloc_ok then Some (None, 0)
        else if mmap_size > length base \<or> len_secnd > length base then None
        else Some (Some (take len_first (drop off base) @ take len_secnd base),
                   if copy_size < of_nat n then of_nat n else copy_size)
      else if off + n \<le> length base then Some (Some (take n (drop off base)), copy_size)
      else None)"

text \<open>
  The loop; the outcome of an allocation may depend on the position. \<open>None\<close> is an access outside, or a
  loop that does not end, as a record of size 0 causes.
\<close>

partial_function (option) perf_read_loop ::
  "perf_abi \<Rightarrow> (u64 \<Rightarrow> bool) \<Rightarrow> u8 list \<Rightarrow> u64 \<Rightarrow> (u8 list \<Rightarrow> 's \<Rightarrow> (bpf_perf_event_ret \<times> 's) option) \<Rightarrow> u64 \<Rightarrow>
   bpf_perf_event_ret \<Rightarrow> u64 \<Rightarrow> u64 \<Rightarrow> 's \<Rightarrow> (bpf_perf_event_ret \<times> u64 \<times> u64 \<times> 's) option" where
  "perf_read_loop abi malloc_ok base mmap_size fn head ret tail copy_size s =
     (if head = tail then Some (ret, tail, copy_size, s)
      else
        do {
          let off = unat (and tail (mmap_size - 1));
          ehdr_size \<leftarrow> rd16 base (off + size_at abi);
          (rec, copy_size) \<leftarrow> perf_record_at (malloc_ok tail) base (unat mmap_size) off (unat ehdr_size) copy_size;
          (case rec of
             None \<Rightarrow> Some (LIBBPF_PERF_EVENT_ERROR, tail, copy_size, s)
           | Some ehdr \<Rightarrow>
               do {
                 (ret, s) \<leftarrow> fn ehdr s;
                 let tail = tail + ucast ehdr_size;
                 if ret \<noteq> LIBBPF_PERF_EVENT_CONT then Some (ret, tail, copy_size, s)
                 else perf_read_loop abi malloc_ok base mmap_size fn head ret tail copy_size s
               })
        })"

declare perf_read_loop.simps [code, simp del]

definition bpf_perf_event_read_simple ::
  "perf_abi \<Rightarrow> (u64 \<Rightarrow> bool) \<Rightarrow> perf_mmap \<Rightarrow> u64 \<Rightarrow> u64 \<Rightarrow> (u8 list \<Rightarrow> 's \<Rightarrow> (bpf_perf_event_ret \<times> 's) option) \<Rightarrow> 's \<Rightarrow>
   (bpf_perf_event_ret \<times> perf_mmap \<times> u64 \<times> 's) option" where
  "bpf_perf_event_read_simple abi malloc_ok m mmap_size copy_size fn s =
     do {
       (ret, tail, copy_size, s) \<leftarrow>
         perf_read_loop abi malloc_ok (area m) mmap_size fn (data_head m) LIBBPF_PERF_EVENT_CONT (data_tail m)
           copy_size s;
       Some (ret, m\<lparr>data_tail := tail\<rparr>, copy_size, s)
     }"

section \<open>Dispatch and polling\<close>

record 's perf_callbacks =
  event_cb :: "(int \<Rightarrow> u8 list \<Rightarrow> 's \<Rightarrow> bpf_perf_event_ret \<times> 's) option"
  sample_cb :: "(int \<Rightarrow> u8 list \<Rightarrow> u32 \<Rightarrow> 's \<Rightarrow> 's) option"
  lost_cb :: "(int \<Rightarrow> u64 \<Rightarrow> 's \<Rightarrow> 's) option"

definition rd64 :: "u8 list \<Rightarrow> nat \<Rightarrow> u64 option" where
  "rd64 buf pos = do { l \<leftarrow> rd32 buf pos; h \<leftarrow> rd32 buf (pos + 4); Some (join32 h l) }"

text \<open>
  The sample callback gets the bytes behind the size field and the size of the sample, as it stands in the
  record.
\<close>

definition perf_buffer__process_record ::
  "perf_abi \<Rightarrow> 's perf_callbacks \<Rightarrow> int \<Rightarrow> u8 list \<Rightarrow> 's \<Rightarrow> (bpf_perf_event_ret \<times> 's) option" where
  "perf_buffer__process_record abi cbs cpu e s =
     (case event_cb cbs of
        Some cb \<Rightarrow> Some (cb cpu e s)
      | None \<Rightarrow>
          do {
            type \<leftarrow> rd32 e (type_at abi);
            if type = PERF_RECORD_SAMPLE abi then
              (case sample_cb cbs of
                 None \<Rightarrow> Some (LIBBPF_PERF_EVENT_CONT, s)
               | Some cb \<Rightarrow>
                   do {
                     n \<leftarrow> rd32 e (perf_hdr abi);
                     Some (LIBBPF_PERF_EVENT_CONT, cb cpu (drop (perf_hdr abi + 4) e) n s)
                   })
            else if type = PERF_RECORD_LOST abi then
              (case lost_cb cbs of
                 None \<Rightarrow> Some (LIBBPF_PERF_EVENT_CONT, s)
               | Some cb \<Rightarrow>
                   do {
                     n \<leftarrow> rd64 e (perf_hdr abi + 8);
                     Some (LIBBPF_PERF_EVENT_CONT, cb cpu n s)
                   })
            else Some (LIBBPF_PERF_EVENT_ERROR, s)
          })"

record perf_cpu_buf =
  base :: "perf_mmap option"
  buf_size :: u64
  buf_fd :: int
  buf_cpu :: int
  map_key :: int

text \<open>\<open>cpu_bufs\<close> holds the buffers up to the first null pointer of the array.\<close>

record 's perf_buffer =
  pb_cbs :: "'s perf_callbacks"
  mmap_size :: u64
  cpu_bufs :: "perf_cpu_buf list"
  epoll_fd :: int
  has_events :: bool
  has_cpu_bufs :: bool

definition perf_buffer__process_records ::
  "perf_abi \<Rightarrow> (u64 \<Rightarrow> bool) \<Rightarrow> 's perf_buffer \<Rightarrow> perf_cpu_buf \<Rightarrow> 's \<Rightarrow> (int \<times> perf_cpu_buf \<times> 's) option" where
  "perf_buffer__process_records abi malloc_ok pb cpu_buf s =
     do {
       m \<leftarrow> base cpu_buf;
       (ret, m, bs, s) \<leftarrow>
         bpf_perf_event_read_simple abi malloc_ok m (mmap_size pb) (buf_size cpu_buf)
           (perf_buffer__process_record abi (pb_cbs pb) (buf_cpu cpu_buf)) s;
       Some (if ret \<noteq> LIBBPF_PERF_EVENT_CONT then perf_ret_code ret else 0,
             cpu_buf\<lparr>base := Some m, buf_size := bs\<rparr>, s)
     }"

text \<open>The buffers that are ready, by their indices.\<close>

fun poll_loop ::
  "perf_abi \<Rightarrow> (u64 \<Rightarrow> bool) \<Rightarrow> nat list \<Rightarrow> 's perf_buffer \<Rightarrow> 's \<Rightarrow> (int \<times> 's perf_buffer \<times> 's) option" where
  "poll_loop abi malloc_ok [] pb s = Some (0, pb, s)"
| "poll_loop abi malloc_ok (i # js) pb s =
     (if i < length (cpu_bufs pb) then
        do {
          (err, b, s) \<leftarrow> perf_buffer__process_records abi malloc_ok pb (cpu_bufs pb ! i) s;
          let pb = pb\<lparr>cpu_bufs := (cpu_bufs pb)[i := b]\<rparr>;
          if err \<noteq> 0 then Some (err, pb, s) else poll_loop abi malloc_ok js pb s
        }
      else None)"

text \<open>\<open>epoll_wait\<close> fails with an error number or gives the ready buffers.\<close>

definition perf_buffer__poll ::
  "perf_abi \<Rightarrow> (u64 \<Rightarrow> bool) \<Rightarrow> int + nat list \<Rightarrow> 's perf_buffer \<Rightarrow> 's \<Rightarrow> (int \<times> 's perf_buffer \<times> 's) option" where
  "perf_buffer__poll abi malloc_ok ready pb s =
     (case ready of
        Inl errno \<Rightarrow> Some (- errno, pb, s)
      | Inr js \<Rightarrow>
          do {
            (err, pb, s) \<leftarrow> poll_loop abi malloc_ok js pb s;
            Some (if err \<noteq> 0 then err else int (length js), pb, s)
          })"

section \<open>What a ring holds\<close>

text \<open>A record with its own length in its header, a multiple of the 8 bytes that no header crosses.\<close>

definition perf_abi_ok :: "perf_abi \<Rightarrow> bool" where
  "perf_abi_ok abi \<longleftrightarrow> perf_hdr abi = 8 \<and> size_at abi + 2 \<le> 8 \<and> type_at abi + 4 \<le> 8 \<and>
     PERF_RECORD_SAMPLE abi \<noteq> PERF_RECORD_LOST abi"

definition perf_record_ok :: "perf_abi \<Rightarrow> u8 list \<Rightarrow> bool" where
  "perf_record_ok abi r \<longleftrightarrow> 8 \<le> length r \<and> length r mod 8 = 0 \<and> length r < 2 ^ 16 \<and>
     rd16 r (size_at abi) = Some (of_nat (length r))"

text \<open>The records lie in the area one after the other from a free-running position, modulo its size.\<close>

definition perf_stored :: "u8 list \<Rightarrow> nat \<Rightarrow> u8 list list \<Rightarrow> bool" where
  "perf_stored bs pos rs \<longleftrightarrow> length (concat rs) \<le> length bs \<and>
     (\<forall>k < length (concat rs). bs ! ((pos + k) mod length bs) = concat rs ! k)"

text \<open>What the callback is to see: the records in order until one does not continue, and how many.\<close>

fun perf_deliver ::
  "(u8 list \<Rightarrow> 's \<Rightarrow> (bpf_perf_event_ret \<times> 's) option) \<Rightarrow> u8 list list \<Rightarrow> 's \<Rightarrow>
   (bpf_perf_event_ret \<times> nat \<times> 's) option" where
  "perf_deliver fn [] s = Some (LIBBPF_PERF_EVENT_CONT, 0, s)"
| "perf_deliver fn (r # rs) s =
     do {
       (ret, s) \<leftarrow> fn r s;
       if ret \<noteq> LIBBPF_PERF_EVENT_CONT then Some (ret, 1, s)
       else do { (ret, n, s) \<leftarrow> perf_deliver fn rs s; Some (ret, n + 1, s) }
     }"

lemma rd16_nth: "p + 2 \<le> length buf \<Longrightarrow> rd16 buf p = Some (le16 [buf ! p, buf ! (p + 1)])"
proof -
  assume a: "p + 2 \<le> length buf"
  then have "drop p buf = buf ! p # buf ! (p + 1) # drop (p + 2) buf"
    by (simp add: Cons_nth_drop_Suc)
  then show ?thesis using a by (simp add: rd16_def)
qed

lemma perf_stored_tail:
  assumes "perf_stored bs pos (r # rs)"
  shows "perf_stored bs (pos + length r) rs"
  unfolding perf_stored_def
proof (intro conjI allI impI)
  show "length (concat rs) \<le> length bs" using assms by (simp add: perf_stored_def)
  fix k assume "k < length (concat rs)"
  then have "length r + k < length (concat (r # rs))" by simp
  then have "bs ! ((pos + (length r + k)) mod length bs) = concat (r # rs) ! (length r + k)"
    using assms unfolding perf_stored_def by blast
  then show "bs ! ((pos + length r + k) mod length bs) = concat rs ! k"
    by (simp add: add.assoc nth_append)
qed

lemma perf_stored_byte:
  assumes "perf_stored bs pos (r # rs)" "k < length r"
  shows "bs ! ((pos + k) mod length bs) = r ! k"
  using assms by (simp add: perf_stored_def nth_append)

text \<open>The record at the tail, in place or wrapped.\<close>

lemma perf_record_found:
  assumes "perf_stored bs pos (r # rs)" "bs \<noteq> []" "ok"
  shows "\<exists>cs'. perf_record_at ok bs (length bs) (pos mod length bs) (length r) cs = Some (Some r, cs')"
proof -
  let ?n = "length bs" and ?o = "pos mod length bs"
  have o: "?o < ?n" using assms(2) by simp
  have len: "length r \<le> ?n" using assms(1) by (simp add: perf_stored_def)
  have at: "bs ! ((?o + k) mod ?n) = r ! k" if "k < length r" for k
    using perf_stored_byte [OF assms(1) that] by (simp add: mod_add_left_eq)
  show ?thesis
  proof (cases "?o + length r > ?n")
    case True
    have "take (?n - ?o) (drop ?o bs) @ take (length r - (?n - ?o)) bs = r"
    proof (rule nth_equalityI)
      show "length (take (?n - ?o) (drop ?o bs) @ take (length r - (?n - ?o)) bs) = length r"
        using True o len by simp
      fix k assume "k < length (take (?n - ?o) (drop ?o bs) @ take (length r - (?n - ?o)) bs)"
      then have k: "k < length r" using True o len by simp
      show "(take (?n - ?o) (drop ?o bs) @ take (length r - (?n - ?o)) bs) ! k = r ! k"
      proof (cases "k < ?n - ?o")
        case True
        then show ?thesis using at [OF k] o by (simp add: nth_append)
      next
        case False
        have "k - (?n - ?o) < ?n" using o k len by linarith
        moreover have "?o + k = ?n + (k - (?n - ?o))" using False o by linarith
        ultimately have "(?o + k) mod ?n = k - (?n - ?o)" by (metis mod_add_self1 mod_less)
        then show ?thesis using at [OF k] o False k len by (simp add: nth_append)
      qed
    qed
    then show ?thesis using True assms(3) o len by (simp add: perf_record_at_def Let_def)
  next
    case False
    have "take (length r) (drop ?o bs) = r"
    proof (rule nth_equalityI)
      show "length (take (length r) (drop ?o bs)) = length r" using False by simp
      fix k assume "k < length (take (length r) (drop ?o bs))"
      then have "k < length r" by simp
      then show "take (length r) (drop ?o bs) ! k = r ! k" using at [of k] False by simp
    qed
    then show ?thesis using False by (simp add: perf_record_at_def)
  qed
qed

lemma perf_size_found:
  assumes "perf_stored bs pos (r # rs)" "perf_record_ok abi r" "perf_abi_ok abi"
    "8 dvd pos" "8 dvd length bs"
  shows "rd16 bs (pos mod length bs + size_at abi) = Some (of_nat (length r))"
proof -
  let ?n = "length bs" and ?o = "pos mod length bs" and ?z = "size_at abi"
  have r: "8 \<le> length r" "length r \<le> ?n" using assms(1,2) by (auto simp: perf_stored_def perf_record_ok_def)
  have "?n \<noteq> 0" using r by linarith
  then have o: "?o < ?n" by simp
  have "8 dvd ?o" using assms(4,5) by (simp add: dvd_mod)
  then obtain a b where ab: "?o = 8 * a" "?n = 8 * b" using assms(5) by (metis dvdE)
  then have "a + 1 \<le> b" using o by linarith
  then have fit: "?o + 8 \<le> ?n" using ab by simp
  have z: "?z + 2 \<le> 8" using assms(3) by (simp add: perf_abi_ok_def)
  have at: "bs ! (?o + k) = r ! k" if "k < 8" for k
  proof -
    have "(pos + k) mod ?n = ?o + k" using fit that by (metis add.commute add_less_cancel_left less_le_trans mod_add_left_eq mod_less)
    then show ?thesis using perf_stored_byte [OF assms(1), of k] that r by simp
  qed
  have "rd16 bs (?o + ?z) = Some (le16 [bs ! (?o + ?z), bs ! (?o + ?z + 1)])"
    using fit z by (intro rd16_nth) linarith
  also have "\<dots> = Some (le16 [r ! ?z, r ! (?z + 1)])"
    using at [of ?z] at [of "?z + 1"] z by (simp add: add.assoc)
  also have "\<dots> = rd16 r ?z" using r z by (intro rd16_nth [symmetric]) linarith
  finally show ?thesis using assms(2) by (simp add: perf_record_ok_def)
qed

lemma perf_mask:
  fixes msz :: u64
  assumes "unat msz = 2 ^ k"
  shows "unat (and x (msz - 1)) = unat x mod 2 ^ k"
proof -
  have "of_nat (unat msz) = (2 ^ k :: u64)" unfolding assms by simp
  then have "msz = 2 ^ k" by simp
  then have "and x (msz - 1) = take_bit k x" by (simp only: take_bit_eq_mask mask_eq_exp_minus_1)
  then show ?thesis by (simp only: unsigned_take_bit_eq) (simp add: take_bit_eq_mod)
qed

lemma perf_pos_mask:
  fixes msz :: u64
  assumes "unat msz = 2 ^ k"
  shows "unat (and (of_nat pos) (msz - 1)) = pos mod 2 ^ k"
proof -
  have "2 ^ k < (2 ^ 64 :: nat)" using unsigned_less [of msz, where ?'a = nat] assms by simp
  then have "k \<le> 64" using power_less_imp_less_exp [of "2 :: nat" k 64] by simp
  then have "(2 ^ k :: nat) dvd 2 ^ 64" by (rule le_imp_power_dvd)
  then show ?thesis unfolding perf_mask [OF assms]
    by (simp add: unsigned_of_nat take_bit_eq_mod mod_mod_cancel)
qed

lemma perf_loop_delivers:
  assumes abi: "perf_abi_ok abi" and msz: "unat msz = 2 ^ k" "3 \<le> k" "length bs = 2 ^ k" and mok: "\<forall>t. malloc_ok t"
  shows "\<forall>r \<in> set rs. perf_record_ok abi r \<Longrightarrow> perf_stored bs pos rs \<Longrightarrow> 8 dvd pos \<Longrightarrow>
     perf_deliver fn rs s = Some (ret, n, s') \<Longrightarrow>
     \<exists>cs'. perf_read_loop abi malloc_ok bs msz fn (of_nat (pos + length (concat rs))) LIBBPF_PERF_EVENT_CONT
             (of_nat pos) cs s =
           Some (ret, of_nat (pos + length (concat (take n rs))), cs', s')"
proof (induction rs arbitrary: pos cs s ret n s')
  case Nil
  then show ?case by (simp add: perf_read_loop.simps)
next
  case (Cons r rs)
  let ?head = "of_nat (pos + length (concat (r # rs))) :: u64"
  have r: "perf_record_ok abi r" and rs: "\<forall>r \<in> set rs. perf_record_ok abi r" using Cons.prems(1) by simp_all
  have d8: "8 dvd length bs" using msz le_imp_power_dvd [of 3 k "2 :: nat"] by simp
  have small: "2 ^ k < (2 ^ 64 :: nat)" using unsigned_less [of msz, where ?'a = nat] msz(1) by simp
  have bound: "length (concat (r # rs)) < 2 ^ 64" using Cons.prems(2) msz(3) small by (simp add: perf_stored_def)
  have "0 < length (concat (r # rs))" using r by (cases r) (simp_all add: perf_record_ok_def)
  then have "(of_nat (length (concat (r # rs))) :: u64) \<noteq> 0"
    using bound unat_of_nat_small [where ?'a = 64, of "length (concat (r # rs))"] by fastforce
  then have ne: "?head \<noteq> of_nat pos" by simp
  have off: "unat (and (of_nat pos) (msz - 1)) = pos mod length bs" using perf_pos_mask [OF msz(1)] msz(3) by simp
  have size: "rd16 bs (pos mod length bs + size_at abi) = Some (of_nat (length r))"
    by (rule perf_size_found [OF Cons.prems(2) r abi Cons.prems(3) d8])
  have len: "unat (of_nat (length r) :: u16) = length r"
    using r by (intro unat_of_nat_small) (simp add: perf_record_ok_def)
  have ulen: "(ucast (of_nat (length r) :: u16) :: u64) = of_nat (length r)"
    using len by (metis of_nat_unat)
  have "bs \<noteq> []" using msz(3) by auto
  then obtain cs1 where at: "perf_record_at (malloc_ok (of_nat pos)) bs (length bs) (pos mod length bs) (length r) cs =
      Some (Some r, cs1)"
    using perf_record_found [OF Cons.prems(2)] mok by blast
  have msz': "unat msz = length bs" using msz by simp
  obtain ret1 s1 where fn: "fn r s = Some (ret1, s1)"
    using Cons.prems(4) by (auto simp: bind_eq_Some_conv)
  have tail: "of_nat pos + of_nat (length r) = (of_nat (pos + length r) :: u64)" by simp
  have run: "perf_read_loop abi malloc_ok bs msz fn ?head LIBBPF_PERF_EVENT_CONT (of_nat pos) cs s =
      (if ret1 \<noteq> LIBBPF_PERF_EVENT_CONT then Some (ret1, of_nat (pos + length r), cs1, s1)
       else perf_read_loop abi malloc_ok bs msz fn ?head ret1 (of_nat (pos + length r)) cs1 s1)"
    unfolding perf_read_loop.simps [of _ _ _ _ _ _ _ "of_nat pos"] if_not_P [OF ne] Let_def size msz' len
      bind.bind_lunit off at prod.case option.case fn ulen tail ..
  show ?case
  proof (cases "ret1 = LIBBPF_PERF_EVENT_CONT")
    case False
    then show ?thesis using run fn Cons.prems(4) by auto
  next
    case True
    then obtain n1 where d: "perf_deliver fn rs s1 = Some (ret, n1, s')" "n = n1 + 1"
      using Cons.prems(4) fn by (auto simp: bind_eq_Some_conv)
    have "8 dvd pos + length r" using Cons.prems(3) r by (simp add: perf_record_ok_def mod_eq_0_iff_dvd)
    from Cons.IH [OF rs perf_stored_tail [OF Cons.prems(2)] this d(1)]
    show ?thesis using run True d(2) by (simp add: add.assoc)
  qed
qed

definition perf_filled :: "perf_abi \<Rightarrow> perf_mmap \<Rightarrow> u8 list list \<Rightarrow> bool" where
  "perf_filled abi m rs \<longleftrightarrow> (\<forall>r \<in> set rs. perf_record_ok abi r) \<and>
     perf_stored (area m) (unat (data_tail m)) rs \<and> 8 dvd unat (data_tail m) \<and>
     data_head m = data_tail m + of_nat (length (concat rs))"

lemma perf_read:
  assumes "perf_abi_ok abi" "unat msz = 2 ^ k" "3 \<le> k" "length (area m) = 2 ^ k" "\<forall>t. malloc_ok t"
    "perf_filled abi m rs" "perf_deliver fn rs s = Some (ret, n, s')"
  shows "\<exists>cs'. bpf_perf_event_read_simple abi malloc_ok m msz cs fn s =
    Some (ret, m\<lparr>data_tail := data_tail m + of_nat (length (concat (take n rs)))\<rparr>, cs', s')"
proof -
  have "of_nat (unat (data_tail m) + l) = data_tail m + of_nat l" for l by simp
  with perf_loop_delivers [OF assms(1-5), of rs "unat (data_tail m)" fn s ret n s' cs] assms(6,7)
  show ?thesis by (fastforce simp: perf_filled_def bpf_perf_event_read_simple_def)
qed

section \<open>What the application sees\<close>

datatype perf_event = Sample "u8 list" | Lost u64

fun perf_record_of :: "perf_abi \<Rightarrow> perf_event \<Rightarrow> u8 list \<Rightarrow> bool" where
  "perf_record_of abi (Sample p) r \<longleftrightarrow> rd32 r (type_at abi) = Some (PERF_RECORD_SAMPLE abi) \<and>
     rd32 r 8 = Some (of_nat (length p)) \<and> drop 12 r = p"
| "perf_record_of abi (Lost n) r \<longleftrightarrow> rd32 r (type_at abi) = Some (PERF_RECORD_LOST abi) \<and> rd64 r 16 = Some n"

fun perf_apply :: "'s perf_callbacks \<Rightarrow> int \<Rightarrow> perf_event \<Rightarrow> 's \<Rightarrow> 's" where
  "perf_apply cbs cpu (Sample p) s =
     (case sample_cb cbs of None \<Rightarrow> s | Some cb \<Rightarrow> cb cpu p (of_nat (length p)) s)"
| "perf_apply cbs cpu (Lost n) s = (case lost_cb cbs of None \<Rightarrow> s | Some cb \<Rightarrow> cb cpu n s)"

lemma perf_process_record:
  assumes "perf_abi_ok abi" "event_cb cbs = None" "perf_record_of abi ev r"
  shows "perf_buffer__process_record abi cbs cpu r s = Some (LIBBPF_PERF_EVENT_CONT, perf_apply cbs cpu ev s)"
  using assms by (cases ev) (auto simp: perf_buffer__process_record_def perf_abi_ok_def split: option.splits)

lemma perf_deliver_events:
  assumes "perf_abi_ok abi" "event_cb cbs = None"
  shows "list_all2 (perf_record_of abi) evs rs \<Longrightarrow>
     perf_deliver (perf_buffer__process_record abi cbs cpu) rs s =
       Some (LIBBPF_PERF_EVENT_CONT, length rs, fold (perf_apply cbs cpu) evs s)"
  by (induction evs rs arbitrary: s rule: list_all2_induct) (simp_all add: perf_process_record [OF assms])

definition buf_events :: "perf_abi \<Rightarrow> 's perf_buffer \<Rightarrow> nat \<Rightarrow> perf_event list \<Rightarrow> bool" where
  "buf_events abi pb i evs \<longleftrightarrow> i < length (cpu_bufs pb) \<and>
     (\<exists>m rs. base (cpu_bufs pb ! i) = Some m \<and> length (area m) = unat (mmap_size pb) \<and>
        perf_filled abi m rs \<and> list_all2 (perf_record_of abi) evs rs)"

lemma perf_process_records:
  assumes "perf_abi_ok abi" "event_cb (pb_cbs pb) = None" "unat (mmap_size pb) = 2 ^ k" "3 \<le> k"
    "\<forall>t. malloc_ok t" "buf_events abi pb i evs"
  shows "\<exists>b m. perf_buffer__process_records abi malloc_ok pb (cpu_bufs pb ! i) s =
      Some (0, b, fold (perf_apply (pb_cbs pb) (buf_cpu (cpu_bufs pb ! i))) evs s) \<and>
    base b = Some m \<and> data_tail m = data_head m"
proof -
  obtain m rs where m: "base (cpu_bufs pb ! i) = Some m" "length (area m) = 2 ^ k"
    "perf_filled abi m rs" "list_all2 (perf_record_of abi) evs rs"
    using assms(3,6) by (auto simp: buf_events_def)
  obtain cs' where read: "bpf_perf_event_read_simple abi malloc_ok m (mmap_size pb) (buf_size (cpu_bufs pb ! i))
      (perf_buffer__process_record abi (pb_cbs pb) (buf_cpu (cpu_bufs pb ! i))) s =
    Some (LIBBPF_PERF_EVENT_CONT, m\<lparr>data_tail := data_tail m + of_nat (length (concat (take (length rs) rs)))\<rparr>, cs',
      fold (perf_apply (pb_cbs pb) (buf_cpu (cpu_bufs pb ! i))) evs s)"
    using perf_read [OF assms(1,3,4) m(2) assms(5) m(3) perf_deliver_events [OF assms(1,2) m(4)]] by blast
  have "data_tail m + of_nat (length (concat rs)) = data_head m" using m(3) by (simp add: perf_filled_def)
  then show ?thesis using m(1) read by (simp add: perf_buffer__process_records_def)
qed

lemma poll_loop_delivers:
  assumes "perf_abi_ok abi" "3 \<le> k" "\<forall>t. malloc_ok t"
  shows "event_cb (pb_cbs pb) = None \<Longrightarrow> unat (mmap_size pb) = 2 ^ k \<Longrightarrow> distinct js \<Longrightarrow>
     \<forall>i \<in> set js. buf_events abi pb i (evs i) \<Longrightarrow>
     \<exists>pb'. poll_loop abi malloc_ok js pb s =
         Some (0, pb', fold (\<lambda>i. fold (perf_apply (pb_cbs pb) (buf_cpu (cpu_bufs pb ! i))) (evs i)) js s) \<and>
       length (cpu_bufs pb') = length (cpu_bufs pb) \<and>
       (\<forall>i \<in> set js. \<exists>m. base (cpu_bufs pb' ! i) = Some m \<and> data_tail m = data_head m) \<and>
       (\<forall>i. i \<notin> set js \<longrightarrow> cpu_bufs pb' ! i = cpu_bufs pb ! i)"
proof (induction js arbitrary: pb s)
  case Nil
  then show ?case by simp
next
  case (Cons i js)
  have ev: "buf_events abi pb i (evs i)" and i: "i \<notin> set js" "i < length (cpu_bufs pb)"
    using Cons.prems by (auto simp: buf_events_def)
  obtain b m where run: "perf_buffer__process_records abi malloc_ok pb (cpu_bufs pb ! i) s =
      Some (0, b, fold (perf_apply (pb_cbs pb) (buf_cpu (cpu_bufs pb ! i))) (evs i) s)"
    "base b = Some m" "data_tail m = data_head m"
    using perf_process_records [OF assms(1) Cons.prems(1,2) assms(2,3) ev] by blast
  let ?pb = "pb\<lparr>cpu_bufs := (cpu_bufs pb)[i := b]\<rparr>"
  have "\<forall>j \<in> set js. buf_events abi ?pb j (evs j)"
    using Cons.prems(4) i(1) by (auto simp: buf_events_def nth_list_update)
  from Cons.IH [of ?pb, OF _ _ _ this] Cons.prems
  obtain pb' where pb': "poll_loop abi malloc_ok js ?pb (fold (perf_apply (pb_cbs pb) (buf_cpu (cpu_bufs pb ! i))) (evs i) s) =
      Some (0, pb', fold (\<lambda>j. fold (perf_apply (pb_cbs pb) (buf_cpu (cpu_bufs ?pb ! j))) (evs j)) js
        (fold (perf_apply (pb_cbs pb) (buf_cpu (cpu_bufs pb ! i))) (evs i) s))"
    "length (cpu_bufs pb') = length (cpu_bufs pb)"
    "\<forall>j \<in> set js. \<exists>m. base (cpu_bufs pb' ! j) = Some m \<and> data_tail m = data_head m"
    "\<forall>j. j \<notin> set js \<longrightarrow> cpu_bufs pb' ! j = cpu_bufs ?pb ! j"
    by (simp, blast)
  have same: "fold (\<lambda>j. fold (perf_apply (pb_cbs pb) (buf_cpu (cpu_bufs ?pb ! j))) (evs j)) js t =
      fold (\<lambda>j. fold (perf_apply (pb_cbs pb) (buf_cpu (cpu_bufs pb ! j))) (evs j)) js t" for t
    using i by (intro fold_cong) (auto simp: nth_list_update)
  show ?case
  proof (intro exI conjI)
    show "poll_loop abi malloc_ok (i # js) pb s =
        Some (0, pb', fold (\<lambda>i. fold (perf_apply (pb_cbs pb) (buf_cpu (cpu_bufs pb ! i))) (evs i)) (i # js) s)"
      using i(2) run(1) pb'(1) same by simp
    show "\<forall>j \<in> set (i # js). \<exists>m. base (cpu_bufs pb' ! j) = Some m \<and> data_tail m = data_head m"
      using pb'(3,4) i run(2,3) by simp
    show "\<forall>j. j \<notin> set (i # js) \<longrightarrow> cpu_bufs pb' ! j = cpu_bufs pb ! j" using pb'(4) by simp
  qed (simp add: pb'(2))
qed

text \<open>C20: polling loses nothing. If the rings that are ready hold samples and notices of lost samples, written
  by the kernel at any positions, wrapped around or not, then the callbacks see every one of them once, ring
  by ring and in the order of the ring, with the payload as it was written; the rings are empty afterwards
  and the others are untouched. This is for a buffer with the sample and lost callbacks, not the one for raw
  events, and when the allocation of the buffer for wrapped records succeeds; the rings have a power of
  two of at least 8 bytes.\<close>

theorem perf_poll_delivers:
  assumes "perf_abi_ok abi" "event_cb (pb_cbs pb) = None" "unat (mmap_size pb) = 2 ^ k" "3 \<le> k"
    "\<forall>t. malloc_ok t" "distinct js" "\<forall>i \<in> set js. buf_events abi pb i (evs i)"
  shows "\<exists>pb'. perf_buffer__poll abi malloc_ok (Inr js) pb s = Some (int (length js), pb',
      fold (\<lambda>i. fold (perf_apply (pb_cbs pb) (buf_cpu (cpu_bufs pb ! i))) (evs i)) js s) \<and>
    (\<forall>i \<in> set js. \<exists>m. base (cpu_bufs pb' ! i) = Some m \<and> data_tail m = data_head m) \<and>
    (\<forall>i. i \<notin> set js \<longrightarrow> cpu_bufs pb' ! i = cpu_bufs pb ! i)"
  using poll_loop_delivers [OF assms(1,4,5,2,3,6,7), of s] by (auto simp: perf_buffer__poll_def)

definition perf_abi_x86 :: perf_abi where
  "perf_abi_x86 = \<lparr>type_at = 0, size_at = 6, perf_hdr = 8, PERF_RECORD_SAMPLE = 9, PERF_RECORD_LOST = 2\<rparr>"

text \<open>A ring of 32 bytes with one sample that wraps around after 8 bytes.\<close>

definition perf_sample_record :: "u8 list" where
  "perf_sample_record = [9, 0, 0, 0, 0, 0, 16, 0, 4, 0, 0, 0, 70, 71, 72, 73]"

definition perf_sample_ring_bytes :: "u8 list" where
  "perf_sample_ring_bytes =
     [4, 0, 0, 0, 70, 71, 72, 73, 0, 0, 0, 0, 0, 0, 0, 0, 0, 0, 0, 0, 0, 0, 0, 0, 9, 0, 0, 0, 0, 0, 16, 0]"

definition perf_sample_ring :: perf_mmap where
  "perf_sample_ring = \<lparr>data_head = 40, data_tail = 24, area = perf_sample_ring_bytes\<rparr>"

definition perf_sample_buffer :: "u8 list list perf_buffer" where
  "perf_sample_buffer =
     \<lparr>pb_cbs = \<lparr>event_cb = None, sample_cb = Some (\<lambda>cpu p n s. s @ [take (unat n) p]), lost_cb = None\<rparr>,
      mmap_size = 32,
      cpu_bufs = [\<lparr>base = Some perf_sample_ring, buf_size = 0, buf_fd = 5, buf_cpu = 0, map_key = 0\<rparr>],
      epoll_fd = 3, has_events = True, has_cpu_bufs = True\<rparr>"

lemma perf_sample_buf: "buf_events perf_abi_x86 perf_sample_buffer 0 [Sample [70, 71, 72, 73]]"
proof -
  have "perf_record_ok perf_abi_x86 perf_sample_record"
    by (simp add: perf_record_ok_def perf_abi_x86_def perf_sample_record_def rd16_def)
  moreover have "perf_stored (area perf_sample_ring) 24 [perf_sample_record]"
  proof -
    have "perf_sample_ring_bytes ! ((24 + k) mod 32) = perf_sample_record ! k" if "k < 16" for k
    proof -
      have "k \<in> {0, 1, 2, 3, 4, 5, 6, 7, 8, 9, 10, 11, 12, 13, 14, 15}"
        using that by (simp only: insert_iff empty_iff) arith
      then show ?thesis by (auto simp: perf_sample_ring_bytes_def perf_sample_record_def)
    qed
    then show ?thesis
      by (simp add: perf_stored_def perf_sample_ring_def)
        (simp add: perf_sample_ring_bytes_def perf_sample_record_def)
  qed
  ultimately have "perf_filled perf_abi_x86 perf_sample_ring [perf_sample_record]"
    by (simp add: perf_filled_def perf_sample_ring_def perf_sample_record_def)
  moreover have "perf_record_of perf_abi_x86 (Sample [70, 71, 72, 73]) perf_sample_record"
    by (simp add: perf_abi_x86_def perf_sample_record_def rd32_def)
  moreover have "length (area perf_sample_ring) = 32" by (simp add: perf_sample_ring_def perf_sample_ring_bytes_def)
  ultimately show ?thesis
    by (auto simp: buf_events_def perf_sample_buffer_def intro!: exI [of _ "[perf_sample_record]"])
qed

theorem perf_poll_delivers_witness:
  "\<exists>pb'. perf_buffer__poll perf_abi_x86 (\<lambda>t. True) (Inr [0]) perf_sample_buffer [] =
      Some (1, pb', [[70, 71, 72, 73]]) \<and>
    (\<exists>m. base (cpu_bufs pb' ! 0) = Some m \<and> data_tail m = data_head m)"
proof -
  have abi: "perf_abi_ok perf_abi_x86" by (simp add: perf_abi_ok_def perf_abi_x86_def)
  have "event_cb (pb_cbs perf_sample_buffer) = None" "unat (mmap_size perf_sample_buffer) = 2 ^ 5"
    by (simp_all add: perf_sample_buffer_def)
  from perf_poll_delivers [OF abi this, of "\<lambda>t. True" "[0]" "\<lambda>i. [Sample [70, 71, 72, 73]]" "[]"] perf_sample_buf
  show ?thesis by (auto simp: perf_sample_buffer_def)
qed

section \<open>Opening and freeing\<close>

text \<open>The resources of the process, with the perf event array that the kernel reads the descriptors from.\<close>

record perf_res =
  res_fds :: "int set"
  res_mmaps :: "int set"
  res_blocks :: int
  res_array :: "int \<Rightarrow> int option"

text \<open>The outcomes of allocations and system calls; \<open>Inl\<close> and non-zero numbers are error numbers.\<close>

record perf_open_env =
  map_info :: "int + u32 \<times> u32"
  pb_alloc :: bool
  epoll_create :: "int + int"
  possible_cpus :: int
  events_alloc :: bool
  bufs_alloc :: bool
  buf_alloc :: "nat \<Rightarrow> bool"
  event_open :: "nat \<Rightarrow> int + int"
  mmap_result :: "nat \<Rightarrow> int + perf_mmap"
  enable_err :: "nat \<Rightarrow> int"
  update_err :: "nat \<Rightarrow> int"
  epoll_ctl_err :: "nat \<Rightarrow> int"

definition BPF_MAP_TYPE_PERF_EVENT_ARRAY :: u32 where "BPF_MAP_TYPE_PERF_EVENT_ARRAY = 4"

text \<open>The copy buffer is a block of its own once it was needed.\<close>

definition perf_buffer__free_cpu_buf :: "perf_cpu_buf \<Rightarrow> perf_res \<Rightarrow> perf_res" where
  "perf_buffer__free_cpu_buf b r =
     (let r = (if base b \<noteq> None then r\<lparr>res_mmaps := res_mmaps r - {buf_fd b}\<rparr> else r);
          r = (if buf_fd b \<ge> 0 then r\<lparr>res_fds := res_fds r - {buf_fd b}\<rparr> else r)
      in r\<lparr>res_blocks := res_blocks r - (if buf_size b \<noteq> 0 then 2 else 1)\<rparr>)"

definition perf_buffer__open_cpu_buf ::
  "perf_open_env \<Rightarrow> nat \<Rightarrow> int \<Rightarrow> int \<Rightarrow> perf_res \<Rightarrow> (int + perf_cpu_buf) \<times> perf_res" where
  "perf_buffer__open_cpu_buf env i cpu key r =
     (if \<not> buf_alloc env i then (Inl (- ENOMEM), r)
      else
        let r = r\<lparr>res_blocks := res_blocks r + 1\<rparr>;
            b = \<lparr>base = None, buf_size = 0, buf_fd = - 1, buf_cpu = cpu, map_key = key\<rparr> in
        (case event_open env i of
           Inl errno \<Rightarrow> (Inl (- errno), perf_buffer__free_cpu_buf b r)
         | Inr fd \<Rightarrow>
             let b = b\<lparr>buf_fd := fd\<rparr>; r = r\<lparr>res_fds := insert fd (res_fds r)\<rparr> in
             (case mmap_result env i of
                Inl errno \<Rightarrow> (Inl (- errno), perf_buffer__free_cpu_buf b r)
              | Inr m \<Rightarrow>
                  let b = b\<lparr>base := Some m\<rparr>; r = r\<lparr>res_mmaps := insert fd (res_mmaps r)\<rparr> in
                  if enable_err env i \<noteq> 0 then (Inl (- enable_err env i), perf_buffer__free_cpu_buf b r)
                  else (Inr b, r))))"

fun free_cpu_bufs :: "perf_cpu_buf list \<Rightarrow> perf_res \<Rightarrow> perf_res" where
  "free_cpu_bufs [] r = r"
| "free_cpu_bufs (b # bs) r =
     free_cpu_bufs bs (perf_buffer__free_cpu_buf b (r\<lparr>res_array := (res_array r)(map_key b := None)\<rparr>))"

definition perf_buffer__free :: "'s perf_buffer \<Rightarrow> perf_res \<Rightarrow> perf_res" where
  "perf_buffer__free pb r =
     (let r = (if has_cpu_bufs pb
               then let r = free_cpu_bufs (cpu_bufs pb) r in r\<lparr>res_blocks := res_blocks r - 1\<rparr> else r);
          r = (if epoll_fd pb \<ge> 0 then r\<lparr>res_fds := res_fds r - {epoll_fd pb}\<rparr> else r);
          r = (if has_events pb then r\<lparr>res_blocks := res_blocks r - 1\<rparr> else r)
      in r\<lparr>res_blocks := res_blocks r - 1\<rparr>)"

text \<open>The buffers of the CPUs that are left, given by index, CPU and key; the result is an error, if any.\<close>

fun open_cpu_bufs ::
  "perf_open_env \<Rightarrow> (nat \<times> int \<times> int) list \<Rightarrow> 's perf_buffer \<Rightarrow> perf_res \<Rightarrow>
   int option \<times> 's perf_buffer \<times> perf_res" where
  "open_cpu_bufs env [] pb r = (None, pb, r)"
| "open_cpu_bufs env ((i, cpu, key) # cpus) pb r =
     (case perf_buffer__open_cpu_buf env i cpu key r of
        (Inl err, r) \<Rightarrow> (Some err, pb, r)
      | (Inr b, r) \<Rightarrow>
          let pb = pb\<lparr>cpu_bufs := cpu_bufs pb @ [b]\<rparr> in
          if update_err env i \<noteq> 0 then (Some (- update_err env i), pb, r)
          else
            let r = r\<lparr>res_array := (res_array r)(key \<mapsto> buf_fd b)\<rparr> in
            if epoll_ctl_err env i \<noteq> 0 then (Some (- epoll_ctl_err env i), pb, r)
            else open_cpu_bufs env cpus pb r)"

record perf_buffer_params =
  cpu_cnt :: int
  cpus :: "int list"
  map_keys :: "int list"

text \<open>
  The number of CPUs. The comparison with the number of entries is unsigned, but the number is not
  negative there.
\<close>

definition perf_cpu_count :: "perf_open_env \<Rightarrow> perf_buffer_params \<Rightarrow> u32 \<Rightarrow> int" where
  "perf_cpu_count env p max_entries =
     (if cpu_cnt p > 0 then cpu_cnt p
      else if possible_cpus env < 0 then possible_cpus env
      else min (possible_cpus env) (uint max_entries))"

definition perf_buffer__new ::
  "perf_open_env \<Rightarrow> u64 \<Rightarrow> u64 \<Rightarrow> 's perf_callbacks \<Rightarrow> perf_buffer_params \<Rightarrow> perf_res \<Rightarrow>
   (int + 's perf_buffer) \<times> perf_res" where
  "perf_buffer__new env page_size page_cnt cbs p r =
     (if and page_cnt (page_cnt - 1) \<noteq> 0 then (Inl (- EINVAL), r)
      else
        (case map_info env of
           Inl errno \<Rightarrow> (Inl (- errno), r)
         | Inr (type, max_entries) \<Rightarrow>
             if type \<noteq> BPF_MAP_TYPE_PERF_EVENT_ARRAY then (Inl (- EINVAL), r)
             else if \<not> pb_alloc env then (Inl (- ENOMEM), r)
             else
               let r = r\<lparr>res_blocks := res_blocks r + 1\<rparr>;
                   pb = \<lparr>pb_cbs = cbs, mmap_size = page_size * page_cnt, cpu_bufs = [], epoll_fd = - 1,
                         has_events = False, has_cpu_bufs = False\<rparr> in
               (case epoll_create env of
                  Inl errno \<Rightarrow> (Inl (- errno), perf_buffer__free pb r)
                | Inr efd \<Rightarrow>
                    let pb = pb\<lparr>epoll_fd := efd\<rparr>; r = r\<lparr>res_fds := insert efd (res_fds r)\<rparr>;
                        cnt = perf_cpu_count env p max_entries in
                    if cnt < 0 then (Inl cnt, perf_buffer__free pb r)
                    else if \<not> events_alloc env then (Inl (- ENOMEM), perf_buffer__free pb r)
                    else
                      let pb = pb\<lparr>has_events := True\<rparr>; r = r\<lparr>res_blocks := res_blocks r + 1\<rparr> in
                      if \<not> bufs_alloc env then (Inl (- ENOMEM), perf_buffer__free pb r)
                      else
                        let pb = pb\<lparr>has_cpu_bufs := True\<rparr>; r = r\<lparr>res_blocks := res_blocks r + 1\<rparr>;
                            todo = map (\<lambda>i. if cpu_cnt p > 0 then (i, cpus p ! i, map_keys p ! i)
                                            else (i, int i, int i)) [0..<nat cnt];
                            (err, pb, r) = open_cpu_bufs env todo pb r
                        in (case err of Some e \<Rightarrow> (Inl e, perf_buffer__free pb r) | None \<Rightarrow> (Inr pb, r)))))"

section \<open>No leaks\<close>

text \<open>What is held while the buffers \<open>bs\<close> are open, over what was there before.\<close>

definition perf_held :: "int set \<Rightarrow> int set \<Rightarrow> int \<Rightarrow> int \<Rightarrow> perf_cpu_buf list \<Rightarrow> perf_res \<Rightarrow> bool" where
  "perf_held F M n efd bs r \<longleftrightarrow>
     res_fds r = insert efd (F \<union> buf_fd ` set bs) \<and> res_mmaps r = M \<union> buf_fd ` set bs \<and>
     res_blocks r = n + int (length bs) \<and> distinct (map buf_fd bs) \<and>
     (\<forall>b \<in> set bs. base b \<noteq> None \<and> buf_size b = 0 \<and> 0 \<le> buf_fd b \<and> buf_fd b \<notin> F \<union> M \<and> buf_fd b \<noteq> efd)"

definition perf_fd_fresh :: "perf_open_env \<Rightarrow> perf_res \<Rightarrow> bool" where
  "perf_fd_fresh env r \<longleftrightarrow>
     (\<forall>efd. epoll_create env = Inr efd \<longrightarrow> 0 \<le> efd \<and> efd \<notin> res_fds r) \<and>
     (\<forall>i fd. event_open env i = Inr fd \<longrightarrow>
        0 \<le> fd \<and> fd \<notin> res_fds r \<union> res_mmaps r \<and> epoll_create env \<noteq> Inr fd \<and> (\<forall>j. j \<noteq> i \<longrightarrow> event_open env j \<noteq> Inr fd))"

lemma perf_held_free: "perf_held F M n efd bs r \<Longrightarrow> perf_held F M n efd [] (free_cpu_bufs bs r)"
proof (induction bs arbitrary: r)
  case (Cons b bs)
  have "perf_held F M n efd bs (perf_buffer__free_cpu_buf b (r\<lparr>res_array := (res_array r)(map_key b := None)\<rparr>))"
    using Cons.prems by (auto simp: perf_held_def perf_buffer__free_cpu_buf_def Let_def)
  then show ?case using Cons.IH by simp
qed simp

lemma perf_open_one:
  assumes "perf_buffer__open_cpu_buf env i cpu key r = (res, r')" "perf_held F M n efd bs r"
    "\<And>fd. event_open env i = Inr fd \<Longrightarrow> 0 \<le> fd \<and> fd \<notin> F \<union> M \<and> fd \<noteq> efd \<and> fd \<notin> buf_fd ` set bs"
  shows "case res of Inl e \<Rightarrow> perf_held F M n efd bs r' \<and> res_array r' = res_array r
    | Inr b \<Rightarrow> perf_held F M n efd (bs @ [b]) r' \<and> res_array r' = res_array r \<and> buf_cpu b = cpu \<and> map_key b = key \<and>
        event_open env i = Inr (buf_fd b)"
  using assms
  by (auto simp: perf_buffer__open_cpu_buf_def perf_held_def perf_buffer__free_cpu_buf_def Let_def
      split: if_splits sum.splits)

lemma open_cpu_bufs_held:
  assumes fresh: "\<And>i fd. event_open env i = Inr fd \<Longrightarrow>
    0 \<le> fd \<and> fd \<notin> F \<union> M \<and> fd \<noteq> efd \<and> (\<forall>j. j \<noteq> i \<longrightarrow> event_open env j \<noteq> Inr fd)"
  shows "open_cpu_bufs env todo pb r = (err, pb', r') \<Longrightarrow> perf_held F M n efd (cpu_bufs pb) r \<Longrightarrow>
     distinct (map fst todo) \<Longrightarrow>
     \<forall>b \<in> set (cpu_bufs pb). \<exists>j. j \<notin> fst ` set todo \<and> event_open env j = Inr (buf_fd b) \<Longrightarrow>
     perf_held F M n efd (cpu_bufs pb') r' \<and> pb' = pb\<lparr>cpu_bufs := cpu_bufs pb'\<rparr> \<and>
     (err = None \<longrightarrow>
        map (\<lambda>b. (buf_cpu b, map_key b)) (cpu_bufs pb') =
          map (\<lambda>b. (buf_cpu b, map_key b)) (cpu_bufs pb) @ map snd todo \<and>
        (distinct (map map_key (cpu_bufs pb) @ map (snd \<circ> snd) todo) \<and>
         (\<forall>b \<in> set (cpu_bufs pb). res_array r (map_key b) = Some (buf_fd b)) \<longrightarrow>
         (\<forall>b \<in> set (cpu_bufs pb'). res_array r' (map_key b) = Some (buf_fd b))))"
proof (induction todo arbitrary: pb r)
  case (Cons t todo)
  obtain i cpu key where t: "t = (i, cpu, key)" by (cases t)
  obtain res r1 where one: "perf_buffer__open_cpu_buf env i cpu key r = (res, r1)" by fastforce
  have new: "0 \<le> fd \<and> fd \<notin> F \<union> M \<and> fd \<noteq> efd \<and> fd \<notin> buf_fd ` set (cpu_bufs pb)"
    if "event_open env i = Inr fd" for fd
    using fresh [OF that] Cons.prems(4) t by fastforce
  note held = perf_open_one [OF one Cons.prems(2) new]
  show ?case
  proof (cases res)
    case (Inl e)
    then show ?thesis using Cons.prems(1) one held t by auto
  next
    case (Inr b)
    let ?pb = "pb\<lparr>cpu_bufs := cpu_bufs pb @ [b]\<rparr>"
    let ?r = "r1\<lparr>res_array := (res_array r1)(key \<mapsto> buf_fd b)\<rparr>"
    have b: "perf_held F M n efd (cpu_bufs pb @ [b]) r1" "res_array r1 = res_array r" "buf_cpu b = cpu"
      "map_key b = key" "event_open env i = Inr (buf_fd b)"
      using held Inr by simp_all
    have h: "perf_held F M n efd (cpu_bufs ?pb) ?r" using b(1) by (simp add: perf_held_def)
    consider (upd) "update_err env i \<noteq> 0" | (ctl) "update_err env i = 0" "epoll_ctl_err env i \<noteq> 0"
      | (go) "update_err env i = 0" "epoll_ctl_err env i = 0" by blast
    then show ?thesis
    proof cases
      case upd
      then show ?thesis using Cons.prems(1) one Inr t b(1) by auto
    next
      case ctl
      then show ?thesis using Cons.prems(1) one Inr t h by auto
    next
      case go
      then have run: "open_cpu_bufs env todo ?pb ?r = (err, pb', r')"
        using Cons.prems(1) one Inr t by simp
      have d: "distinct (map fst todo)" using Cons.prems(3) by simp
      have origin: "\<forall>c \<in> set (cpu_bufs ?pb). \<exists>j. j \<notin> fst ` set todo \<and> event_open env j = Inr (buf_fd c)"
        using Cons.prems(3,4) b(5) t by fastforce
      note IH = Cons.IH [OF run h d origin]
      have arr: "\<forall>c \<in> set (cpu_bufs ?pb). res_array ?r (map_key c) = Some (buf_fd c)"
        if "distinct (map map_key (cpu_bufs pb) @ map (snd \<circ> snd) (t # todo))"
          "\<forall>c \<in> set (cpu_bufs pb). res_array r (map_key c) = Some (buf_fd c)"
        using that b t by (auto simp: image_iff)
      have D: "distinct (map map_key (cpu_bufs ?pb) @ map (snd \<circ> snd) todo) \<longleftrightarrow>
          distinct (map map_key (cpu_bufs pb) @ map (snd \<circ> snd) (t # todo))"
        using b(4) t by simp
      have m: "map (\<lambda>b. (buf_cpu b, map_key b)) (cpu_bufs ?pb) @ map snd todo =
          map (\<lambda>b. (buf_cpu b, map_key b)) (cpu_bufs pb) @ map snd (t # todo)"
        using b(3,4) t by simp
      have e: "?pb\<lparr>cpu_bufs := x\<rparr> = pb\<lparr>cpu_bufs := x\<rparr>" for x by simp
      show ?thesis using IH arr unfolding D m e by blast
    qed
  qed
qed auto

lemma perf_free_held:
  assumes "perf_held F M n efd (cpu_bufs pb) r" "epoll_fd pb = efd" "0 \<le> efd" "efd \<notin> F"
    "has_events pb" "has_cpu_bufs pb"
  shows "res_fds (perf_buffer__free pb r) = F \<and> res_mmaps (perf_buffer__free pb r) = M \<and>
    res_blocks (perf_buffer__free pb r) = n - 3"
  using perf_held_free [OF assms(1)] assms(2-) by (auto simp: perf_held_def perf_buffer__free_def Let_def)

lemma perf_new_early:
  assumes "perf_fd_fresh env r"
  shows "(\<exists>e r'. perf_buffer__new env page_size page_cnt cbs p r = (Inl e, r') \<and>
        res_fds r' = res_fds r \<and> res_mmaps r' = res_mmaps r \<and> res_blocks r' = res_blocks r) \<or>
    (\<exists>type max_entries efd. and page_cnt (page_cnt - 1) = 0 \<and> map_info env = Inr (type, max_entries) \<and>
        type = BPF_MAP_TYPE_PERF_EVENT_ARRAY \<and> pb_alloc env \<and> epoll_create env = Inr efd \<and>
        \<not> perf_cpu_count env p max_entries < 0 \<and> events_alloc env \<and> bufs_alloc env)"
proof (cases "and page_cnt (page_cnt - 1) = 0 \<and> pb_alloc env")
  case True
  show ?thesis
  proof (cases "map_info env")
    case (Inr tm)
    obtain type me where tm: "tm = (type, me)" by (cases tm)
    show ?thesis
    proof (cases "type = BPF_MAP_TYPE_PERF_EVENT_ARRAY")
      case type: True
      show ?thesis
      proof (cases "epoll_create env")
        case (Inr efd)
        have "0 \<le> efd" "efd \<notin> res_fds r" using assms Inr by (auto simp: perf_fd_fresh_def)
        then show ?thesis using True \<open>map_info env = Inr tm\<close> tm type Inr
          by (auto simp: perf_buffer__new_def perf_buffer__free_def Let_def)
      qed (use True Inr tm type in \<open>auto simp: perf_buffer__new_def perf_buffer__free_def Let_def\<close>)
    qed (use True Inr tm in \<open>auto simp: perf_buffer__new_def Let_def\<close>)
  qed (use True in \<open>auto simp: perf_buffer__new_def Let_def\<close>)
qed (auto simp: perf_buffer__new_def Let_def split: sum.splits)

text \<open>C21: opening the buffers leaks nothing and opens all of them. Assume the kernel hands out descriptors
  that are not in use. Whatever allocation, system call or argument makes it fail, the descriptors, the
  mappings and the allocations are the ones from before. When it succeeds, there is exactly one buffer,
  in order, for each of the \<open>cpu_cnt\<close> CPUs and keys of the caller's arrays, or, if the caller names none,
  for each CPU below the smaller of the number of possible CPUs and the size of the map; if the keys
  are distinct the map holds the descriptor of each buffer under its key; and freeing the buffers gives
  everything back.\<close>

theorem perf_new_no_leak:
  assumes "perf_fd_fresh env r"
  shows "case perf_buffer__new env page_size page_cnt cbs p r of
      (Inl e, r') \<Rightarrow> res_fds r' = res_fds r \<and> res_mmaps r' = res_mmaps r \<and> res_blocks r' = res_blocks r
    | (Inr pb, r') \<Rightarrow>
        (\<exists>type max_entries. map_info env = Inr (type, max_entries) \<and>
           map (\<lambda>b. (buf_cpu b, map_key b)) (cpu_bufs pb) =
             (if cpu_cnt p > 0 then map (\<lambda>i. (cpus p ! i, map_keys p ! i)) [0..<nat (cpu_cnt p)]
              else map (\<lambda>i. (int i, int i)) [0..<min (nat (possible_cpus env)) (unat max_entries)])) \<and>
        (distinct (map map_key (cpu_bufs pb)) \<longrightarrow>
           (\<forall>b \<in> set (cpu_bufs pb). res_array r' (map_key b) = Some (buf_fd b))) \<and>
        res_fds (perf_buffer__free pb r') = res_fds r \<and> res_mmaps (perf_buffer__free pb r') = res_mmaps r \<and>
        res_blocks (perf_buffer__free pb r') = res_blocks r"
proof -
  let ?same = "\<lambda>r'. res_fds r' = res_fds r \<and> res_mmaps r' = res_mmaps r \<and> res_blocks r' = res_blocks r"
  consider (early) e r' where "perf_buffer__new env page_size page_cnt cbs p r = (Inl e, r')" "?same r'"
    | (deep) type max_entries efd where
      "and page_cnt (page_cnt - 1) = 0" "map_info env = Inr (type, max_entries)"
      "type = BPF_MAP_TYPE_PERF_EVENT_ARRAY" "pb_alloc env" "epoll_create env = Inr efd"
      "\<not> perf_cpu_count env p max_entries < 0" "events_alloc env" "bufs_alloc env"
    using perf_new_early [OF assms] by blast
  then show ?thesis
  proof cases
    case early
    then show ?thesis by simp
  next
    case deep
    let ?r = "r\<lparr>res_fds := insert efd (res_fds r), res_blocks := 3 + res_blocks r\<rparr>"
    let ?pb = "\<lparr>pb_cbs = cbs, mmap_size = page_size * page_cnt, cpu_bufs = [], epoll_fd = efd,
      has_events = True, has_cpu_bufs = True\<rparr>"
    define todo where "todo = map (\<lambda>i. if cpu_cnt p > 0 then (i, cpus p ! i, map_keys p ! i) else (i, int i, int i))
      [0..<nat (perf_cpu_count env p max_entries)]"
    obtain err pb' r' where run: "open_cpu_bufs env todo ?pb ?r = (err, pb', r')" using prod_cases3 by blast
    have new: "perf_buffer__new env page_size page_cnt cbs p r =
        (case err of Some e \<Rightarrow> (Inl e, perf_buffer__free pb' r') | None \<Rightarrow> (Inr pb', r'))"
      using deep run by (simp add: perf_buffer__new_def Let_def todo_def)
    have efd: "0 \<le> efd" "efd \<notin> res_fds r" using assms deep(5) by (auto simp: perf_fd_fresh_def)
    have fresh: "0 \<le> fd \<and> fd \<notin> res_fds r \<union> res_mmaps r \<and> fd \<noteq> efd \<and> (\<forall>j. j \<noteq> i \<longrightarrow> event_open env j \<noteq> Inr fd)"
      if "event_open env i = Inr fd" for i fd
      using assms that deep(5) unfolding perf_fd_fresh_def by blast
    have start: "perf_held (res_fds r) (res_mmaps r) (res_blocks r + 3) efd (cpu_bufs ?pb) ?r"
      by (simp add: perf_held_def)
    have idx: "map fst todo = [0..<nat (perf_cpu_count env p max_entries)]"
      unfolding todo_def by (rule nth_equalityI) simp_all
    have "nat (min a (uint m)) = min (nat a) (unat m)" if "\<not> a < 0" for a and m :: u32
      using that by (simp add: min_def nat_le_iff)
    then have todo: "map snd todo =
        (if cpu_cnt p > 0 then map (\<lambda>i. (cpus p ! i, map_keys p ! i)) [0..<nat (cpu_cnt p)]
         else map (\<lambda>i. (int i, int i)) [0..<min (nat (possible_cpus env)) (unat max_entries)])"
      using deep(6) unfolding todo_def perf_cpu_count_def by (auto split: if_splits)
    note held = open_cpu_bufs_held [OF fresh run start]
    have h: "perf_held (res_fds r) (res_mmaps r) (res_blocks r + 3) efd (cpu_bufs pb') r'"
      "pb' = ?pb\<lparr>cpu_bufs := cpu_bufs pb'\<rparr>"
      "err = None \<Longrightarrow> map (\<lambda>b. (buf_cpu b, map_key b)) (cpu_bufs pb') = map snd todo"
      "err = None \<Longrightarrow> distinct (map (snd \<circ> snd) todo) \<Longrightarrow>
        \<forall>b \<in> set (cpu_bufs pb'). res_array r' (map_key b) = Some (buf_fd b)"
      using held idx by simp_all
    have "epoll_fd pb' = efd" "has_events pb'" "has_cpu_bufs pb'" by (subst h(2), simp)+
    then have freed: "?same (perf_buffer__free pb' r')" using perf_free_held [OF h(1)] efd by simp
    show ?thesis
    proof (cases err)
      case None
      have "map map_key (cpu_bufs pb') = map (snd \<circ> snd) todo"
        using arg_cong [OF h(3) [OF None], of "map snd"] by (simp add: comp_def)
      then show ?thesis using new None freed h(3) [OF None] h(4) [OF None] todo deep(2) by simp
    next
      case (Some e)
      then show ?thesis using new freed by simp
    qed
  qed
qed

text \<open>Two CPUs, once with a second buffer that cannot be mapped and once with both.\<close>

definition perf_sample_env :: perf_open_env where
  "perf_sample_env =
     \<lparr>map_info = Inr (4, 2), pb_alloc = True, epoll_create = Inr 3, possible_cpus = 2, events_alloc = True,
      bufs_alloc = True, buf_alloc = (\<lambda>i. True), event_open = (\<lambda>i. Inr (int i + 4)),
      mmap_result = (\<lambda>i. if i = 0 then Inr perf_sample_ring else Inl ENOMEM), enable_err = (\<lambda>i. 0),
      update_err = (\<lambda>i. 0), epoll_ctl_err = (\<lambda>i. 0)\<rparr>"

definition perf_sample_res :: perf_res where
  "perf_sample_res = \<lparr>res_fds = {0, 1, 2}, res_mmaps = {}, res_blocks = 0, res_array = (\<lambda>k. None)\<rparr>"

definition perf_sample_env_ok :: perf_open_env where
  "perf_sample_env_ok = perf_sample_env\<lparr>mmap_result := (\<lambda>i. Inr perf_sample_ring)\<rparr>"

lemma perf_sample_fresh:
  "perf_fd_fresh perf_sample_env perf_sample_res" "perf_fd_fresh perf_sample_env_ok perf_sample_res"
  by (auto simp: perf_fd_fresh_def perf_sample_env_def perf_sample_env_ok_def perf_sample_res_def)

lemmas perf_sample_run = perf_buffer__new_def perf_sample_env_def perf_sample_env_ok_def
  BPF_MAP_TYPE_PERF_EVENT_ARRAY_def perf_cpu_count_def upt_rec [of 0] upt_rec [of "Suc 0"]
  perf_buffer__open_cpu_buf_def Let_def

theorem perf_new_no_leak_witness:
  "(\<exists>r'. perf_buffer__new perf_sample_env 4096 8 (pb_cbs perf_sample_buffer)
        \<lparr>cpu_cnt = 0, cpus = [], map_keys = []\<rparr> perf_sample_res = (Inl (- ENOMEM), r') \<and>
     res_fds r' = {0, 1, 2} \<and> res_mmaps r' = {} \<and> res_blocks r' = 0) \<and>
   (\<exists>pb r'. perf_buffer__new perf_sample_env_ok 4096 8 (pb_cbs perf_sample_buffer)
        \<lparr>cpu_cnt = 2, cpus = [5, 7], map_keys = [1, 0]\<rparr> perf_sample_res = (Inr pb, r') \<and>
     map (\<lambda>b. (buf_cpu b, map_key b)) (cpu_bufs pb) = [(5, 1), (7, 0)] \<and>
     res_fds (perf_buffer__free pb r') = {0, 1, 2})"
proof -
  have "\<exists>r'. perf_buffer__new perf_sample_env 4096 8 (pb_cbs perf_sample_buffer)
      \<lparr>cpu_cnt = 0, cpus = [], map_keys = []\<rparr> perf_sample_res = (Inl (- ENOMEM), r')"
    by (simp add: perf_sample_run)
  with perf_new_no_leak [OF perf_sample_fresh(1), where page_size = 4096 and page_cnt = 8 and
      cbs = "pb_cbs perf_sample_buffer" and p = "\<lparr>cpu_cnt = 0, cpus = [], map_keys = []\<rparr>"]
  have 1: "\<exists>r'. perf_buffer__new perf_sample_env 4096 8 (pb_cbs perf_sample_buffer)
        \<lparr>cpu_cnt = 0, cpus = [], map_keys = []\<rparr> perf_sample_res = (Inl (- ENOMEM), r') \<and>
     res_fds r' = {0, 1, 2} \<and> res_mmaps r' = {} \<and> res_blocks r' = 0"
    by (fastforce simp: perf_sample_res_def)
  have "\<exists>pb r'. perf_buffer__new perf_sample_env_ok 4096 8 (pb_cbs perf_sample_buffer)
      \<lparr>cpu_cnt = 2, cpus = [5, 7], map_keys = [1, 0]\<rparr> perf_sample_res = (Inr pb, r')"
    by (simp add: perf_sample_run)
  then obtain pb r' where run: "perf_buffer__new perf_sample_env_ok 4096 8 (pb_cbs perf_sample_buffer)
      \<lparr>cpu_cnt = 2, cpus = [5, 7], map_keys = [1, 0]\<rparr> perf_sample_res = (Inr pb, r')" by blast
  have 2: "map (\<lambda>b. (buf_cpu b, map_key b)) (cpu_bufs pb) = [(5, 1), (7, 0)] \<and>
      res_fds (perf_buffer__free pb r') = {0, 1, 2}"
    using perf_new_no_leak [OF perf_sample_fresh(2), where page_size = 4096 and page_cnt = 8 and
      cbs = "pb_cbs perf_sample_buffer" and p = "\<lparr>cpu_cnt = 2, cpus = [5, 7], map_keys = [1, 0]\<rparr>"]
    unfolding run by (simp add: perf_sample_res_def upt_rec [of 0] upt_rec [of "Suc 0"])
  show ?thesis
    by (rule conjI [OF 1], rule exI [of _ pb], rule exI [of _ r'], rule conjI [OF run 2])
qed

end
