(* ===== verification/Prog_Reloc.thy ===== *)
theory Prog_Reloc
  imports Core_Reloc
begin

text \<open>
  ELF relocations of BPF programs, \<open>libbpf/src/libbpf.c\<close> lines 1796 to 1957, 2443 to 2510 and 3554 to 3713:
  what is recorded for a relocation while the object is opened, and how maps, global data and calls to
  subprograms are patched into the instructions before the programs are loaded, with the function and line
  information that goes along. Relocation entries come resolved from libelf.
\<close>

section \<open>Recording\<close>

fun find_map_idx :: "(bpf_map \<Rightarrow> bool) \<Rightarrow> bpf_map list \<Rightarrow> nat option" where
  "find_map_idx P [] = None"
| "find_map_idx P (m # ms) = (if P m then Some 0 else map_option Suc (find_map_idx P ms))"

text \<open>
  One relocation; the descriptor and whether it is a call. The instruction is read before anything is
  checked, so an offset past the program is an access outside.
\<close>

definition bpf_program__record_reloc ::
  "u32 \<Rightarrow> bpf_object \<Rightarrow> bpf_insn list \<Rightarrow> u32 \<Rightarrow> elf_sym \<Rightarrow> (int + reloc_desc \<times> bool) option" where
  "bpf_program__record_reloc SHN_LORESERVE obj insns idx s =
     (if unat idx < length insns then
        let insn = insns ! unat idx; shdr_idx = (ucast (st_shndx s) :: u32); shndx = uint (st_shndx s) in
        Some
          (if insn_code insn = or BPF_JMP BPF_CALL then
             if src_reg insn \<noteq> BPF_PSEUDO_CALL then Inl (- LIBBPF_ERRNO__RELOC)
             else if shdr_idx = 0 \<or> shndx \<noteq> text_shndx obj then Inl (- LIBBPF_ERRNO__RELOC)
             else if st_value s mod 8 \<noteq> 0 then Inl (- LIBBPF_ERRNO__RELOC)
             else Inr (\<lparr>relo_type = RELO_CALL, insn_idx = sint idx, map_idx = 0, sym_off = ucast (st_value s)\<rparr>, True)
           else if insn_code insn \<noteq> or BPF_LD (or BPF_IMM BPF_DW) then Inl (- LIBBPF_ERRNO__RELOC)
           else if shdr_idx = 0 \<or> shdr_idx \<ge> SHN_LORESERVE then Inl (- LIBBPF_ERRNO__RELOC)
           else
             let type = bpf_object__section_to_libbpf_map_type obj shndx in
             if type = LIBBPF_MAP_UNSPEC then
               if \<not> bpf_object__shndx_is_maps obj shndx then Inl (- LIBBPF_ERRNO__RELOC)
               else
                 (case find_map_idx (\<lambda>m. map_libbpf_type m = type \<and> sec_idx m = shndx \<and>
                                         sec_offset m = st_value s) (obj_maps obj) of
                    None \<Rightarrow> Inl (- LIBBPF_ERRNO__RELOC)
                  | Some i \<Rightarrow> Inr (\<lparr>relo_type = RELO_LD64, insn_idx = sint idx, map_idx = i, sym_off = 0\<rparr>, False))
             else if \<not> bpf_object__shndx_is_data obj shndx then Inl (- LIBBPF_ERRNO__RELOC)
             else if \<not> cap_global_data obj then Inl (- LIBBPF_ERRNO__RELOC)
             else
               (case find_map_idx (\<lambda>m. map_libbpf_type m = type) (obj_maps obj) of
                  None \<Rightarrow> Inl (- LIBBPF_ERRNO__RELOC)
                | Some i \<Rightarrow> Inr (\<lparr>relo_type = RELO_DATA, insn_idx = sint idx, map_idx = i,
                                  sym_off = ucast (st_value s)\<rparr>, False)))
      else None)"

text \<open>A relocation entry, with its symbol when the symbol table has it.\<close>

record elf_rel =
  r_offset :: u64
  rel_sym :: "elf_sym option"

fun collect_relocs ::
  "u32 \<Rightarrow> bpf_object \<Rightarrow> bpf_insn list \<Rightarrow> elf_rel option list \<Rightarrow> (int + reloc_desc list \<times> bool) option" where
  "collect_relocs SHN_LORESERVE obj insns [] = Some (Inr ([], False))"
| "collect_relocs SHN_LORESERVE obj insns (e # es) =
     (case e of
        None \<Rightarrow> Some (Inl (- LIBBPF_ERRNO__FORMAT))
      | Some r \<Rightarrow>
          (case rel_sym r of
             None \<Rightarrow> Some (Inl (- LIBBPF_ERRNO__FORMAT))
           | Some s \<Rightarrow>
               if r_offset r mod 8 \<noteq> 0 then Some (Inl (- LIBBPF_ERRNO__FORMAT))
               else
                 (case bpf_program__record_reloc SHN_LORESERVE obj insns (ucast (r_offset r div 8)) s of
                    None \<Rightarrow> None
                  | Some (Inl err) \<Rightarrow> Some (Inl err)
                  | Some (Inr (d, c)) \<Rightarrow>
                      (case collect_relocs SHN_LORESERVE obj insns es of
                         None \<Rightarrow> None
                       | Some (Inl err) \<Rightarrow> Some (Inl err)
                       | Some (Inr (ds, cs)) \<Rightarrow> Some (Inr (d # ds, c \<or> cs))))))"

text \<open>An error ends the opening of the object, so what it leaves behind is not kept.\<close>

definition bpf_program__collect_reloc ::
  "u32 \<Rightarrow> bool \<Rightarrow> nat \<Rightarrow> elf_rel option list \<Rightarrow> bpf_object \<Rightarrow> (int + bpf_object) option" where
  "bpf_program__collect_reloc SHN_LORESERVE malloc_ok i rels obj =
     (if \<not> malloc_ok then Some (Inl (- ENOMEM))
      else
        do {
          r \<leftarrow> collect_relocs SHN_LORESERVE obj (prog_insns (obj_programs obj ! i)) rels;
          Some (case r of
             Inl e \<Rightarrow> Inl e
           | Inr (ds, calls) \<Rightarrow>
               Inr (obj\<lparr>obj_programs := (obj_programs obj)[i := (obj_programs obj ! i)\<lparr>reloc_descs := Some ds\<rparr>],
                        has_pseudo_calls := has_pseudo_calls obj \<or> calls\<rparr>))
        })"

text \<open>A section of relocations: whether it has the expected type, the section it is for, and its entries.\<close>

record reloc_sect =
  sect_is_rel :: bool
  sect_info :: int
  sect_rels :: "elf_rel option list"

fun bpf_object__collect_reloc ::
  "u32 \<Rightarrow> (nat \<Rightarrow> bool) \<Rightarrow> nat \<Rightarrow> reloc_sect list \<Rightarrow> bpf_object \<Rightarrow> (int + bpf_object) option" where
  "bpf_object__collect_reloc SHN_LORESERVE malloc_ok k [] obj = Some (Inr obj)"
| "bpf_object__collect_reloc SHN_LORESERVE malloc_ok k (sect # sects) obj =
     (if \<not> sect_is_rel sect then Some (Inl (- LIBBPF_ERRNO__INTERNAL))
      else
        (case bpf_object__find_prog_by_idx (obj_programs obj) (sect_info sect) of
           None \<Rightarrow> Some (Inl (- LIBBPF_ERRNO__RELOC))
         | Some i \<Rightarrow>
             (case bpf_program__collect_reloc SHN_LORESERVE (malloc_ok k) i (sect_rels sect) obj of
                None \<Rightarrow> None
              | Some (Inl e) \<Rightarrow> Some (Inl e)
              | Some (Inr obj) \<Rightarrow> bpf_object__collect_reloc SHN_LORESERVE malloc_ok (k + 1) sects obj)))"

section \<open>Function and line information\<close>

definition check_btf_ext_reloc_err :: "int \<Rightarrow> u8 list option \<Rightarrow> int" where
  "check_btf_ext_reloc_err err btf_prog_info =
     (if err \<noteq> - ENOENT then err else if btf_prog_info \<noteq> None then err else 0)"

definition opt_bytes :: "u8 list option \<Rightarrow> u8 list" where
  "opt_bytes i = (case i of None \<Rightarrow> [] | Some bs \<Rightarrow> bs)"

definition bpf_program_reloc_btf_ext ::
  "bool \<Rightarrow> bool \<Rightarrow> bpf_program \<Rightarrow> bpf_object \<Rightarrow> btf_ext \<Rightarrow> u8 list \<Rightarrow> u32 \<Rightarrow> (int \<times> bpf_program) option" where
  "bpf_program_reloc_btf_ext func_ok line_ok prog obj ext sec_name insn_offset =
     do {
       b \<leftarrow> obj_btf obj;
       (ret, prog) \<leftarrow>
         (if insn_offset = 0 \<or> prog_func_info prog \<noteq> None then
            do {
              (err, infos, cnt) \<leftarrow> btf_ext__reloc_func_info b ext sec_name insn_offset func_ok
                (opt_bytes (prog_func_info prog)) (func_info_cnt prog);
              Some (if err \<noteq> 0 then (Some (check_btf_ext_reloc_err err (prog_func_info prog)), prog)
                    else (None, prog\<lparr>prog_func_info := Some infos, func_info_rec_size := rec_size (func_info ext),
                                     func_info_cnt := cnt\<rparr>))
            }
          else Some (None, prog));
       (case ret of
          Some err \<Rightarrow> Some (err, prog)
        | None \<Rightarrow>
            if insn_offset = 0 \<or> prog_line_info prog \<noteq> None then
              do {
                (err, infos, cnt) \<leftarrow> btf_ext__reloc_line_info b ext sec_name insn_offset line_ok
                  (opt_bytes (prog_line_info prog)) (line_info_cnt prog);
                Some (if err \<noteq> 0 then (check_btf_ext_reloc_err err (prog_line_info prog), prog)
                      else (0, prog\<lparr>prog_line_info := Some infos, line_info_rec_size := rec_size (line_info ext),
                                    line_info_cnt := cnt\<rparr>))
              }
            else Some (0, prog))
     }"

section \<open>Patching\<close>

text \<open>Division of C, towards 0.\<close>

definition cdiv8 :: "u32 \<Rightarrow> int" where
  "cdiv8 x = (if sint x < 0 then - (- sint x div 8) else sint x div 8)"

text \<open>
  The outcomes of the allocations: \<open>ok 0\<close> and \<open>ok 1\<close> for the information of the program, \<open>ok 2\<close> and
  \<open>ok 3\<close> for that of the subprograms, \<open>ok 4\<close> for the instructions.
\<close>

definition append_text :: "(nat \<Rightarrow> bool) \<Rightarrow> bpf_object \<Rightarrow> bpf_program \<Rightarrow> (int \<times> bpf_program) option" where
  "append_text ok obj prog =
     (case bpf_object__find_prog_by_idx (obj_programs obj) (text_shndx obj) of
        None \<Rightarrow> Some (- LIBBPF_ERRNO__RELOC, prog)
      | Some t \<Rightarrow>
          let text = obj_programs obj ! t in
          if \<not> ok 4 then Some (- ENOMEM, prog)
          else
            do {
              (err, prog) \<leftarrow>
                (case obj_btf_ext obj of
                   None \<Rightarrow> Some (0, prog)
                 | Some ext \<Rightarrow>
                     bpf_program_reloc_btf_ext (ok 2) (ok 3) prog obj ext (opt_bytes (section_name text))
                       (of_nat (length (prog_insns prog))));
              Some (if err \<noteq> 0 then (err, prog)
                    else (0, prog\<lparr>prog_insns := prog_insns prog @ prog_insns text,
                                  main_prog_cnt := length (prog_insns prog)\<rparr>))
            })"

definition bpf_program__reloc_text ::
  "(nat \<Rightarrow> bool) \<Rightarrow> bpf_object \<Rightarrow> bpf_program \<Rightarrow> reloc_desc \<Rightarrow> (int \<times> bpf_program) option" where
  "bpf_program__reloc_text ok obj prog relo =
     (if relo_type relo \<noteq> RELO_CALL then Some (- LIBBPF_ERRNO__RELOC, prog)
      else if prog_idx prog = text_shndx obj then Some (- LIBBPF_ERRNO__RELOC, prog)
      else
        do {
          (err, prog) \<leftarrow> (if main_prog_cnt prog = 0 then append_text ok obj prog else Some (0, prog));
          if err \<noteq> 0 then Some (err, prog)
          else if 0 \<le> insn_idx relo \<and> insn_idx relo < int (length (prog_insns prog)) then
            let i = nat (insn_idx relo); insn = prog_insns prog ! i in
            Some (0, prog\<lparr>prog_insns := (prog_insns prog)[i := insn\<lparr>imm :=
              imm insn + word_of_int (cdiv8 (sym_off relo)) + of_nat (main_prog_cnt prog) -
              word_of_int (insn_idx relo)\<rparr>]\<rparr>)
          else None
        })"

definition reloc_map_insn :: "bpf_object \<Rightarrow> bpf_program \<Rightarrow> reloc_desc \<Rightarrow> (int \<times> bpf_program) option" where
  "reloc_map_insn obj prog relo =
     (let insns = prog_insns prog in
      if insn_idx relo + 1 \<ge> int (length insns) then Some (- LIBBPF_ERRNO__RELOC, prog)
      else if insn_idx relo < 0 \<or> map_idx relo \<ge> length (obj_maps obj) then None
      else
        let i = nat (insn_idx relo);
            insns = (if relo_type relo \<noteq> RELO_DATA then insns[i := (insns ! i)\<lparr>src_reg := BPF_PSEUDO_MAP_FD\<rparr>]
                     else insns[i := (insns ! i)\<lparr>src_reg := BPF_PSEUDO_MAP_VALUE\<rparr>,
                                i + 1 := (insns ! (i + 1))\<lparr>imm := imm (insns ! i) + sym_off relo\<rparr>]);
            insns = insns[i := (insns ! i)\<lparr>imm := word_of_int (map_fd (obj_maps obj ! map_idx relo))\<rparr>]
        in Some (0, prog\<lparr>prog_insns := insns\<rparr>))"

fun relocate_descs ::
  "(nat \<Rightarrow> bool) \<Rightarrow> bpf_object \<Rightarrow> reloc_desc list \<Rightarrow> bpf_program \<Rightarrow> (int \<times> bpf_program) option" where
  "relocate_descs ok obj [] prog = Some (0, prog)"
| "relocate_descs ok obj (relo # relos) prog =
     do {
       (err, prog) \<leftarrow>
         (if relo_type relo = RELO_LD64 \<or> relo_type relo = RELO_DATA then reloc_map_insn obj prog relo
          else bpf_program__reloc_text ok obj prog relo);
       if err \<noteq> 0 then Some (err, prog) else relocate_descs ok obj relos prog
     }"

definition bpf_program__relocate ::
  "(nat \<Rightarrow> bool) \<Rightarrow> bpf_object \<Rightarrow> bpf_program \<Rightarrow> (int \<times> bpf_program) option" where
  "bpf_program__relocate ok obj prog =
     do {
       (err, prog) \<leftarrow>
         (case obj_btf_ext obj of
            None \<Rightarrow> Some (0, prog)
          | Some ext \<Rightarrow> bpf_program_reloc_btf_ext (ok 0) (ok 1) prog obj ext (opt_bytes (section_name prog)) 0);
       if err \<noteq> 0 then Some (err, prog)
       else
         (case reloc_descs prog of
            None \<Rightarrow> Some (0, prog)
          | Some relos \<Rightarrow>
              do {
                (err, prog) \<leftarrow> relocate_descs ok obj relos prog;
                Some (err, if err \<noteq> 0 then prog else prog\<lparr>reloc_descs := None\<rparr>)
              })
     }"

fun relocate_progs ::
  "(nat \<Rightarrow> nat \<Rightarrow> bool) \<Rightarrow> nat list \<Rightarrow> bpf_object \<Rightarrow> (int \<times> bpf_object) option" where
  "relocate_progs ok [] obj = Some (0, obj)"
| "relocate_progs ok (i # js) obj =
     do {
       (err, prog) \<leftarrow> bpf_program__relocate (ok i) obj (obj_programs obj ! i);
       let obj = obj\<lparr>obj_programs := (obj_programs obj)[i := prog]\<rparr>;
       if err \<noteq> 0 then Some (err, obj) else relocate_progs ok js obj
     }"

text \<open>CO-RE relocations first, then every program, in the order in which the sections were found.\<close>

definition bpf_object__relocate ::
  "(nat \<Rightarrow> nat \<Rightarrow> core_env) \<Rightarrow> bool \<Rightarrow> int + btf \<Rightarrow> (nat \<Rightarrow> nat \<Rightarrow> bool) \<Rightarrow> bpf_object \<Rightarrow> (int \<times> bpf_object) option" where
  "bpf_object__relocate env map_ok targ ok obj =
     do {
       (err, progs) \<leftarrow>
         (case obj_btf_ext obj of
            None \<Rightarrow> Some (0, obj_programs obj)
          | Some ext \<Rightarrow>
              do {
                b \<leftarrow> obj_btf obj;
                bpf_object__relocate_core env map_ok targ (relaxed_core_relocs obj) b ext (obj_programs obj)
              });
       let obj = obj\<lparr>obj_programs := progs\<rparr>;
       if err \<noteq> 0 then Some (err, obj)
       else relocate_progs ok [0..<length (obj_programs obj)] obj
     }"

section \<open>The effect on the instructions\<close>

text \<open>One relocation on the whole program, its subprograms already appended behind \<open>M\<close> instructions.\<close>

definition apply_relo :: "bpf_map list \<Rightarrow> nat \<Rightarrow> reloc_desc \<Rightarrow> bpf_insn list \<Rightarrow> bpf_insn list" where
  "apply_relo maps M d insns =
     (let i = nat (insn_idx d); fd = word_of_int (map_fd (maps ! map_idx d)) in
      case relo_type d of
        RELO_LD64 \<Rightarrow> insns[i := (insns ! i)\<lparr>src_reg := BPF_PSEUDO_MAP_FD, imm := fd\<rparr>]
      | RELO_DATA \<Rightarrow> insns[i := (insns ! i)\<lparr>src_reg := BPF_PSEUDO_MAP_VALUE, imm := fd\<rparr>,
                          i + 1 := (insns ! (i + 1))\<lparr>imm := imm (insns ! i) + sym_off d\<rparr>]
      | RELO_CALL \<Rightarrow> insns[i := (insns ! i)\<lparr>imm :=
          imm (insns ! i) + word_of_int (cdiv8 (sym_off d)) + of_nat M - word_of_int (insn_idx d)\<rparr>])"

lemma bind_SomeE:
  assumes "Option.bind m f = Some y" obtains x where "m = Some x" "f x = Some y"
  using assms by (cases m) auto

definition same_code :: "bpf_program \<Rightarrow> bpf_program \<Rightarrow> bool" where
  "same_code p q \<longleftrightarrow> prog_insns q = prog_insns p \<and> main_prog_cnt q = main_prog_cnt p \<and>
     reloc_descs q = reloc_descs p \<and> prog_idx q = prog_idx p"

lemma reloc_btf_ext_insns:
  assumes "bpf_program_reloc_btf_ext a b prog obj ext name off = Some (err, prog')"
  shows "same_code prog prog'"
proof -
  obtain bt where bt: "obj_btf obj = Some bt"
    using assms unfolding bpf_program_reloc_btf_ext_def by (elim bind_SomeE)
  let ?first = "if off = 0 \<or> prog_func_info prog \<noteq> None then
      do {
        (err, infos, cnt) \<leftarrow> btf_ext__reloc_func_info bt ext name off a (opt_bytes (prog_func_info prog))
          (func_info_cnt prog);
        Some (if err \<noteq> 0 then (Some (check_btf_ext_reloc_err err (prog_func_info prog)), prog)
              else (None, prog\<lparr>prog_func_info := Some infos, func_info_rec_size := rec_size (func_info ext),
                               func_info_cnt := cnt\<rparr>))
      }
    else Some (None, prog)"
  from assms [unfolded bpf_program_reloc_btf_ext_def bt bind.bind_lunit]
  obtain ret p1 where 1: "?first = Some (ret, p1)" and 2: "(case ret of
      Some err \<Rightarrow> Some (err, p1)
    | None \<Rightarrow>
        if off = 0 \<or> prog_line_info p1 \<noteq> None then
          do {
            (err, infos, cnt) \<leftarrow> btf_ext__reloc_line_info bt ext name off b (opt_bytes (prog_line_info p1))
              (line_info_cnt p1);
            Some (if err \<noteq> 0 then (check_btf_ext_reloc_err err (prog_line_info p1), p1)
                  else (0, p1\<lparr>prog_line_info := Some infos, line_info_rec_size := rec_size (line_info ext),
                              line_info_cnt := cnt\<rparr>))
          }
        else Some (0, p1)) = Some (err, prog')"
    by (elim bind_SomeE) (simp only: split_paired_all prod.case)
  have "same_code prog p1" using 1
    by (cases "btf_ext__reloc_func_info bt ext name off a (opt_bytes (prog_func_info prog)) (func_info_cnt prog)")
      (auto simp: same_code_def split: if_splits)
  moreover have "same_code p1 prog'" using 2
    by (cases ret; cases "btf_ext__reloc_line_info bt ext name off b (opt_bytes (prog_line_info p1)) (line_info_cnt p1)")
      (auto simp: same_code_def split: if_splits)
  ultimately show ?thesis by (simp add: same_code_def)
qed

lemma append_text_insns:
  assumes "append_text ok obj prog = Some (0, prog')"
  shows "\<exists>t. bpf_object__find_prog_by_idx (obj_programs obj) (text_shndx obj) = Some t \<and>
    prog_insns prog' = prog_insns prog @ prog_insns (obj_programs obj ! t) \<and>
    main_prog_cnt prog' = length (prog_insns prog)"
proof -
  obtain t where t: "bpf_object__find_prog_by_idx (obj_programs obj) (text_shndx obj) = Some t"
    using assms by (cases "bpf_object__find_prog_by_idx (obj_programs obj) (text_shndx obj)")
      (simp_all add: append_text_def LIBBPF_ERRNO__RELOC_def)
  have ok: "ok 4" using assms t by (simp add: append_text_def Let_def split: if_splits)
  define r where "r = (case obj_btf_ext obj of
      None \<Rightarrow> Some (0, prog)
    | Some ext \<Rightarrow> bpf_program_reloc_btf_ext (ok 2) (ok 3) prog obj ext
        (opt_bytes (section_name (obj_programs obj ! t))) (of_nat (length (prog_insns prog))))"
  have run: "do { (err, p1) \<leftarrow> r;
      Some (if err \<noteq> 0 then (err, p1)
        else (0, p1\<lparr>prog_insns := prog_insns p1 @ prog_insns (obj_programs obj ! t),
                     main_prog_cnt := length (prog_insns p1)\<rparr>)) } = Some (0, prog')"
    using assms t ok by (simp add: append_text_def Let_def r_def)
  then obtain err p1 where r: "r = Some (err, p1)" by (cases r) auto
  then have err: "err = 0" and p': "prog' = p1\<lparr>prog_insns := prog_insns p1 @ prog_insns (obj_programs obj ! t),
                     main_prog_cnt := length (prog_insns p1)\<rparr>"
    using run by (auto split: if_splits)
  have "prog_insns p1 = prog_insns prog"
    using r unfolding r_def by (cases "obj_btf_ext obj") (auto simp: same_code_def dest!: reloc_btf_ext_insns)
  then show ?thesis using t p' by simp
qed

lemma list_update_again: "xs[i := a, Suc i := b, i := c] = xs[i := c, Suc i := b]"
  by (simp add: list_update_swap [of "Suc i" i])

lemma reloc_map_insn_apply:
  assumes "reloc_map_insn obj prog d = Some (0, prog')" "relo_type d \<noteq> RELO_CALL"
  shows "prog' = prog\<lparr>prog_insns := apply_relo (obj_maps obj) M d (prog_insns prog)\<rparr> \<and>
    0 \<le> insn_idx d \<and> nat (insn_idx d) + 1 < length (prog_insns prog)"
proof -
  have b: "\<not> insn_idx d + 1 \<ge> int (length (prog_insns prog))" "\<not> (insn_idx d < 0 \<or> map_idx d \<ge> length (obj_maps obj))"
    using assms(1) by (auto simp: reloc_map_insn_def Let_def LIBBPF_ERRNO__RELOC_def split: if_splits)
  then have i: "0 \<le> insn_idx d" "nat (insn_idx d) + 1 < length (prog_insns prog)" by linarith+
  then have "nat (insn_idx d) < length (prog_insns prog)" by linarith
  with i b assms show ?thesis
    by (cases "relo_type d") (auto simp: reloc_map_insn_def apply_relo_def Let_def list_update_again)
qed

lemma apply_relo_append:
  assumes "nat (insn_idx d) + 1 < length xs"
  shows "apply_relo maps M d (xs @ ys) = apply_relo maps M d xs @ ys"
  using assms by (cases "relo_type d") (auto simp: apply_relo_def Let_def nth_append list_update_append)

lemma length_apply_relo [simp]: "length (apply_relo maps M d xs) = length xs"
  by (cases "relo_type d") (auto simp: apply_relo_def Let_def)

definition text_insns :: "bpf_object \<Rightarrow> bpf_insn list" where
  "text_insns obj =
     (case bpf_object__find_prog_by_idx (obj_programs obj) (text_shndx obj) of
        None \<Rightarrow> [] | Some t \<Rightarrow> prog_insns (obj_programs obj ! t))"

definition calls_text :: "reloc_desc list \<Rightarrow> bool" where
  "calls_text ds \<longleftrightarrow> (\<exists>d \<in> set ds. relo_type d = RELO_CALL)"

text \<open>The program as it is, or as it is going to be with the subprograms.\<close>

definition full_code :: "bpf_object \<Rightarrow> nat \<Rightarrow> reloc_desc list \<Rightarrow> bpf_program \<Rightarrow> bpf_insn list \<Rightarrow> bool" where
  "full_code obj M ds prog full \<longleftrightarrow>
     main_prog_cnt prog = 0 \<and> length (prog_insns prog) = M \<and>
       full = prog_insns prog @ (if calls_text ds then text_insns obj else []) \<or>
     main_prog_cnt prog = M \<and> full = prog_insns prog"

lemma reloc_text_apply:
  assumes "bpf_program__reloc_text ok obj prog d = Some (0, prog')" "full_code obj M (d # ds) prog full" "0 < M"
  shows "main_prog_cnt prog' = M \<and> prog_insns prog' = apply_relo (obj_maps obj) M d full"
proof -
  have d: "relo_type d = RELO_CALL" "prog_idx prog \<noteq> text_shndx obj"
    using assms(1) by (auto simp: bpf_program__reloc_text_def LIBBPF_ERRNO__RELOC_def split: if_splits)
  from assms(1) [unfolded bpf_program__reloc_text_def]
  obtain err p1 where p1: "(if main_prog_cnt prog = 0 then append_text ok obj prog else Some (0, prog)) = Some (err, p1)"
    and rest: "(if err \<noteq> 0 then Some (err, p1)
          else if 0 \<le> insn_idx d \<and> insn_idx d < int (length (prog_insns p1)) then
            let i = nat (insn_idx d); insn = prog_insns p1 ! i in
            Some (0, p1\<lparr>prog_insns := (prog_insns p1)[i := insn\<lparr>imm :=
              imm insn + word_of_int (cdiv8 (sym_off d)) + of_nat (main_prog_cnt p1) -
              word_of_int (insn_idx d)\<rparr>]\<rparr>)
          else None) = Some (0, prog')"
    using d by simp (elim bind_SomeE, simp only: split_paired_all prod.case)
  have err: "err = 0" using rest by (auto split: if_splits)
  have "main_prog_cnt p1 = M \<and> prog_insns p1 = full"
  proof (cases "main_prog_cnt prog = 0")
    case True
    then have "append_text ok obj prog = Some (0, p1)" using p1 err by simp
    from append_text_insns [OF this] assms(2,3) True d(1) show ?thesis
      by (auto simp: full_code_def text_insns_def calls_text_def)
  next
    case False
    then show ?thesis using p1 assms(2) by (auto simp: full_code_def)
  qed
  then show ?thesis using rest err d(1)
    by (auto simp: apply_relo_def Let_def split: if_splits)
qed

lemma relocate_descs_fold:
  "relocate_descs ok obj ds prog = Some (0, prog') \<Longrightarrow> full_code obj M ds prog full \<Longrightarrow> 0 < M \<Longrightarrow>
     prog_insns prog' = fold (apply_relo (obj_maps obj) M) ds full"
proof (induction ds arbitrary: prog full)
  case Nil
  then show ?case by (auto simp: full_code_def calls_text_def)
next
  case (Cons d ds)
  from Cons.prems(1) [unfolded relocate_descs.simps]
  obtain err p1 where p1: "(if relo_type d = RELO_LD64 \<or> relo_type d = RELO_DATA then reloc_map_insn obj prog d
       else bpf_program__reloc_text ok obj prog d) = Some (err, p1)"
    and rest: "(if err \<noteq> 0 then Some (err, p1) else relocate_descs ok obj ds p1) = Some (0, prog')"
    by (elim bind_SomeE) (simp only: split_paired_all prod.case)
  have err: "err = 0" and run: "relocate_descs ok obj ds p1 = Some (0, prog')"
    using rest by (auto split: if_splits)
  have "full_code obj M ds p1 (apply_relo (obj_maps obj) M d full)"
  proof (cases "relo_type d = RELO_CALL")
    case True
    then have "bpf_program__reloc_text ok obj prog d = Some (0, p1)" using p1 err by simp
    from reloc_text_apply [OF this Cons.prems(2,3)] show ?thesis by (simp add: full_code_def)
  next
    case False
    then have "reloc_map_insn obj prog d = Some (0, p1)" using p1 err by (cases "relo_type d") auto
    note a = reloc_map_insn_apply [OF this False, of M]
    have "calls_text (d # ds) = calls_text ds" using False by (simp add: calls_text_def)
    then show ?thesis using Cons.prems(2) a by (auto simp: full_code_def apply_relo_append)
  qed
  from Cons.IH [OF run this Cons.prems(3)] show ?case by simp
qed

text \<open>The slots that a relocation touches.\<close>

definition touched :: "reloc_desc \<Rightarrow> nat list" where
  "touched d = (let i = nat (insn_idx d) in if relo_type d = RELO_DATA then [i, i + 1] else [i])"

lemma apply_relo_other: "j \<notin> set (touched d) \<Longrightarrow> apply_relo maps M d xs ! j = xs ! j"
  by (cases "relo_type d") (auto simp: apply_relo_def touched_def Let_def)

lemma apply_relo_local:
  assumes "\<forall>j \<in> set (touched d). xs ! j = ys ! j" "j \<in> set (touched d)" "\<forall>j \<in> set (touched d). j < length xs"
    "length xs = length ys"
  shows "apply_relo maps M d xs ! j = apply_relo maps M d ys ! j"
  using assms by (cases "relo_type d") (auto simp: apply_relo_def touched_def Let_def nth_list_update)

lemma fold_relo_length: "length (fold (apply_relo maps M) ds xs) = length xs"
  by (induction ds arbitrary: xs) simp_all

lemma fold_relo_other:
  "j \<notin> (\<Union>d \<in> set ds. set (touched d)) \<Longrightarrow> fold (apply_relo maps M) ds xs ! j = xs ! j"
  by (induction ds arbitrary: xs) (simp_all add: apply_relo_other)

lemma fold_relo_at:
  assumes "distinct (concat (map touched ds))" "d \<in> set ds" "j \<in> set (touched d)"
    "\<forall>d \<in> set ds. \<forall>j \<in> set (touched d). j < length xs"
  shows "fold (apply_relo maps M) ds xs ! j = apply_relo maps M d xs ! j"
  using assms
proof (induction ds arbitrary: xs)
  case (Cons e ds)
  show ?case
  proof (cases "d = e")
    case True
    then have "j \<notin> (\<Union>d \<in> set ds. set (touched d))" using Cons.prems(1,3) by auto
    then show ?thesis using True fold_relo_other by simp
  next
    case False
    then have d: "d \<in> set ds" using Cons.prems(2) by simp
    then have apart: "set (touched d) \<inter> set (touched e) = {}" using Cons.prems(1) by auto
    have "fold (apply_relo maps M) ds (apply_relo maps M e xs) ! j = apply_relo maps M d (apply_relo maps M e xs) ! j"
      using Cons.prems d by (intro Cons.IH) auto
    also have "\<dots> = apply_relo maps M d xs ! j"
      using apart Cons.prems(3,4) d by (intro apply_relo_local) (auto intro!: apply_relo_other)
    finally show ?thesis by simp
  qed
qed simp

lemma sint_of_int_small:
  "- 2147483648 \<le> v \<Longrightarrow> v < 2147483648 \<Longrightarrow> sint (word_of_int v :: u32) = v"
  by (simp add: signed_of_int signed_take_bit_int_eq_self)

lemma call_target:
  fixes im :: u32
  assumes "int c = q + sint im + 1" "c < T" "M + T < 2 ^ 31" "i < M"
  shows "int i + 1 + sint (im + word_of_int q + of_nat M - word_of_int (int i)) = int (M + c)"
proof -
  let ?v = "int M + int c - 1 - int i"
  have "sint im = int c - q - 1" using assms(1) by linarith
  then have "word_of_int (sint im) = (word_of_int (int c - q - 1) :: u32)" by simp
  then have im: "im = of_int (int c - q - 1)" by simp
  have nat: "(of_nat M :: u32) = of_int (int M)" by simp
  have "int c - q - 1 + q + int M - int i = ?v" by simp
  then have e: "im + word_of_int q + of_nat M - word_of_int (int i) = (word_of_int ?v :: u32)"
    unfolding im nat of_int_add [symmetric] of_int_diff [symmetric] by (rule arg_cong)
  have "M + T < 2147483648" using assms(3) by simp
  then have "- 2147483648 \<le> ?v" "?v < 2147483648" using assms(2,4) by linarith+
  then have "sint (word_of_int ?v :: u32) = ?v" by (rule sint_of_int_small)
  then show ?thesis unfolding e by linarith
qed

text \<open>C18: what relocation does to a program, when it succeeds on one that was not relocated before, with
  descriptors of instructions inside the program that do not overlap, and fewer than 2 to the 31
  instructions in all. Its subprograms are appended once when it calls any; every map
  load carries the descriptor of its map, every load of global data that of the data map and the offset of
  the variable; every call jumps to the copy of the subprogram that it referred to; and no other instruction
  changes.\<close>

theorem prog_relocate_exact:
  assumes "bpf_program__relocate ok obj prog = Some (0, prog')" "reloc_descs prog = Some ds"
    "main_prog_cnt prog = 0" "distinct (concat (map touched ds))"
    "\<forall>d \<in> set ds. 0 \<le> insn_idx d \<and> (\<forall>j \<in> set (touched d). j < length (prog_insns prog))"
    "length (prog_insns prog) + length (text_insns obj) < 2 ^ 31"
  shows "length (prog_insns prog') = length (prog_insns prog) + (if calls_text ds then length (text_insns obj) else 0) \<and>
    (\<forall>d \<in> set ds.
       let i = nat (insn_idx d); insn = prog_insns prog ! i; new = prog_insns prog' ! i;
           fd = word_of_int (map_fd (obj_maps obj ! map_idx d)) in
       case relo_type d of
         RELO_LD64 \<Rightarrow> new = insn\<lparr>src_reg := BPF_PSEUDO_MAP_FD, imm := fd\<rparr>
       | RELO_DATA \<Rightarrow> new = insn\<lparr>src_reg := BPF_PSEUDO_MAP_VALUE, imm := fd\<rparr> \<and>
           prog_insns prog' ! (i + 1) = (prog_insns prog ! (i + 1))\<lparr>imm := imm insn + sym_off d\<rparr>
       | RELO_CALL \<Rightarrow> \<forall>c < length (text_insns obj). int c = cdiv8 (sym_off d) + sint (imm insn) + 1 \<longrightarrow>
           prog_insns prog' ! nat (int i + 1 + sint (imm new)) = text_insns obj ! c) \<and>
    (\<forall>j < length (prog_insns prog'). j \<notin> (\<Union>d \<in> set ds. set (touched d)) \<longrightarrow>
       prog_insns prog' ! j = (prog_insns prog @ text_insns obj) ! j)"
proof -
  let ?M = "length (prog_insns prog)" and ?T = "text_insns obj" and ?maps = "obj_maps obj"
  let ?full = "prog_insns prog @ (if calls_text ds then ?T else [])"
  from assms(1) [unfolded bpf_program__relocate_def]
  obtain err p1 where p1: "(case obj_btf_ext obj of
        None \<Rightarrow> Some (0, prog)
      | Some ext \<Rightarrow> bpf_program_reloc_btf_ext (ok 0) (ok 1) prog obj ext (opt_bytes (section_name prog)) 0) = Some (err, p1)"
    and rest: "(if err \<noteq> 0 then Some (err, p1) else
        (case reloc_descs p1 of
            None \<Rightarrow> Some (0, p1)
          | Some relos \<Rightarrow> do {
              (err, prog) \<leftarrow> relocate_descs ok obj relos p1;
              Some (err, if err \<noteq> 0 then prog else prog\<lparr>reloc_descs := None\<rparr>) })) = Some (0, prog')"
    by (elim bind_SomeE) (simp only: split_paired_all prod.case)
  have err: "err = 0" using rest by (auto split: if_splits)
  have same: "same_code prog p1"
    using p1 by (cases "obj_btf_ext obj") (auto simp: same_code_def dest!: reloc_btf_ext_insns)
  then obtain p2 where p2: "relocate_descs ok obj ds p1 = Some (0, p2)" "prog_insns prog' = prog_insns p2"
    using rest err assms(2)
    by (cases "relocate_descs ok obj ds p1") (auto simp: same_code_def split: if_splits)
  have code: "prog_insns prog' = fold (apply_relo ?maps ?M) ds ?full"
  proof (cases "ds = []")
    case True
    then show ?thesis using p2 same by (simp add: same_code_def calls_text_def)
  next
    case False
    then obtain d where "d \<in> set ds" by fastforce
    then have M: "0 < ?M" using assms(5) by (fastforce simp: touched_def Let_def split: if_splits)
    have "full_code obj ?M ds p1 ?full" using same assms(3) by (simp add: full_code_def same_code_def)
    from relocate_descs_fold [OF p2(1) this M] show ?thesis using p2(2) by simp
  qed
  have inside: "\<forall>d \<in> set ds. \<forall>j \<in> set (touched d). j < length ?full"
    using assms(5) trans_less_add1 [of _ ?M] by fastforce
  have at: "prog_insns prog' ! j = apply_relo ?maps ?M d ?full ! j" if "d \<in> set ds" "j \<in> set (touched d)" for d j
    unfolding code by (rule fold_relo_at [OF assms(4) that inside])
  have other: "prog_insns prog' ! j = ?full ! j" if "j \<notin> (\<Union>d \<in> set ds. set (touched d))" for j
    unfolding code by (rule fold_relo_other [OF that])
  show ?thesis
  proof (intro conjI ballI allI impI)
    show "length (prog_insns prog') = ?M + (if calls_text ds then length ?T else 0)"
      unfolding code fold_relo_length by simp
  next
    fix j assume j: "j < length (prog_insns prog')" "j \<notin> (\<Union>d \<in> set ds. set (touched d))"
    then show "prog_insns prog' ! j = (prog_insns prog @ ?T) ! j"
      using other [OF j(2)] unfolding code fold_relo_length by (auto simp: nth_append split: if_splits)
  next
    fix d assume d: "d \<in> set ds"
    let ?i = "nat (insn_idx d)"
    have i: "?i \<in> set (touched d)" "?i < ?M" using assms(5) d by (auto simp: touched_def Let_def)
    have new: "prog_insns prog' ! ?i = apply_relo ?maps ?M d ?full ! ?i" by (rule at [OF d i(1)])
    have old: "?full ! ?i = prog_insns prog ! ?i" using i(2) by (simp add: nth_append)
    show "let i = ?i; insn = prog_insns prog ! i; new = prog_insns prog' ! i;
           fd = word_of_int (map_fd (obj_maps obj ! map_idx d)) in
       case relo_type d of
         RELO_LD64 \<Rightarrow> new = insn\<lparr>src_reg := BPF_PSEUDO_MAP_FD, imm := fd\<rparr>
       | RELO_DATA \<Rightarrow> new = insn\<lparr>src_reg := BPF_PSEUDO_MAP_VALUE, imm := fd\<rparr> \<and>
           prog_insns prog' ! (i + 1) = (prog_insns prog ! (i + 1))\<lparr>imm := imm insn + sym_off d\<rparr>
       | RELO_CALL \<Rightarrow> \<forall>c < length ?T. int c = cdiv8 (sym_off d) + sint (imm insn) + 1 \<longrightarrow>
           prog_insns prog' ! nat (int i + 1 + sint (imm new)) = ?T ! c"
    proof (cases "relo_type d")
      case RELO_LD64
      then show ?thesis using new old i(2) by (simp add: apply_relo_def Let_def)
    next
      case RELO_DATA
      then have i1: "Suc ?i \<in> set (touched d)" "Suc ?i < ?M" using assms(5) d by (auto simp: touched_def Let_def)
      have "?full ! Suc ?i = prog_insns prog ! Suc ?i" using i1(2) by (simp add: nth_append)
      then show ?thesis using new old i(2) i1(2) RELO_DATA at [OF d i1(1)]
        by (simp add: apply_relo_def Let_def)
    next
      case RELO_CALL
      let ?insn = "prog_insns prog ! ?i"
      have calls: "calls_text ds" using d RELO_CALL by (auto simp: calls_text_def)
      have int: "int ?i = insn_idx d" using assms(5) d by simp
      have im: "imm (prog_insns prog' ! ?i) = imm ?insn + word_of_int (cdiv8 (sym_off d)) + of_nat ?M - word_of_int (int ?i)"
        using new old i(2) RELO_CALL int by (simp add: apply_relo_def Let_def)
      have "prog_insns prog' ! nat (int ?i + 1 + sint (imm (prog_insns prog' ! ?i))) = ?T ! c"
        if c: "c < length ?T" "int c = cdiv8 (sym_off d) + sint (imm ?insn) + 1" for c
      proof -
        have "nat (int ?i + 1 + sint (imm (prog_insns prog' ! ?i))) = ?M + c"
          unfolding im using call_target [OF c(2,1) assms(6) i(2)] by (metis nat_int)
        moreover have "?M + c \<notin> (\<Union>d \<in> set ds. set (touched d))" using assms(5) by fastforce
        then have "prog_insns prog' ! (?M + c) = ?full ! (?M + c)" by (rule other)
        ultimately show ?thesis using calls by (simp add: nth_append)
      qed
      then show ?thesis using RELO_CALL by (simp add: Let_def)
    qed
  qed
qed

text \<open>A program that loads a map and calls the subprogram behind it.\<close>

definition rel_insn :: "u8 \<Rightarrow> u8 \<Rightarrow> u32 \<Rightarrow> bpf_insn" where
  "rel_insn c src i = \<lparr>insn_code = c, dst_reg = 0, src_reg = src, insn_off = 0, imm = i\<rparr>"

definition rel_prog :: "int \<Rightarrow> bpf_insn list \<Rightarrow> reloc_desc list option \<Rightarrow> bpf_program" where
  "rel_prog idx insns ds =
     \<lparr>prog_idx = idx, prog_name = None, section_name = None, pin_name = None, prog_insns = insns,
      main_prog_cnt = 0, reloc_descs = ds, prog_func_info = None, func_info_rec_size = 0, func_info_cnt = 0,
      prog_line_info = None, line_info_rec_size = 0, line_info_cnt = 0\<rparr>"

definition rel_descs :: "reloc_desc list" where
  "rel_descs = [\<lparr>relo_type = RELO_LD64, insn_idx = 0, map_idx = 0, sym_off = 0\<rparr>,
                \<lparr>relo_type = RELO_CALL, insn_idx = 2, map_idx = 0, sym_off = 8\<rparr>]"

definition rel_main :: bpf_program where
  "rel_main = rel_prog 3 [rel_insn 0x18 0 0, rel_insn 0 0 0, rel_insn 0x85 1 0xffffffff] (Some rel_descs)"

definition rel_text :: "bpf_insn list" where
  "rel_text = [rel_insn 0xb7 0 1, rel_insn 0xb7 0 2, rel_insn 0x95 0 0]"

definition rel_map :: bpf_map where
  "rel_map = \<lparr>map_fd = 7, map_name = [109], sec_idx = 5, sec_offset = 0, inner_map_fd = - 1,
     map_def = \<lparr>map_type = 1, key_size = 4, value_size = 4, max_entries = 1, map_flags = 0\<rparr>,
     btf_key_type_id = 0, btf_value_type_id = 0, map_libbpf_type = LIBBPF_MAP_UNSPEC, pin_path = None,
     pinned = False, reused = False\<rparr>"

definition rel_obj :: bpf_object where
  "rel_obj = \<lparr>obj_programs = [rel_prog 1 rel_text None, rel_main], obj_maps = [rel_map], has_pseudo_calls = True,
     relaxed_core_relocs = False, cap_global_data = True, maps_shndx = 5, btf_maps_shndx = - 1, text_shndx = 1,
     data_shndx = - 1, rodata_shndx = - 1, bss_shndx = - 1, obj_btf = None, obj_btf_ext = None\<rparr>"

lemma rel_run: "\<exists>p. bpf_program__relocate (\<lambda>k. True) rel_obj rel_main = Some (0, p)"
  by (simp add: bpf_program__relocate_def rel_obj_def rel_main_def rel_prog_def rel_descs_def reloc_map_insn_def
      bpf_program__reloc_text_def append_text_def Let_def)

theorem prog_relocate_exact_witness:
  "\<exists>p. bpf_program__relocate (\<lambda>k. True) rel_obj rel_main = Some (0, p) \<and> length (prog_insns p) = 6 \<and>
     prog_insns p ! 0 = rel_insn 0x18 1 7 \<and>
     prog_insns p ! nat (2 + 1 + sint (imm (prog_insns p ! 2))) = rel_insn 0xb7 0 2 \<and>
     prog_insns p ! 1 = rel_insn 0 0 0"
proof -
  obtain p where p: "bpf_program__relocate (\<lambda>k. True) rel_obj rel_main = Some (0, p)" using rel_run by blast
  have sub: "text_insns rel_obj = rel_text"
    by (simp add: text_insns_def rel_obj_def rel_prog_def)
  have main: "reloc_descs rel_main = Some rel_descs" "main_prog_cnt rel_main = 0" "length (prog_insns rel_main) = 3"
    by (simp_all add: rel_main_def rel_prog_def)
  have calls: "calls_text rel_descs" by (simp add: calls_text_def rel_descs_def)
  have apart: "distinct (concat (map touched rel_descs))"
    "\<forall>d \<in> set rel_descs. 0 \<le> insn_idx d \<and> (\<forall>j \<in> set (touched d). j < length (prog_insns rel_main))"
    by (simp_all add: rel_descs_def touched_def main)
  have small: "length (prog_insns rel_main) + length (text_insns rel_obj) < 2 ^ 31"
    by (simp add: main sub rel_text_def)
  have sint: "sint (0xffffffff :: u32) = - 1" by simp
  note exact = prog_relocate_exact [OF p main(1,2) apart small]
  have ld: "\<lparr>relo_type = RELO_LD64, insn_idx = 0, map_idx = 0, sym_off = 0\<rparr> \<in> set rel_descs"
    and call: "\<lparr>relo_type = RELO_CALL, insn_idx = 2, map_idx = 0, sym_off = 8\<rparr> \<in> set rel_descs"
    by (simp_all add: rel_descs_def)
  have len: "length (prog_insns p) = 6" using exact calls by (simp add: main sub rel_text_def)
  have "prog_insns p ! 0 = rel_insn 0x18 1 7"
    using conjunct1 [OF conjunct2 [OF exact], rule_format, OF ld]
    by (simp add: rel_main_def rel_prog_def rel_insn_def rel_obj_def rel_map_def BPF_PSEUDO_MAP_FD_def)
  moreover have "prog_insns p ! nat (2 + 1 + sint (imm (prog_insns p ! 2))) = rel_text ! 1"
    using conjunct1 [OF conjunct2 [OF exact], rule_format, OF call]
    by (simp add: rel_main_def rel_prog_def rel_insn_def sub cdiv8_def rel_text_def Let_def)
  moreover have "prog_insns p ! 1 = (prog_insns rel_main @ text_insns rel_obj) ! 1"
    using exact len by (simp add: rel_descs_def touched_def)
  ultimately show ?thesis using p len by (simp add: rel_main_def rel_prog_def rel_text_def)
qed

section \<open>What is recorded\<close>

lemma find_map_idx_Some: "find_map_idx P ms = Some i \<Longrightarrow> i < length ms \<and> P (ms ! i) \<and> (\<forall>j < i. \<not> P (ms ! j))"
proof (induction ms arbitrary: i)
  case (Cons m ms)
  then show ?case by (auto simp: less_Suc_eq_0_disj split: if_splits)
qed simp

text \<open>C19: what a recorded relocation stands for. A call is a pseudo call to an aligned place in the section of
  the subprograms; a map reference is a wide load and names the first map at exactly the place of its symbol,
  no earlier map being there; a reference to global data is a wide load and names the first map of the kind
  of the data section of its symbol, no earlier map being of that kind, with the offset in it.\<close>

theorem record_reloc_sound:
  assumes "bpf_program__record_reloc SHN_LORESERVE obj insns idx s = Some (Inr (d, call))"
  shows "unat idx < length insns \<and> insn_idx d = sint idx \<and> st_shndx s \<noteq> 0 \<and> (call \<longleftrightarrow> relo_type d = RELO_CALL) \<and>
    (let insn = insns ! unat idx; shndx = uint (st_shndx s); m = obj_maps obj ! map_idx d in
     case relo_type d of
       RELO_CALL \<Rightarrow> insn_code insn = 0x85 \<and> src_reg insn = BPF_PSEUDO_CALL \<and> shndx = text_shndx obj \<and>
         8 dvd st_value s \<and> sym_off d = ucast (st_value s)
     | RELO_LD64 \<Rightarrow> insn_code insn = 0x18 \<and> map_idx d < length (obj_maps obj) \<and>
         map_libbpf_type m = LIBBPF_MAP_UNSPEC \<and> sec_idx m = shndx \<and> sec_offset m = st_value s \<and>
         (\<forall>j < map_idx d. \<not> (map_libbpf_type (obj_maps obj ! j) = LIBBPF_MAP_UNSPEC \<and>
            sec_idx (obj_maps obj ! j) = shndx \<and> sec_offset (obj_maps obj ! j) = st_value s))
     | RELO_DATA \<Rightarrow> insn_code insn = 0x18 \<and> map_idx d < length (obj_maps obj) \<and> cap_global_data obj \<and>
         map_libbpf_type m = bpf_object__section_to_libbpf_map_type obj shndx \<and>
         map_libbpf_type m \<noteq> LIBBPF_MAP_UNSPEC \<and> sym_off d = ucast (st_value s) \<and>
         (\<forall>j < map_idx d. map_libbpf_type (obj_maps obj ! j) \<noteq> map_libbpf_type m))"
proof -
  have z: "(ucast (st_shndx s) :: u32) = 0 \<longleftrightarrow> st_shndx s = 0"
  proof -
    have "unat (ucast (st_shndx s) :: u32) = unat (st_shndx s)"
      using unsigned_less [of "st_shndx s", where ?'a = nat] by (simp add: unsigned_ucast_eq take_bit_nat_eq_self)
    then show ?thesis by (metis unsigned_eq_0_iff)
  qed
  show ?thesis
    using assms
    by (auto dest!: find_map_idx_Some simp: bpf_program__record_reloc_def Let_def z BPF_JMP_def BPF_CALL_def BPF_LD_def BPF_IMM_def BPF_DW_def
        split: if_splits option.splits)
qed

text \<open>Three maps, the last two at the place the symbol names.\<close>

definition rel_obj_maps :: bpf_object where
  "rel_obj_maps = rel_obj\<lparr>obj_maps := [rel_map\<lparr>sec_offset := 8\<rparr>, rel_map, rel_map]\<rparr>"

theorem record_reloc_sound_witness:
  "bpf_program__record_reloc 0xff00 rel_obj (prog_insns rel_main) 2
      \<lparr>st_name = None, st_bind = 0, st_shndx = 1, st_value = 8\<rparr> = Some (Inr (rel_descs ! 1, True)) \<and>
    relo_type (rel_descs ! 1) = RELO_CALL \<and> sym_off (rel_descs ! 1) = 8 \<and>
   bpf_program__record_reloc 0xff00 rel_obj_maps (prog_insns rel_main) 0
      \<lparr>st_name = None, st_bind = 0, st_shndx = 5, st_value = 0\<rparr> =
    Some (Inr (\<lparr>relo_type = RELO_LD64, insn_idx = 0, map_idx = 1, sym_off = 0\<rparr>, False)) \<and>
    sec_offset (obj_maps rel_obj_maps ! 1) = 0 \<and> sec_offset (obj_maps rel_obj_maps ! 0) \<noteq> 0"
proof -
  have r: "bpf_program__record_reloc 0xff00 rel_obj (prog_insns rel_main) 2
      \<lparr>st_name = None, st_bind = 0, st_shndx = 1, st_value = 8\<rparr> = Some (Inr (rel_descs ! 1, True))"
    by (simp add: bpf_program__record_reloc_def rel_obj_def rel_main_def rel_prog_def rel_insn_def rel_descs_def
        BPF_JMP_def BPF_CALL_def BPF_PSEUDO_CALL_def Let_def)
  have m: "bpf_program__record_reloc 0xff00 rel_obj_maps (prog_insns rel_main) 0
      \<lparr>st_name = None, st_bind = 0, st_shndx = 5, st_value = 0\<rparr> =
    Some (Inr (\<lparr>relo_type = RELO_LD64, insn_idx = 0, map_idx = 1, sym_off = 0\<rparr>, False))"
    by (simp add: bpf_program__record_reloc_def rel_obj_maps_def rel_obj_def rel_main_def rel_prog_def rel_insn_def
        rel_descs_def rel_map_def BPF_JMP_def BPF_CALL_def BPF_LD_def BPF_IMM_def BPF_DW_def Let_def
        bpf_object__section_to_libbpf_map_type_def bpf_object__shndx_is_maps_def bpf_object__shndx_is_data_def)
  have "sec_offset (obj_maps rel_obj_maps ! 0) \<noteq> 0" by (simp add: rel_obj_maps_def rel_obj_def)
  with record_reloc_sound [OF r] record_reloc_sound [OF m] show ?thesis
    using r m by (simp add: rel_descs_def Let_def)
qed

end
