(* ===== verification/Btf_Shape.thy ===== *)
theory Btf_Shape
  imports Btf
begin

text \<open>
  Types as the deduplication sees them, \<open>libbpf/src/btf.c\<close> lines 1736 to 2005: signature hashes and the
  comparisons of two types. A type is its \<open>struct btf_type\<close> with the 32-bit words that follow it, and the
  types of the data form an array that is indexed by type id, with the void type at 0. A read past the words
  of a type is \<open>None\<close>. The second part states when two ids, possibly of two arrays, stand for the same type.
\<close>

section \<open>Types and their references\<close>

type_synonym bnode = "btf_type \<times> u32 list"

definition word_at :: "bnode \<Rightarrow> nat \<Rightarrow> u32 option" where
  "word_at n k = (if k < length (snd n) then Some (snd n ! k) else None)"

definition vlen_of :: "bnode \<Rightarrow> nat" where "vlen_of n = unat (btf_vlen (fst n))"

text \<open>
  A type id inside a type: the union of \<open>size\<close> and \<open>type\<close>, or one of the words. Members have three words
  (name, type, offset), enumerators and parameters two (name, value or type), an array three (type, index
  type, number of elements), a variable of a data section three (type, offset, size).
\<close>

datatype slot = SizeType | SlotWord nat

definition ref_slots :: "bnode \<Rightarrow> slot list" where
  "ref_slots n =
     (let kind = btf_kind (fst n); vlen = vlen_of n in
      if kind = BTF_KIND_FWD \<or> kind = BTF_KIND_CONST \<or> kind = BTF_KIND_VOLATILE \<or>
         kind = BTF_KIND_RESTRICT \<or> kind = BTF_KIND_PTR \<or> kind = BTF_KIND_TYPEDEF \<or>
         kind = BTF_KIND_FUNC \<or> kind = BTF_KIND_VAR then [SizeType]
      else if kind = BTF_KIND_ARRAY then [SlotWord 0, SlotWord 1]
      else if kind = BTF_KIND_STRUCT \<or> kind = BTF_KIND_UNION then map (\<lambda>i. SlotWord (3 * i + 1)) [0..<vlen]
      else if kind = BTF_KIND_FUNC_PROTO then SizeType # map (\<lambda>i. SlotWord (2 * i + 1)) [0..<vlen]
      else if kind = BTF_KIND_DATASEC then map (\<lambda>i. SlotWord (3 * i)) [0..<vlen]
      else [])"

fun get_slot :: "bnode \<Rightarrow> slot \<Rightarrow> u32 option" where
  "get_slot n SizeType = Some (size_type (fst n))"
| "get_slot n (SlotWord k) = word_at n k"

fun put_slot :: "bnode \<Rightarrow> slot \<Rightarrow> u32 \<Rightarrow> bnode" where
  "put_slot n SizeType v = ((fst n)\<lparr>size_type := v\<rparr>, snd n)"
| "put_slot n (SlotWord k) v = (fst n, (snd n)[k := v])"

section \<open>Signature hashes\<close>

definition hash_combine :: "u64 \<Rightarrow> u64 \<Rightarrow> u64" where
  "hash_combine h value = h * 31 + value"

text \<open>The words at the given places, one after the other.\<close>

fun hash_words :: "bnode \<Rightarrow> nat list \<Rightarrow> u64 \<Rightarrow> u64 option" where
  "hash_words n [] h = Some h"
| "hash_words n (k # ks) h =
     do { w \<leftarrow> word_at n k; hash_words n ks (hash_combine h (ucast w)) }"

definition btf_hash_common :: "bnode \<Rightarrow> u64" where
  "btf_hash_common n =
     (let h = hash_combine 0 (ucast (name_off (fst n)));
          h = hash_combine h (ucast (info (fst n)))
      in hash_combine h (ucast (size_type (fst n))))"

definition btf_hash_int :: "bnode \<Rightarrow> u64 option" where
  "btf_hash_int n = hash_words n [0] (btf_hash_common n)"

definition btf_hash_enum :: "bnode \<Rightarrow> u64" where
  "btf_hash_enum n =
     (let h = hash_combine 0 (ucast (name_off (fst n)));
          h = hash_combine h (ucast (and (info (fst n)) (not 0xffff)))
      in hash_combine h (ucast (size_type (fst n))))"

definition member_words :: "bnode \<Rightarrow> nat list" where
  "member_words n = concat (map (\<lambda>i. [3 * i, 3 * i + 2]) [0..<vlen_of n])"

definition btf_hash_struct :: "bnode \<Rightarrow> u64 option" where
  "btf_hash_struct n = hash_words n (member_words n) (btf_hash_common n)"

definition btf_hash_array :: "bnode \<Rightarrow> u64 option" where
  "btf_hash_array n = hash_words n [0, 1, 2] (btf_hash_common n)"

definition btf_hash_fnproto :: "bnode \<Rightarrow> u64 option" where
  "btf_hash_fnproto n = hash_words n [0..<2 * vlen_of n] (btf_hash_common n)"

section \<open>Comparisons\<close>

definition btf_equal_common :: "bnode \<Rightarrow> bnode \<Rightarrow> bool" where
  "btf_equal_common t1 t2 \<longleftrightarrow>
     name_off (fst t1) = name_off (fst t2) \<and> info (fst t1) = info (fst t2) \<and>
     size_type (fst t1) = size_type (fst t2)"

text \<open>The words at the given places; the first difference ends the comparison.\<close>

fun words_eq :: "bnode \<Rightarrow> bnode \<Rightarrow> nat list \<Rightarrow> bool option" where
  "words_eq t1 t2 [] = Some True"
| "words_eq t1 t2 (k # ks) =
     do {
       a \<leftarrow> word_at t1 k;
       b \<leftarrow> word_at t2 k;
       if a \<noteq> b then Some False else words_eq t1 t2 ks
     }"

definition btf_equal_int :: "bnode \<Rightarrow> bnode \<Rightarrow> bool option" where
  "btf_equal_int t1 t2 = (if \<not> btf_equal_common t1 t2 then Some False else words_eq t1 t2 [0])"

definition btf_equal_enum :: "bnode \<Rightarrow> bnode \<Rightarrow> bool option" where
  "btf_equal_enum t1 t2 =
     (if \<not> btf_equal_common t1 t2 then Some False else words_eq t1 t2 [0..<2 * vlen_of t1])"

definition btf_is_enum_fwd :: "bnode \<Rightarrow> bool" where
  "btf_is_enum_fwd t \<longleftrightarrow> btf_kind (fst t) = BTF_KIND_ENUM \<and> btf_vlen (fst t) = 0"

definition btf_compat_enum :: "bnode \<Rightarrow> bnode \<Rightarrow> bool option" where
  "btf_compat_enum t1 t2 =
     (if \<not> btf_is_enum_fwd t1 \<and> \<not> btf_is_enum_fwd t2 then btf_equal_enum t1 t2
      else Some (name_off (fst t1) = name_off (fst t2) \<and>
                 and (info (fst t1)) (not 0xffff) = and (info (fst t2)) (not 0xffff) \<and>
                 size_type (fst t1) = size_type (fst t2)))"

definition btf_shallow_equal_struct :: "bnode \<Rightarrow> bnode \<Rightarrow> bool option" where
  "btf_shallow_equal_struct t1 t2 =
     (if \<not> btf_equal_common t1 t2 then Some False else words_eq t1 t2 (member_words t1))"

definition btf_equal_array :: "bnode \<Rightarrow> bnode \<Rightarrow> bool option" where
  "btf_equal_array t1 t2 =
     (if \<not> btf_equal_common t1 t2 then Some False else words_eq t1 t2 [0, 1, 2])"

definition btf_compat_array :: "bnode \<Rightarrow> bnode \<Rightarrow> bool option" where
  "btf_compat_array t1 t2 =
     (if \<not> btf_equal_common t1 t2 then Some False else words_eq t1 t2 [2])"

definition btf_equal_fnproto :: "bnode \<Rightarrow> bnode \<Rightarrow> bool option" where
  "btf_equal_fnproto t1 t2 =
     (if \<not> btf_equal_common t1 t2 then Some False else words_eq t1 t2 [0..<2 * vlen_of t1])"

definition btf_compat_fnproto :: "bnode \<Rightarrow> bnode \<Rightarrow> bool option" where
  "btf_compat_fnproto t1 t2 =
     (if name_off (fst t1) \<noteq> name_off (fst t2) \<or> info (fst t1) \<noteq> info (fst t2) then Some False
      else words_eq t1 t2 (map (\<lambda>i. 2 * i) [0..<vlen_of t1]))"

definition btf_fwd_kind :: "btf_type \<Rightarrow> u16" where
  "btf_fwd_kind t = (if btf_kflag t then BTF_KIND_UNION else BTF_KIND_STRUCT)"

section \<open>Well-formed types\<close>

text \<open>A type of a known kind with as many words as its kind and number of members say (\<open>entry_ok\<close>).\<close>

definition kind_words :: "btf_type \<Rightarrow> nat option" where
  "kind_words t =
     (let kind = btf_kind t; vlen = unat (btf_vlen t) in
      if kind = BTF_KIND_FWD \<or> kind = BTF_KIND_CONST \<or> kind = BTF_KIND_VOLATILE \<or>
         kind = BTF_KIND_RESTRICT \<or> kind = BTF_KIND_PTR \<or> kind = BTF_KIND_TYPEDEF \<or>
         kind = BTF_KIND_FUNC then Some 0
      else if kind = BTF_KIND_INT then Some 1
      else if kind = BTF_KIND_ENUM then Some (2 * vlen)
      else if kind = BTF_KIND_ARRAY then Some 3
      else if kind = BTF_KIND_STRUCT \<or> kind = BTF_KIND_UNION then Some (3 * vlen)
      else if kind = BTF_KIND_FUNC_PROTO then Some (2 * vlen)
      else if kind = BTF_KIND_VAR then Some 1
      else if kind = BTF_KIND_DATASEC then Some (3 * vlen)
      else None)"

lemma btf_type_size_words:
  "btf_type_size t = (case kind_words t of None \<Rightarrow> - EINVAL | Some k \<Rightarrow> 12 + 4 * int k)"
proof -
  define c where "c = (\<lambda>k. k = BTF_KIND_FWD \<or> k = BTF_KIND_CONST \<or> k = BTF_KIND_VOLATILE \<or>
      k = BTF_KIND_RESTRICT \<or> k = BTF_KIND_PTR \<or> k = BTF_KIND_TYPEDEF \<or> k = BTF_KIND_FUNC)"
  have vl: "uint (btf_vlen t) = int (unat (btf_vlen t))" by simp
  show ?thesis
    unfolding btf_type_size_def kind_words_def Let_def vl c_def [symmetric]
    by (cases "c (btf_kind t)"; cases "btf_kind t = BTF_KIND_INT"; cases "btf_kind t = BTF_KIND_ENUM";
        cases "btf_kind t = BTF_KIND_ARRAY";
        cases "btf_kind t = BTF_KIND_STRUCT \<or> btf_kind t = BTF_KIND_UNION";
        cases "btf_kind t = BTF_KIND_FUNC_PROTO"; cases "btf_kind t = BTF_KIND_VAR";
        cases "btf_kind t = BTF_KIND_DATASEC") (simp_all only: if_True if_False option.case, simp_all)
qed

lemma entry_ok_words: "entry_ok n \<longleftrightarrow> kind_words (fst n) = Some (length (snd n))"
  by (auto simp: entry_ok_def btf_type_size_words split: option.splits)

section \<open>Facts on the comparisons\<close>

lemma words_eq_True:
  "words_eq a b ks = Some True \<longleftrightarrow>
     (\<forall>k \<in> set ks. k < length (snd a) \<and> k < length (snd b) \<and> snd a ! k = snd b ! k)"
  by (induction ks) (auto simp: word_at_def split: Option.bind_splits if_splits)

lemma words_eq_total:
  "\<forall>k \<in> set ks. k < length (snd a) \<and> k < length (snd b) \<Longrightarrow> words_eq a b ks \<noteq> None"
  by (induction ks) (auto simp: word_at_def)

lemma hash_words_total: "\<forall>k \<in> set ks. k < length (snd a) \<Longrightarrow> hash_words a ks h \<noteq> None"
  by (induction ks arbitrary: h) (auto simp: word_at_def)

declare words_eq.simps [simp del] hash_words.simps [simp del]

lemma btf_kind_cong: "info a = info b \<Longrightarrow> btf_kind a = btf_kind b \<and> btf_vlen a = btf_vlen b"
  by (simp add: btf_kind_def btf_vlen_def)

lemma vlen_of_cong: "info (fst a) = info (fst b) \<Longrightarrow> vlen_of a = vlen_of b"
  by (simp add: vlen_of_def btf_vlen_def)

lemma kind_words_cong: "info a = info b \<Longrightarrow> kind_words a = kind_words b"
  using btf_kind_cong [of a b] unfolding kind_words_def by simp

lemma entry_ok_length_cong:
  "entry_ok a \<Longrightarrow> entry_ok b \<Longrightarrow> info (fst a) = info (fst b) \<Longrightarrow> length (snd a) = length (snd b)"
  using kind_words_cong [of "fst a" "fst b"] by (simp add: entry_ok_words)

text \<open>Two types that agree in the common part and in all words are the same.\<close>

lemma bnode_eqI:
  assumes "entry_ok a" "entry_ok b" "btf_equal_common a b"
    "\<And>k. k < length (snd a) \<Longrightarrow> snd a ! k = snd b ! k"
  shows "a = b"
proof -
  have "fst a = fst b" using assms(3) by (simp add: btf_equal_common_def)
  moreover have "snd a = snd b"
    using assms entry_ok_length_cong [of a b] by (intro nth_equalityI) (auto simp: btf_equal_common_def)
  ultimately show ?thesis by (simp add: prod_eq_iff)
qed

lemma kind_words_simps:
  "btf_kind t = BTF_KIND_INT \<Longrightarrow> kind_words t = Some 1"
  "btf_kind t = BTF_KIND_ENUM \<Longrightarrow> kind_words t = Some (2 * unat (btf_vlen t))"
  "btf_kind t = BTF_KIND_ARRAY \<Longrightarrow> kind_words t = Some 3"
  "btf_kind t = BTF_KIND_STRUCT \<Longrightarrow> kind_words t = Some (3 * unat (btf_vlen t))"
  "btf_kind t = BTF_KIND_UNION \<Longrightarrow> kind_words t = Some (3 * unat (btf_vlen t))"
  "btf_kind t = BTF_KIND_FUNC_PROTO \<Longrightarrow> kind_words t = Some (2 * unat (btf_vlen t))"
  "btf_kind t = BTF_KIND_VAR \<Longrightarrow> kind_words t = Some 1"
  "btf_kind t = BTF_KIND_DATASEC \<Longrightarrow> kind_words t = Some (3 * unat (btf_vlen t))"
  "btf_kind t = BTF_KIND_FWD \<Longrightarrow> kind_words t = Some 0"
  "btf_kind t = BTF_KIND_CONST \<Longrightarrow> kind_words t = Some 0"
  "btf_kind t = BTF_KIND_VOLATILE \<Longrightarrow> kind_words t = Some 0"
  "btf_kind t = BTF_KIND_RESTRICT \<Longrightarrow> kind_words t = Some 0"
  "btf_kind t = BTF_KIND_PTR \<Longrightarrow> kind_words t = Some 0"
  "btf_kind t = BTF_KIND_TYPEDEF \<Longrightarrow> kind_words t = Some 0"
  "btf_kind t = BTF_KIND_FUNC \<Longrightarrow> kind_words t = Some 0"
  by (simp_all add: kind_words_def btf_kinds)

lemma ref_slots_simps:
  "btf_kind (fst n) = BTF_KIND_INT \<Longrightarrow> ref_slots n = []"
  "btf_kind (fst n) = BTF_KIND_ENUM \<Longrightarrow> ref_slots n = []"
  "btf_kind (fst n) = BTF_KIND_ARRAY \<Longrightarrow> ref_slots n = [SlotWord 0, SlotWord 1]"
  "btf_kind (fst n) = BTF_KIND_STRUCT \<Longrightarrow> ref_slots n = map (\<lambda>i. SlotWord (3 * i + 1)) [0..<vlen_of n]"
  "btf_kind (fst n) = BTF_KIND_UNION \<Longrightarrow> ref_slots n = map (\<lambda>i. SlotWord (3 * i + 1)) [0..<vlen_of n]"
  "btf_kind (fst n) = BTF_KIND_FUNC_PROTO \<Longrightarrow>
     ref_slots n = SizeType # map (\<lambda>i. SlotWord (2 * i + 1)) [0..<vlen_of n]"
  "btf_kind (fst n) = BTF_KIND_VAR \<Longrightarrow> ref_slots n = [SizeType]"
  "btf_kind (fst n) = BTF_KIND_DATASEC \<Longrightarrow> ref_slots n = map (\<lambda>i. SlotWord (3 * i)) [0..<vlen_of n]"
  "btf_kind (fst n) = BTF_KIND_FWD \<Longrightarrow> ref_slots n = [SizeType]"
  "btf_kind (fst n) = BTF_KIND_CONST \<Longrightarrow> ref_slots n = [SizeType]"
  "btf_kind (fst n) = BTF_KIND_VOLATILE \<Longrightarrow> ref_slots n = [SizeType]"
  "btf_kind (fst n) = BTF_KIND_RESTRICT \<Longrightarrow> ref_slots n = [SizeType]"
  "btf_kind (fst n) = BTF_KIND_PTR \<Longrightarrow> ref_slots n = [SizeType]"
  "btf_kind (fst n) = BTF_KIND_TYPEDEF \<Longrightarrow> ref_slots n = [SizeType]"
  "btf_kind (fst n) = BTF_KIND_FUNC \<Longrightarrow> ref_slots n = [SizeType]"
  by (simp_all add: ref_slots_def btf_kinds)

lemma kind_cases:
  assumes "entry_ok n"
  obtains (int) "btf_kind (fst n) = BTF_KIND_INT" | (enum) "btf_kind (fst n) = BTF_KIND_ENUM"
    | (array) "btf_kind (fst n) = BTF_KIND_ARRAY"
    | (struct) "btf_kind (fst n) = BTF_KIND_STRUCT \<or> btf_kind (fst n) = BTF_KIND_UNION"
    | (proto) "btf_kind (fst n) = BTF_KIND_FUNC_PROTO" | (var) "btf_kind (fst n) = BTF_KIND_VAR"
    | (datasec) "btf_kind (fst n) = BTF_KIND_DATASEC" | (fwd) "btf_kind (fst n) = BTF_KIND_FWD"
    | (modifier) "btf_kind (fst n) = BTF_KIND_CONST \<or> btf_kind (fst n) = BTF_KIND_VOLATILE \<or>
        btf_kind (fst n) = BTF_KIND_RESTRICT \<or> btf_kind (fst n) = BTF_KIND_PTR \<or>
        btf_kind (fst n) = BTF_KIND_TYPEDEF \<or> btf_kind (fst n) = BTF_KIND_FUNC"
proof (rule ccontr)
  assume no: "\<not> thesis"
  have k0: "btf_kind (fst n) \<noteq> BTF_KIND_INT" using no int by blast
  have k1: "btf_kind (fst n) \<noteq> BTF_KIND_ENUM" using no enum by blast
  have k2: "btf_kind (fst n) \<noteq> BTF_KIND_ARRAY" using no array by blast
  have k3: "btf_kind (fst n) \<noteq> BTF_KIND_STRUCT" using no struct by blast
  have k4: "btf_kind (fst n) \<noteq> BTF_KIND_UNION" using no struct by blast
  have k5: "btf_kind (fst n) \<noteq> BTF_KIND_FUNC_PROTO" using no proto by blast
  have k6: "btf_kind (fst n) \<noteq> BTF_KIND_VAR" using no var by blast
  have k7: "btf_kind (fst n) \<noteq> BTF_KIND_DATASEC" using no datasec by blast
  have k8: "btf_kind (fst n) \<noteq> BTF_KIND_FWD" using no fwd by blast
  have k9: "btf_kind (fst n) \<noteq> BTF_KIND_CONST" using no modifier by blast
  have k10: "btf_kind (fst n) \<noteq> BTF_KIND_VOLATILE" using no modifier by blast
  have k11: "btf_kind (fst n) \<noteq> BTF_KIND_RESTRICT" using no modifier by blast
  have k12: "btf_kind (fst n) \<noteq> BTF_KIND_PTR" using no modifier by blast
  have k13: "btf_kind (fst n) \<noteq> BTF_KIND_TYPEDEF" using no modifier by blast
  have k14: "btf_kind (fst n) \<noteq> BTF_KIND_FUNC" using no modifier by blast
  have "kind_words (fst n) = None"
    unfolding kind_words_def Let_def by (simp only: k0 k1 k2 k3 k4 k5 k6 k7 k8 k9 k10 k11 k12 k13 k14 simp_thms if_False)
  then show False using assms by (simp add: entry_ok_words)
qed

lemma ref_slots_cong: "info (fst a) = info (fst b) \<Longrightarrow> ref_slots a = ref_slots b"
  using btf_kind_cong [of "fst a" "fst b"] vlen_of_cong [of a b] unfolding ref_slots_def by simp

text \<open>The places of the type ids are different words of the type.\<close>

lemma ref_slots_fit:
  assumes "entry_ok n" "SlotWord k \<in> set (ref_slots n)"
  shows "k < length (snd n)"
  using assms(1)
proof (cases rule: kind_cases)
  case struct
  then have "length (snd n) = 3 * vlen_of n"
    using assms(1) by (auto simp: entry_ok_words kind_words_simps vlen_of_def)
  then show ?thesis using assms(2) struct by (auto simp: ref_slots_simps)
qed (use assms in \<open>auto simp: entry_ok_words kind_words_simps ref_slots_simps vlen_of_def\<close>)

lemma ref_slots_distinct: "distinct (ref_slots n)"
  unfolding ref_slots_def Let_def by (auto simp: distinct_map inj_on_def)

section \<open>When two ids stand for the same type\<close>

text \<open>The type ids that a type refers to, and what it says apart from them.\<close>

definition refs :: "bnode \<Rightarrow> u32 list" where
  "refs n = map (\<lambda>s. the (get_slot n s)) (ref_slots n)"

definition same_shape :: "bnode \<Rightarrow> bnode \<Rightarrow> bool" where
  "same_shape a b \<longleftrightarrow>
     name_off (fst a) = name_off (fst b) \<and> info (fst a) = info (fst b) \<and>
     (SizeType \<notin> set (ref_slots a) \<longrightarrow> size_type (fst a) = size_type (fst b)) \<and>
     length (snd a) = length (snd b) \<and>
     (\<forall>k < length (snd a). SlotWord k \<notin> set (ref_slots a) \<longrightarrow> snd a ! k = snd b ! k)"

text \<open>
  Two ids stand for the same type when their types agree apart from the references, and the references
  again stand for the same types, however deep. Types refer to each other in cycles, so this is the
  largest such relation. An id outside the array agrees only with an id outside the other array.
\<close>

coinductive same_type :: "bnode list \<Rightarrow> bnode list \<Rightarrow> u32 \<Rightarrow> u32 \<Rightarrow> bool" for G H where
  same_node: "unat i < length G \<Longrightarrow> unat j < length H \<Longrightarrow> same_shape (G ! unat i) (H ! unat j) \<Longrightarrow>
    \<forall>k < length (refs (G ! unat i)).
      same_type G H (refs (G ! unat i) ! k) (refs (H ! unat j) ! k) \<Longrightarrow> same_type G H i j"
| same_dangling: "length G \<le> unat i \<Longrightarrow> length H \<le> unat j \<Longrightarrow> same_type G H i j"

lemma same_shape_refl [simp]: "same_shape a a"
  by (simp add: same_shape_def)

lemma same_shape_info: "same_shape a b \<Longrightarrow> info (fst a) = info (fst b)"
  by (simp add: same_shape_def)

lemma same_shape_slots: "same_shape a b \<Longrightarrow> ref_slots a = ref_slots b"
  by (rule ref_slots_cong) (rule same_shape_info)

lemma same_shape_kind:
  "same_shape a b \<Longrightarrow> btf_kind (fst a) = btf_kind (fst b) \<and> btf_vlen (fst a) = btf_vlen (fst b)"
  by (rule btf_kind_cong) (rule same_shape_info)

lemma same_shape_sym:
  assumes "same_shape a b"
  shows "same_shape b a"
  using assms unfolding same_shape_def same_shape_slots [OF assms] by metis

lemma same_shape_trans:
  assumes "same_shape a b" "same_shape b c"
  shows "same_shape a c"
  using assms unfolding same_shape_def same_shape_slots [OF assms(1)] by metis

lemma same_shape_length_refs: "same_shape a b \<Longrightarrow> length (refs a) = length (refs b)"
  by (simp add: refs_def same_shape_slots)

lemma same_shape_entry_ok: "same_shape a b \<Longrightarrow> entry_ok a \<Longrightarrow> entry_ok b"
  using kind_words_cong [of "fst a" "fst b"] by (auto simp: entry_ok_words same_shape_def)

lemma same_type_refl: "same_type G G i i"
proof (coinduction arbitrary: i)
  case same_type
  show ?case by (cases "unat i < length G") auto
qed

lemma same_type_sym:
  assumes "same_type G H i j"
  shows "same_type H G j i"
  using assms
proof (coinduction arbitrary: i j)
  case same_type
  then show ?case
  proof cases
    case same_node
    then show ?thesis
      using same_shape_sym [OF same_node(3)] same_shape_length_refs [OF same_node(3)] by auto
  qed auto
qed

lemma same_type_trans:
  assumes "same_type G H i j" "same_type H K j k"
  shows "same_type G K i k"
  using assms
proof (coinduction arbitrary: i j k)
  case same_type
  from same_type(1) show ?case
  proof cases
    case same_node
    note l = same_node
    from same_type(2) show ?thesis
    proof cases
      case same_node
      then show ?thesis
        using l same_shape_trans [OF l(3) same_node(3)] same_shape_length_refs [OF l(3)] by auto
    qed (use l in auto)
  next
    case same_dangling
    then show ?thesis using same_type(2) by (auto elim: same_type.cases)
  qed
qed

lemma same_type_nodes:
  assumes "same_type G H i j" "unat i < length G"
  shows "unat j < length H" "same_shape (G ! unat i) (H ! unat j)"
    "k < length (refs (G ! unat i)) \<Longrightarrow> same_type G H (refs (G ! unat i) ! k) (refs (H ! unat j) ! k)"
  using assms by (auto elim: same_type.cases)

text \<open>An array whose types keep their shape, with references that still stand for the same types.\<close>

definition same_graph :: "bnode list \<Rightarrow> bnode list \<Rightarrow> bool" where
  "same_graph G H \<longleftrightarrow> length G = length H \<and>
     (\<forall>i < length G. same_shape (G ! i) (H ! i) \<and>
        (\<forall>k < length (refs (G ! i)). same_type G G (refs (G ! i) ! k) (refs (H ! i) ! k)))"

lemma same_graph_refl [simp]: "same_graph G G"
  by (simp add: same_graph_def same_type_refl)

lemma same_typeI:
  assumes "same_graph G H" "unat i < length G" "unat j < length G"
    "same_shape (H ! unat i) (H ! unat j)"
    "\<And>k. k < length (refs (H ! unat i)) \<Longrightarrow> same_type G G (refs (H ! unat i) ! k) (refs (H ! unat j) ! k)"
  shows "same_type G G i j"
proof (rule same_type.intros(1) [OF assms(2,3)])
  have i: "same_shape (G ! unat i) (H ! unat i)" and j: "same_shape (H ! unat j) (G ! unat j)"
    using assms(1-3) same_shape_sym by (auto simp: same_graph_def)
  then show "same_shape (G ! unat i) (G ! unat j)"
    using same_shape_trans assms(4) by blast
  have len: "length (refs (G ! unat i)) = length (refs (H ! unat i))"
    "length (refs (G ! unat j)) = length (refs (H ! unat i))"
    using i j same_shape_length_refs assms(4) by metis+
  show "\<forall>k < length (refs (G ! unat i)). same_type G G (refs (G ! unat i) ! k) (refs (G ! unat j) ! k)"
  proof safe
    fix k assume k: "k < length (refs (G ! unat i))"
    have "same_type G G (refs (G ! unat i) ! k) (refs (H ! unat i) ! k)"
      "same_type G G (refs (G ! unat j) ! k) (refs (H ! unat j) ! k)"
      using assms(1-3) k len by (simp_all add: same_graph_def)
    moreover have "same_type G G (refs (H ! unat i) ! k) (refs (H ! unat j) ! k)"
      using assms(5) k len by simp
    ultimately show "same_type G G (refs (G ! unat i) ! k) (refs (G ! unat j) ! k)"
      by (meson same_type_sym same_type_trans)
  qed
qed

section \<open>Comparisons and stores in terms of shapes\<close>

lemma get_slot_fits:
  assumes "entry_ok n" "s \<in> set (ref_slots n)"
  shows "\<exists>v. get_slot n s = Some v"
  using ref_slots_fit [OF assms(1)] assms(2) by (cases s) (auto simp: word_at_def)

lemma put_slot_info [simp]: "info (fst (put_slot n s v)) = info (fst n)"
  by (cases s) simp_all

lemma ref_slots_put [simp]: "ref_slots (put_slot n s v) = ref_slots n"
  by (rule ref_slots_cong) simp

lemma put_slot_shape:
  assumes "s \<in> set (ref_slots n)"
  shows "same_shape n (put_slot n s v)"
  by (cases s) (use assms in \<open>auto simp: same_shape_def nth_list_update_cases\<close>)

lemma get_put_slot:
  assumes "get_slot n s \<noteq> None"
  shows "get_slot (put_slot n s v) s' = (if s = s' then Some v else get_slot n s')"
  using assms by (cases s; cases s') (auto simp: word_at_def split: if_splits)

lemma refs_nth: "k < length (ref_slots n) \<Longrightarrow> refs n ! k = the (get_slot n (ref_slots n ! k))"
  by (simp add: refs_def)

lemma length_refs: "length (refs n) = length (ref_slots n)"
  by (simp add: refs_def)

text \<open>Storing into the place of one reference changes that reference only.\<close>

lemma refs_put_slot:
  assumes "entry_ok n" "j < length (ref_slots n)"
  shows "refs (put_slot n (ref_slots n ! j) v) = (refs n)[j := v]"
proof (rule nth_equalityI)
  fix k assume k: "k < length (refs (put_slot n (ref_slots n ! j) v))"
  have "get_slot n (ref_slots n ! j) \<noteq> None"
    using get_slot_fits [OF assms(1) nth_mem [OF assms(2)]] by auto
  moreover have "ref_slots n ! j = ref_slots n ! k \<longleftrightarrow> j = k"
    using ref_slots_distinct assms(2) k by (simp add: nth_eq_iff_index_eq length_refs)
  ultimately show "refs (put_slot n (ref_slots n ! j) v) ! k = (refs n)[j := v] ! k"
    using k assms(2) by (simp add: refs_nth length_refs get_put_slot)
qed (simp add: length_refs)

text \<open>Types found equal are equal, types found compatible have the same shape.\<close>

lemma vlen_words: "entry_ok a \<Longrightarrow> kind_words (fst a) = Some (length (snd a))"
  by (simp add: entry_ok_words)

lemma equal_int_eq:
  assumes "entry_ok a" "entry_ok b" "btf_kind (fst a) = BTF_KIND_INT" "btf_equal_int a b = Some True"
  shows "a = b"
proof (rule bnode_eqI [OF assms(1,2)])
  fix k assume "k < length (snd a)"
  then have "k = 0" using vlen_words [OF assms(1)] assms(3) by (auto simp: kind_words_simps)
  then show "snd a ! k = snd b ! k"
    using assms(4) by (auto simp: btf_equal_int_def words_eq_True split: if_splits)
qed (use assms(4) in \<open>auto simp: btf_equal_int_def split: if_splits\<close>)

lemma equal_enum_eq:
  assumes "entry_ok a" "entry_ok b" "btf_kind (fst a) = BTF_KIND_ENUM" "btf_equal_enum a b = Some True"
  shows "a = b"
  using assms vlen_words [OF assms(1)]
  by (intro bnode_eqI)
     (auto simp: btf_equal_enum_def words_eq_True kind_words_simps vlen_of_def split: if_splits)

lemma equal_array_eq:
  assumes "entry_ok a" "entry_ok b" "btf_kind (fst a) = BTF_KIND_ARRAY" "btf_equal_array a b = Some True"
  shows "a = b"
proof (rule bnode_eqI [OF assms(1,2)])
  fix k assume "k < length (snd a)"
  then have "k \<in> set [0, 1, 2]" using vlen_words [OF assms(1)] assms(3) by (auto simp: kind_words_simps)
  then show "snd a ! k = snd b ! k"
    using assms(4) by (auto simp: btf_equal_array_def words_eq_True split: if_splits)
qed (use assms(4) in \<open>auto simp: btf_equal_array_def split: if_splits\<close>)

lemma equal_fnproto_eq:
  assumes "entry_ok a" "entry_ok b" "btf_kind (fst a) = BTF_KIND_FUNC_PROTO"
    "btf_equal_fnproto a b = Some True"
  shows "a = b"
  using assms vlen_words [OF assms(1)]
  by (intro bnode_eqI)
     (auto simp: btf_equal_fnproto_def words_eq_True kind_words_simps vlen_of_def split: if_splits)

lemma equal_common_eq:
  assumes "entry_ok a" "entry_ok b" "kind_words (fst a) = Some 0" "btf_equal_common a b"
  shows "a = b"
  using assms vlen_words [OF assms(1)] by (intro bnode_eqI) auto

lemma shallow_struct_shape:
  assumes "entry_ok a" "entry_ok b" "btf_kind (fst a) = BTF_KIND_STRUCT \<or> btf_kind (fst a) = BTF_KIND_UNION"
    "btf_shallow_equal_struct a b = Some True"
  shows "same_shape a b"
proof -
  have c: "btf_equal_common a b" and w: "words_eq a b (member_words a) = Some True"
    using assms(4) by (auto simp: btf_shallow_equal_struct_def split: if_splits)
  have l: "length (snd a) = 3 * vlen_of a"
    using assms(3) vlen_words [OF assms(1)] by (auto simp: kind_words_simps vlen_of_def)
  have r: "ref_slots a = map (\<lambda>i. SlotWord (3 * i + 1)) [0..<vlen_of a]"
    using assms(3) by (auto simp: ref_slots_simps)
  have "snd a ! k = snd b ! k" if k: "k < length (snd a)" "SlotWord k \<notin> set (ref_slots a)" for k
  proof -
    have "k mod 3 \<noteq> 1"
    proof
      assume m: "k mod 3 = 1"
      have "k = 3 * (k div 3) + 1" using m by presburger
      then have "SlotWord k \<in> set (ref_slots a)"
        unfolding r using k(1) l by (auto intro!: image_eqI [of _ _ "k div 3"])
      then show False using k(2) by simp
    qed
    then have "k \<in> {3 * (k div 3), 3 * (k div 3) + 2}" by simp presburger
    moreover have "k div 3 < vlen_of a" using k(1) l by simp
    ultimately have "k \<in> set (member_words a)" unfolding member_words_def by fastforce
    then show ?thesis using w by (simp add: words_eq_True)
  qed
  then show ?thesis
    using c entry_ok_length_cong [OF assms(1,2)] by (simp add: same_shape_def btf_equal_common_def)
qed

lemma compat_array_shape:
  assumes "entry_ok a" "entry_ok b" "btf_kind (fst a) = BTF_KIND_ARRAY" "btf_compat_array a b = Some True"
  shows "same_shape a b"
proof -
  have c: "btf_equal_common a b" and w: "words_eq a b [2] = Some True"
    using assms(4) by (auto simp: btf_compat_array_def split: if_splits)
  have "length (snd a) = 3" using assms(3) vlen_words [OF assms(1)] by (auto simp: kind_words_simps)
  moreover have "snd a ! k = snd b ! k" if "k < 3" "k \<noteq> 0" "k \<noteq> 1" for k
    using w that by (cases "k = 2") (auto simp: words_eq_True)
  ultimately show ?thesis
    using c entry_ok_length_cong [OF assms(1,2)] assms(3)
    by (simp add: same_shape_def btf_equal_common_def ref_slots_simps)
qed

lemma compat_fnproto_shape:
  assumes "entry_ok a" "entry_ok b" "btf_kind (fst a) = BTF_KIND_FUNC_PROTO"
    "btf_compat_fnproto a b = Some True"
  shows "same_shape a b"
proof -
  have c: "name_off (fst a) = name_off (fst b)" "info (fst a) = info (fst b)"
    and w: "words_eq a b (map (\<lambda>i. 2 * i) [0..<vlen_of a]) = Some True"
    using assms(4) by (auto simp: btf_compat_fnproto_def split: if_splits)
  have l: "length (snd a) = 2 * vlen_of a"
    using assms(3) vlen_words [OF assms(1)] by (auto simp: kind_words_simps vlen_of_def)
  have r: "ref_slots a = SizeType # map (\<lambda>i. SlotWord (2 * i + 1)) [0..<vlen_of a]"
    using assms(3) by (auto simp: ref_slots_simps)
  have "snd a ! k = snd b ! k" if k: "k < length (snd a)" "SlotWord k \<notin> set (ref_slots a)" for k
  proof (cases "even k")
    case True
    then obtain i where "k = 2 * i" by (elim evenE)
    then show ?thesis using w k(1) l by (simp add: words_eq_True)
  next
    case False
    then have "SlotWord k \<in> set (ref_slots a)"
      unfolding r using k(1) l by (auto intro!: image_eqI [of _ _ "k div 2"])
    then show ?thesis using k(2) by simp
  qed
  then show ?thesis
    using c r entry_ok_length_cong [OF assms(1,2)] by (simp add: same_shape_def)
qed

text \<open>Comparisons never read past well-formed types, and neither do the hashes.\<close>

lemma member_words_less: "k \<in> set (member_words n) \<Longrightarrow> k < 3 * vlen_of n"
  by (auto simp: member_words_def)

lemma common_info: "btf_equal_common a b \<Longrightarrow> info (fst a) = info (fst b)"
  by (simp add: btf_equal_common_def)

lemma equal_total:
  assumes "entry_ok a" "info (fst a) = info (fst b) \<Longrightarrow> entry_ok b"
  shows "btf_kind (fst a) = BTF_KIND_INT \<Longrightarrow> btf_equal_int a b \<noteq> None"
    "btf_kind (fst a) = BTF_KIND_ENUM \<Longrightarrow> btf_equal_enum a b \<noteq> None"
    "btf_kind (fst a) = BTF_KIND_ARRAY \<Longrightarrow> btf_equal_array a b \<noteq> None"
    "btf_kind (fst a) = BTF_KIND_ARRAY \<Longrightarrow> btf_compat_array a b \<noteq> None"
    "btf_kind (fst a) = BTF_KIND_FUNC_PROTO \<Longrightarrow> btf_equal_fnproto a b \<noteq> None"
    "btf_kind (fst a) = BTF_KIND_FUNC_PROTO \<Longrightarrow> btf_compat_fnproto a b \<noteq> None"
    "btf_kind (fst a) = BTF_KIND_STRUCT \<or> btf_kind (fst a) = BTF_KIND_UNION \<Longrightarrow>
       btf_shallow_equal_struct a b \<noteq> None"
proof -
  have w: "words_eq a b ks \<noteq> None"
    if "info (fst a) = info (fst b)" "\<forall>k \<in> set ks. k < length (snd a)" for ks
    using words_eq_total [of ks a b] that entry_ok_length_cong [OF assms(1) assms(2)] by simp
  note l = vlen_words [OF assms(1)]
  show "btf_kind (fst a) = BTF_KIND_INT \<Longrightarrow> btf_equal_int a b \<noteq> None"
    unfolding btf_equal_int_def using l w [OF common_info, of "[0]"]
    by (cases "snd a") (auto simp: kind_words_simps)
  show "btf_kind (fst a) = BTF_KIND_ENUM \<Longrightarrow> btf_equal_enum a b \<noteq> None"
    unfolding btf_equal_enum_def using l w [OF common_info] by (auto simp: kind_words_simps vlen_of_def)
  show "btf_kind (fst a) = BTF_KIND_ARRAY \<Longrightarrow> btf_equal_array a b \<noteq> None"
    unfolding btf_equal_array_def using l w [OF common_info] by (auto simp: kind_words_simps)
  show "btf_kind (fst a) = BTF_KIND_ARRAY \<Longrightarrow> btf_compat_array a b \<noteq> None"
    unfolding btf_compat_array_def using l w [OF common_info] by (auto simp: kind_words_simps)
  show "btf_kind (fst a) = BTF_KIND_FUNC_PROTO \<Longrightarrow> btf_equal_fnproto a b \<noteq> None"
    unfolding btf_equal_fnproto_def using l w [OF common_info] by (auto simp: kind_words_simps vlen_of_def)
  show "btf_kind (fst a) = BTF_KIND_FUNC_PROTO \<Longrightarrow> btf_compat_fnproto a b \<noteq> None"
    unfolding btf_compat_fnproto_def using l w by (auto simp: kind_words_simps vlen_of_def)
  show "btf_kind (fst a) = BTF_KIND_STRUCT \<or> btf_kind (fst a) = BTF_KIND_UNION \<Longrightarrow>
    btf_shallow_equal_struct a b \<noteq> None"
    unfolding btf_shallow_equal_struct_def 
    using l w [OF common_info, of "member_words a"] member_words_less [of _ a]
    by (auto simp: kind_words_simps vlen_of_def)
qed

lemma hash_total:
  assumes "entry_ok a"
  shows "btf_kind (fst a) = BTF_KIND_INT \<Longrightarrow> btf_hash_int a \<noteq> None"
    "btf_kind (fst a) = BTF_KIND_ARRAY \<Longrightarrow> btf_hash_array a \<noteq> None"
    "btf_kind (fst a) = BTF_KIND_FUNC_PROTO \<Longrightarrow> btf_hash_fnproto a \<noteq> None"
    "btf_kind (fst a) = BTF_KIND_STRUCT \<or> btf_kind (fst a) = BTF_KIND_UNION \<Longrightarrow> btf_hash_struct a \<noteq> None"
  using vlen_words [OF assms] member_words_less [of _ a]
  unfolding btf_hash_int_def btf_hash_array_def btf_hash_fnproto_def btf_hash_struct_def
  by (auto simp: kind_words_simps vlen_of_def simp del: not_None_eq intro!: hash_words_total)

section \<open>Well-formed types\<close>

definition void_node :: bnode where
  "void_node = (\<lparr>name_off = 0, info = 0, size_type = 0\<rparr>, [])"

text \<open>What the parser guarantees of its types, and that all ids are inside the data.\<close>

definition wf_types :: "bnode list \<Rightarrow> bool" where
  "wf_types G \<longleftrightarrow> length G \<le> 2 ^ 31 \<and> 0 < length G \<and> G ! 0 = void_node \<and>
     (\<forall>i < length G. 0 < i \<longrightarrow> entry_ok (G ! i)) \<and>
     (\<forall>i < length G. \<forall>r \<in> set (refs (G ! i)). unat r < length G)"

end
