(* ===== verification/Btf_Dedup.thy ===== *)
theory Btf_Dedup
  imports Btf_Shape Hashmap
begin

text \<open>
  Deduplication of types, \<open>libbpf/src/btf.c\<close> lines 1245 to 1455 and 1989 to 2884: the state, the three
  passes over primitive types, structs and references, compaction and the final renumbering. The types lie
  one behind the other in the data and the passes change them in place or move them towards the beginning,
  so the array of pointers is modelled by the array of what they point to. An index outside an array and a
  read outside a type make an operation \<open>None\<close>. Which reallocations succeed is part of the state: for the
  list of hypothetical pairs by its capacity, for the hash table by the number of its entries.
\<close>

section \<open>State\<close>

definition BTF_UNPROCESSED_ID :: u32 where "BTF_UNPROCESSED_ID = - 1"
definition BTF_IN_PROGRESS_ID :: u32 where "BTF_IN_PROGRESS_ID = - 2"

text \<open>\<open>hypot_list\<close> holds the \<open>hypot_cnt\<close> entries in use.\<close>

record btf_dedup =
  d_types :: "bnode list"
  d_nr_types :: u32
  d_hdr :: btf_header
  d_types_size :: u32
  d_data_size :: u32
  dedup_table :: "(u64, u32) hashmap"
  d_map :: "u32 list"
  hypot_map :: "u32 list"
  hypot_list :: "u32 list"
  hypot_cap :: nat
  dont_resolve_fwds :: bool
  list_alloc :: "nat \<Rightarrow> bool"
  table_alloc :: "nat \<Rightarrow> bool \<times> bool"

text \<open>Arrays indexed by type id.\<close>

definition arr :: "'a list \<Rightarrow> u32 \<Rightarrow> 'a option" where
  "arr xs i = (if unat i < length xs then Some (xs ! unat i) else None)"

definition arr_set :: "'a list \<Rightarrow> u32 \<Rightarrow> 'a \<Rightarrow> 'a list option" where
  "arr_set xs i v = (if unat i < length xs then Some (xs[unat i := v]) else None)"

definition set_map :: "btf_dedup \<Rightarrow> u32 \<Rightarrow> u32 \<Rightarrow> btf_dedup option" where
  "set_map d i v = map_option (\<lambda>m. d\<lparr>d_map := m\<rparr>) (arr_set (d_map d) i v)"

text \<open>The return code, zero unless the table could not grow or the entry not be allocated.\<close>

definition btf_dedup_table_add :: "btf_dedup \<Rightarrow> u64 \<Rightarrow> u32 \<Rightarrow> (int \<times> btf_dedup) option" where
  "btf_dedup_table_add d hash type_id =
     do {
       let ok = table_alloc d (sz (dedup_table d));
       (err, _, table) \<leftarrow> hashmap__append (fst ok) (snd ok) (dedup_table d) hash type_id;
       Some (err, d\<lparr>dedup_table := table\<rparr>)
     }"

definition for_each_dedup_cand :: "btf_dedup \<Rightarrow> u64 \<Rightarrow> (u64, u32) chain option" where
  "for_each_dedup_cand d hash = hashmap_key_entries (dedup_table d) hash"

definition btf_dedup_hypot_map_add :: "btf_dedup \<Rightarrow> u32 \<Rightarrow> u32 \<Rightarrow> (int \<times> btf_dedup) option" where
  "btf_dedup_hypot_map_add d from_id to_id =
     (let grown =
        (if length (hypot_list d) = hypot_cap d then
           let new_cap = hypot_cap d + max 16 (hypot_cap d div 2) in
           (list_alloc d new_cap, d\<lparr>hypot_cap := new_cap\<rparr>)
         else (True, d))
      in if \<not> fst grown then Some (- ENOMEM, snd grown)
         else map_option
                (\<lambda>m. (0, (snd grown)\<lparr>hypot_list := hypot_list d @ [from_id], hypot_map := m\<rparr>))
                (arr_set (hypot_map d) from_id to_id))"

fun unset_all :: "u32 list \<Rightarrow> u32 list \<Rightarrow> u32 list option" where
  "unset_all m [] = Some m"
| "unset_all m (i # is) = do { m \<leftarrow> arr_set m i BTF_UNPROCESSED_ID; unset_all m is }"

definition btf_dedup_clear_hypot_map :: "btf_dedup \<Rightarrow> btf_dedup option" where
  "btf_dedup_clear_hypot_map d =
     map_option (\<lambda>m. d\<lparr>hypot_map := m, hypot_list := []\<rparr>) (unset_all (hypot_map d) (hypot_list d))"

text \<open>Hash function and equality of the table, and the initial state.\<close>

definition btf_dedup_identity_hash_fn :: "u64 \<Rightarrow> u64" where "btf_dedup_identity_hash_fn key = key"
definition btf_dedup_collision_hash_fn :: "u64 \<Rightarrow> u64" where "btf_dedup_collision_hash_fn key = 0"
definition btf_dedup_equal_fn :: "u64 \<Rightarrow> u64 \<Rightarrow> bool" where "btf_dedup_equal_fn k1 k2 \<longleftrightarrow> k1 = k2"

record btf_dedup_opts =
  dedup_table_size :: u32
  opt_dont_resolve_fwds :: bool

record dedup_alloc =
  alloc_self :: bool
  alloc_table :: bool
  alloc_map :: bool
  alloc_hypot_map :: bool
  alloc_list :: "nat \<Rightarrow> bool"
  alloc_entry :: "nat \<Rightarrow> bool \<times> bool"
  alloc_types :: bool

definition self_canonical :: "bnode \<Rightarrow> bool" where
  "self_canonical t \<longleftrightarrow> btf_is_var (fst t) \<or> btf_kind (fst t) = BTF_KIND_DATASEC"

definition btf_dedup_new ::
  "dedup_alloc \<Rightarrow> bnode list \<Rightarrow> btf_header \<Rightarrow> u32 \<Rightarrow> u32 \<Rightarrow> btf_dedup_opts option \<Rightarrow> int + btf_dedup"
where
  "btf_dedup_new alloc ts hdr tsize dsize opts =
     (if \<not> alloc_self alloc then Inl (- ENOMEM)
      else
        let dont = (case opts of None \<Rightarrow> False | Some x \<Rightarrow> opt_dont_resolve_fwds x);
            hash_fn = (case opts of
                         Some x \<Rightarrow> if dedup_table_size x = 1 then btf_dedup_collision_hash_fn
                                    else btf_dedup_identity_hash_fn
                       | None \<Rightarrow> btf_dedup_identity_hash_fn)
        in case hashmap__new (alloc_table alloc) hash_fn btf_dedup_equal_fn of
             Inl e \<Rightarrow> Inl e
           | Inr table \<Rightarrow>
               if \<not> alloc_map alloc then Inl (- ENOMEM)
               else if \<not> alloc_hypot_map alloc then Inl (- ENOMEM)
               else Inr \<lparr>d_types = ts, d_nr_types = of_nat (length ts - 1), d_hdr = hdr,
                         d_types_size = tsize, d_data_size = dsize, dedup_table = table,
                         d_map = 0 # map (\<lambda>i. if self_canonical (ts ! i) then of_nat i
                                               else BTF_UNPROCESSED_ID) [1..<length ts],
                         hypot_map = replicate (length ts) BTF_UNPROCESSED_ID,
                         hypot_list = [], hypot_cap = 0, dont_resolve_fwds = dont,
                         list_alloc = alloc_list alloc, table_alloc = alloc_entry alloc\<rparr>)"

section \<open>Primitive types\<close>

text \<open>The loop over the candidates that ends at the first equal one.\<close>

fun find_equal ::
  "btf_dedup \<Rightarrow> (bnode \<Rightarrow> bool option) \<Rightarrow> (u64, u32) chain \<Rightarrow> u32 \<Rightarrow> u32 option" where
  "find_equal d eq [] new_id = Some new_id"
| "find_equal d eq (e # es) new_id =
     do {
       cand \<leftarrow> arr (d_types d) (snd e);
       b \<leftarrow> eq cand;
       if b then Some (snd e) else find_equal d eq es new_id
     }"

text \<open>The loop for enumerations, which may map a forward enumeration to the new type on its way.\<close>

fun find_enum :: "btf_dedup \<Rightarrow> bnode \<Rightarrow> u32 \<Rightarrow> (u64, u32) chain \<Rightarrow> (u32 \<times> btf_dedup) option" where
  "find_enum d t type_id [] = Some (type_id, d)"
| "find_enum d t type_id (e # es) =
     do {
       cand \<leftarrow> arr (d_types d) (snd e);
       b \<leftarrow> btf_equal_enum t cand;
       if b then Some (snd e, d)
       else if dont_resolve_fwds d then find_enum d t type_id es
       else
         do {
           c \<leftarrow> btf_compat_enum t cand;
           if \<not> c then find_enum d t type_id es
           else if btf_is_enum_fwd t then Some (snd e, d)
           else do { d \<leftarrow> set_map d (snd e) type_id; find_enum d t type_id es }
         }
     }"

text \<open>The common end of the passes: record the new id, and make a canonical type a candidate.\<close>

definition dedup_finish :: "btf_dedup \<Rightarrow> u64 \<Rightarrow> u32 \<Rightarrow> u32 \<Rightarrow> (int \<times> btf_dedup) option" where
  "dedup_finish d h type_id new_id =
     do {
       d \<leftarrow> set_map d type_id new_id;
       if type_id = new_id then
         do {
           (err, d) \<leftarrow> btf_dedup_table_add d h type_id;
           Some (if err \<noteq> 0 then - ENOMEM else 0, d)
         }
       else Some (0, d)
     }"

definition btf_dedup_prim_type :: "btf_dedup \<Rightarrow> u32 \<Rightarrow> (int \<times> btf_dedup) option" where
  "btf_dedup_prim_type d type_id =
     do {
       t \<leftarrow> arr (d_types d) type_id;
       let kind = btf_kind (fst t);
       if kind = BTF_KIND_CONST \<or> kind = BTF_KIND_VOLATILE \<or> kind = BTF_KIND_RESTRICT \<or>
          kind = BTF_KIND_PTR \<or> kind = BTF_KIND_TYPEDEF \<or> kind = BTF_KIND_ARRAY \<or>
          kind = BTF_KIND_STRUCT \<or> kind = BTF_KIND_UNION \<or> kind = BTF_KIND_FUNC \<or>
          kind = BTF_KIND_FUNC_PROTO \<or> kind = BTF_KIND_VAR \<or> kind = BTF_KIND_DATASEC
       then Some (0, d)
       else if kind = BTF_KIND_INT then
         do {
           h \<leftarrow> btf_hash_int t;
           cands \<leftarrow> for_each_dedup_cand d h;
           new_id \<leftarrow> find_equal d (btf_equal_int t) cands type_id;
           dedup_finish d h type_id new_id
         }
       else if kind = BTF_KIND_ENUM then
         do {
           let h = btf_hash_enum t;
           cands \<leftarrow> for_each_dedup_cand d h;
           (new_id, d) \<leftarrow> find_enum d t type_id cands;
           dedup_finish d h type_id new_id
         }
       else if kind = BTF_KIND_FWD then
         do {
           let h = btf_hash_common t;
           cands \<leftarrow> for_each_dedup_cand d h;
           new_id \<leftarrow> find_equal d (\<lambda>cand. Some (btf_equal_common t cand)) cands type_id;
           dedup_finish d h type_id new_id
         }
       else Some (- EINVAL, d)
     }"

text \<open>A pass over types that ends at the first error.\<close>

fun for_types ::
  "(btf_dedup \<Rightarrow> u32 \<Rightarrow> (int \<times> btf_dedup) option) \<Rightarrow> u32 list \<Rightarrow> btf_dedup \<Rightarrow> (int \<times> btf_dedup) option"
where
  "for_types f [] d = Some (0, d)"
| "for_types f (i # is) d =
     (case f d i of
        None \<Rightarrow> None
      | Some (err, d) \<Rightarrow> if err \<noteq> 0 then Some (err, d) else for_types f is d)"

definition type_ids :: "btf_dedup \<Rightarrow> u32 list" where
  "type_ids d = map of_nat [1..<unat (d_nr_types d) + 1]"

definition btf_dedup_prim_types :: "btf_dedup \<Rightarrow> (int \<times> btf_dedup) option" where
  "btf_dedup_prim_types d = for_types btf_dedup_prim_type (type_ids d) d"

section \<open>Resolving ids\<close>

definition is_type_mapped :: "btf_dedup \<Rightarrow> u32 \<Rightarrow> bool option" where
  "is_type_mapped d type_id = map_option (\<lambda>m. m \<le> BTF_MAX_NR_TYPES) (arr (d_map d) type_id)"

text \<open>The walk along the map; it does not end on a cycle of links.\<close>

partial_function (option) resolve_type_id :: "btf_dedup \<Rightarrow> u32 \<Rightarrow> u32 option" where
  "resolve_type_id d type_id =
     (case arr (d_map d) type_id of
        None \<Rightarrow> None
      | Some m \<Rightarrow>
          if m \<le> BTF_MAX_NR_TYPES \<and> m \<noteq> type_id then resolve_type_id d m else Some type_id)"

declare resolve_type_id.simps [code]

definition resolve_fwd_id :: "btf_dedup \<Rightarrow> u32 \<Rightarrow> u32 option" where
  "resolve_fwd_id d orig_type_id =
     do {
       t \<leftarrow> arr (d_types d) orig_type_id;
       if \<not> btf_is_fwd (fst t) then Some orig_type_id
       else
         do {
           type_id \<leftarrow> resolve_type_id d orig_type_id;
           t \<leftarrow> arr (d_types d) type_id;
           Some (if \<not> btf_is_fwd (fst t) then type_id else orig_type_id)
         }
     }"

section \<open>Equivalence of type graphs\<close>

text \<open>
  What \<open>btf_dedup_is_equiv\<close> finds out about two types before it descends: an answer, or the pairs of
  referenced ids it compares next, of which all must be equivalent.
\<close>

definition of_eq :: "bool \<Rightarrow> int" where "of_eq b = (if b then 1 else 0)"

definition slot_pairs :: "bnode \<Rightarrow> bnode \<Rightarrow> slot list \<Rightarrow> (u32 \<times> u32) list option" where
  "slot_pairs t1 t2 ss =
     those (map (\<lambda>s. do { a \<leftarrow> get_slot t1 s; b \<leftarrow> get_slot t2 s; Some (a, b) }) ss)"

definition shape_check ::
  "bool \<Rightarrow> bnode \<Rightarrow> bnode \<Rightarrow> (int + (u32 \<times> u32) list) option" where
  "shape_check dont_resolve cand canon =
     (let cand_kind = btf_kind (fst cand); canon_kind = btf_kind (fst canon);
          compare = \<lambda>ok ss.
            do {
              b \<leftarrow> ok;
              if \<not> b then Some (Inl 0) else map_option Inr (slot_pairs cand canon ss)
            }
      in
      if name_off (fst cand) \<noteq> name_off (fst canon) then Some (Inl 0)
      else if \<not> dont_resolve \<and> (cand_kind = BTF_KIND_FWD \<or> canon_kind = BTF_KIND_FWD) \<and>
              cand_kind \<noteq> canon_kind then
        Some (Inl (of_eq (if cand_kind = BTF_KIND_FWD then btf_fwd_kind (fst cand) = canon_kind
                          else btf_fwd_kind (fst canon) = cand_kind)))
      else if cand_kind \<noteq> canon_kind then Some (Inl 0)
      else if cand_kind = BTF_KIND_INT then map_option (\<lambda>b. Inl (of_eq b)) (btf_equal_int cand canon)
      else if cand_kind = BTF_KIND_ENUM then
        map_option (\<lambda>b. Inl (of_eq b))
          (if dont_resolve then btf_equal_enum cand canon else btf_compat_enum cand canon)
      else if cand_kind = BTF_KIND_FWD then Some (Inl (of_eq (btf_equal_common cand canon)))
      else if cand_kind = BTF_KIND_CONST \<or> cand_kind = BTF_KIND_VOLATILE \<or>
              cand_kind = BTF_KIND_RESTRICT \<or> cand_kind = BTF_KIND_PTR \<or>
              cand_kind = BTF_KIND_TYPEDEF \<or> cand_kind = BTF_KIND_FUNC then
        compare (Some (info (fst cand) = info (fst canon))) [SizeType]
      else if cand_kind = BTF_KIND_ARRAY then
        compare (btf_compat_array cand canon) [SlotWord 1, SlotWord 0]
      else if cand_kind = BTF_KIND_STRUCT \<or> cand_kind = BTF_KIND_UNION then
        compare (btf_shallow_equal_struct cand canon)
          (map (\<lambda>i. SlotWord (3 * i + 1)) [0..<vlen_of cand])
      else if cand_kind = BTF_KIND_FUNC_PROTO then
        compare (btf_compat_fnproto cand canon)
          (SizeType # map (\<lambda>i. SlotWord (2 * i + 1)) [0..<vlen_of cand])
      else Some (Inl (- EINVAL)))"

text \<open>
  The recursion, with a bound on its depth: every level that descends has recorded one more canonical id.
  \<open>is_equivs\<close> goes through the pairs of one type and stops at the first answer that is not positive.
\<close>

fun btf_dedup_is_equiv :: "nat \<Rightarrow> btf_dedup \<Rightarrow> u32 \<Rightarrow> u32 \<Rightarrow> (int \<times> btf_dedup) option"
  and is_equivs :: "nat \<Rightarrow> btf_dedup \<Rightarrow> (u32 \<times> u32) list \<Rightarrow> (int \<times> btf_dedup) option" where
  "btf_dedup_is_equiv 0 d cand_id canon_id = None"
| "btf_dedup_is_equiv (Suc n) d cand_id canon_id =
     do {
       a \<leftarrow> resolve_type_id d cand_id;
       b \<leftarrow> resolve_type_id d canon_id;
       if a = b then Some (1, d)
       else
         do {
           canon_id \<leftarrow> resolve_fwd_id d canon_id;
           hypot_type_id \<leftarrow> arr (hypot_map d) canon_id;
           if hypot_type_id \<le> BTF_MAX_NR_TYPES then Some (of_eq (hypot_type_id = cand_id), d)
           else
             do {
               (err, d) \<leftarrow> btf_dedup_hypot_map_add d canon_id cand_id;
               if err \<noteq> 0 then Some (- ENOMEM, d)
               else
                 do {
                   cand_type \<leftarrow> arr (d_types d) cand_id;
                   canon_type \<leftarrow> arr (d_types d) canon_id;
                   r \<leftarrow> shape_check (dont_resolve_fwds d) cand_type canon_type;
                   (case r of Inl eq \<Rightarrow> Some (eq, d) | Inr ps \<Rightarrow> is_equivs n d ps)
                 }
             }
         }
     }"
| "is_equivs n d [] = Some (1, d)"
| "is_equivs n d (p # ps) =
     (case btf_dedup_is_equiv n d (fst p) (snd p) of
        None \<Rightarrow> None
      | Some (eq, d) \<Rightarrow> if eq \<le> 0 then Some (eq, d) else is_equivs n d ps)"

section \<open>Structs and unions\<close>

definition is_struct_kind :: "u16 \<Rightarrow> bool" where
  "is_struct_kind k \<longleftrightarrow> k = BTF_KIND_STRUCT \<or> k = BTF_KIND_UNION"

fun merge_hypot :: "btf_dedup \<Rightarrow> u32 list \<Rightarrow> btf_dedup option" where
  "merge_hypot d [] = Some d"
| "merge_hypot d (cand_type_id # ids) =
     do {
       targ_type_id \<leftarrow> arr (hypot_map d) cand_type_id;
       t_id \<leftarrow> resolve_type_id d targ_type_id;
       c_id \<leftarrow> resolve_type_id d cand_type_id;
       tt \<leftarrow> arr (d_types d) t_id;
       ct \<leftarrow> arr (d_types d) c_id;
       let t_kind = btf_kind (fst tt);
       let c_kind = btf_kind (fst ct);
       d \<leftarrow> (if t_kind \<noteq> BTF_KIND_FWD \<and> c_kind = BTF_KIND_FWD then set_map d c_id t_id
             else if t_kind = BTF_KIND_FWD \<and> c_kind \<noteq> BTF_KIND_FWD then set_map d t_id c_id
             else Some d);
       c_mapped \<leftarrow> is_type_mapped d c_id;
       t_mapped \<leftarrow> is_type_mapped d t_id;
       d \<leftarrow> (if is_struct_kind t_kind \<and> c_kind \<noteq> BTF_KIND_FWD \<and> c_mapped \<and> \<not> t_mapped
             then set_map d t_id c_id else Some d);
       merge_hypot d ids
     }"

definition btf_dedup_merge_hypot_map :: "btf_dedup \<Rightarrow> btf_dedup option" where
  "btf_dedup_merge_hypot_map d = merge_hypot d (hypot_list d)"

text \<open>The depth allowed to the recursions: one more than the number of types.\<close>

definition dedup_depth :: "btf_dedup \<Rightarrow> nat" where
  "dedup_depth d = length (d_types d) + 1"

fun find_struct ::
  "btf_dedup \<Rightarrow> bnode \<Rightarrow> u32 \<Rightarrow> (u64, u32) chain \<Rightarrow> ((int + u32) \<times> btf_dedup) option" where
  "find_struct d t type_id [] = Some (Inr type_id, d)"
| "find_struct d t type_id (e # es) =
     do {
       cand \<leftarrow> arr (d_types d) (snd e);
       b \<leftarrow> btf_shallow_equal_struct t cand;
       if \<not> b then find_struct d t type_id es
       else
         do {
           d \<leftarrow> btf_dedup_clear_hypot_map d;
           (eq, d) \<leftarrow> btf_dedup_is_equiv (dedup_depth d) d type_id (snd e);
           if eq < 0 then Some (Inl eq, d)
           else if eq = 0 then find_struct d t type_id es
           else map_option (\<lambda>d. (Inr (snd e), d)) (btf_dedup_merge_hypot_map d)
         }
     }"

definition btf_dedup_struct_type :: "btf_dedup \<Rightarrow> u32 \<Rightarrow> (int \<times> btf_dedup) option" where
  "btf_dedup_struct_type d type_id =
     do {
       mapped \<leftarrow> is_type_mapped d type_id;
       if mapped then Some (0, d)
       else
         do {
           t \<leftarrow> arr (d_types d) type_id;
           if \<not> is_struct_kind (btf_kind (fst t)) then Some (0, d)
           else
             do {
               h \<leftarrow> btf_hash_struct t;
               cands \<leftarrow> for_each_dedup_cand d h;
               (r, d) \<leftarrow> find_struct d t type_id cands;
               (case r of
                  Inl e \<Rightarrow> Some (e, d)
                | Inr new_id \<Rightarrow> dedup_finish d h type_id new_id)
             }
         }
     }"

definition btf_dedup_struct_types :: "btf_dedup \<Rightarrow> (int \<times> btf_dedup) option" where
  "btf_dedup_struct_types d = for_types btf_dedup_struct_type (type_ids d) d"

section \<open>Reference types\<close>

text \<open>The hash of a reference type and the comparison with a candidate.\<close>

definition ref_hash :: "bnode \<Rightarrow> u64 option" where
  "ref_hash t =
     (if btf_kind (fst t) = BTF_KIND_ARRAY then btf_hash_array t
      else if btf_kind (fst t) = BTF_KIND_FUNC_PROTO then btf_hash_fnproto t
      else Some (btf_hash_common t))"

definition ref_equal :: "bnode \<Rightarrow> bnode \<Rightarrow> bool option" where
  "ref_equal t cand =
     (if btf_kind (fst t) = BTF_KIND_ARRAY then btf_equal_array t cand
      else if btf_kind (fst t) = BTF_KIND_FUNC_PROTO then btf_equal_fnproto t cand
      else Some (btf_equal_common t cand))"

definition is_ref_kind :: "u16 \<Rightarrow> bool" where
  "is_ref_kind k \<longleftrightarrow>
     k = BTF_KIND_CONST \<or> k = BTF_KIND_VOLATILE \<or> k = BTF_KIND_RESTRICT \<or> k = BTF_KIND_PTR \<or>
     k = BTF_KIND_TYPEDEF \<or> k = BTF_KIND_FUNC \<or> k = BTF_KIND_ARRAY \<or> k = BTF_KIND_FUNC_PROTO"

text \<open>Each reference is resolved and stored before the next one is read; then the type is looked up.\<close>

fun btf_dedup_ref_type :: "nat \<Rightarrow> btf_dedup \<Rightarrow> u32 \<Rightarrow> ((int + u32) \<times> btf_dedup) option"
  and resolve_slots :: "nat \<Rightarrow> btf_dedup \<Rightarrow> u32 \<Rightarrow> slot list \<Rightarrow> (int \<times> btf_dedup) option" where
  "btf_dedup_ref_type 0 d type_id = None"
| "btf_dedup_ref_type (Suc n) d type_id =
     do {
       m \<leftarrow> arr (d_map d) type_id;
       if m = BTF_IN_PROGRESS_ID then Some (Inl (- ELOOP), d)
       else if m \<le> BTF_MAX_NR_TYPES then map_option (\<lambda>i. (Inr i, d)) (resolve_type_id d type_id)
       else
         do {
           t \<leftarrow> arr (d_types d) type_id;
           d \<leftarrow> set_map d type_id BTF_IN_PROGRESS_ID;
           if \<not> is_ref_kind (btf_kind (fst t)) then Some (Inl (- EINVAL), d)
           else
             do {
               (err, d) \<leftarrow> resolve_slots n d type_id (ref_slots t);
               if err < 0 then Some (Inl err, d)
               else
                 do {
                   t \<leftarrow> arr (d_types d) type_id;
                   h \<leftarrow> ref_hash t;
                   cands \<leftarrow> for_each_dedup_cand d h;
                   new_id \<leftarrow> find_equal d (ref_equal t) cands type_id;
                   (err, d) \<leftarrow> dedup_finish d h type_id new_id;
                   Some (if err \<noteq> 0 then Inl err else Inr new_id, d)
                 }
             }
         }
     }"
| "resolve_slots n d type_id [] = Some (0, d)"
| "resolve_slots n d type_id (s # ss) =
     do {
       t \<leftarrow> arr (d_types d) type_id;
       r \<leftarrow> get_slot t s;
       (res, d) \<leftarrow> btf_dedup_ref_type n d r;
       (case res of
          Inl e \<Rightarrow> Some (e, d)
        | Inr ref_type_id \<Rightarrow>
            do {
              t \<leftarrow> arr (d_types d) type_id;
              ts \<leftarrow> arr_set (d_types d) type_id (put_slot t s ref_type_id);
              resolve_slots n (d\<lparr>d_types := ts\<rparr>) type_id ss
            })
     }"

definition ref_type_pass :: "btf_dedup \<Rightarrow> u32 \<Rightarrow> (int \<times> btf_dedup) option" where
  "ref_type_pass d type_id =
     do {
       (res, d) \<leftarrow> btf_dedup_ref_type (dedup_depth d) d type_id;
       Some (case res of Inl e \<Rightarrow> e | Inr i \<Rightarrow> 0, d)
     }"

text \<open>After the pass the table is freed; its pointer is null from then on and not used again.\<close>

definition btf_dedup_ref_types :: "btf_dedup \<Rightarrow> (int \<times> btf_dedup) option" where
  "btf_dedup_ref_types d =
     do {
       (err, d) \<leftarrow> for_types ref_type_pass (type_ids d) d;
       if err < 0 then Some (err, d)
       else do { _ \<leftarrow> hashmap__free (Some (dedup_table d)); Some (0, d) }
     }"

section \<open>Compaction\<close>

text \<open>Moves the canonical types to the front: the next free id and the bytes written so far.\<close>

fun compact_loop :: "btf_dedup \<Rightarrow> u32 \<Rightarrow> nat \<Rightarrow> u32 list \<Rightarrow> (int \<times> u32 \<times> nat \<times> btf_dedup) option" where
  "compact_loop d next_type_id p [] = Some (0, next_type_id, p, d)"
| "compact_loop d next_type_id p (i # is) =
     do {
       m \<leftarrow> arr (d_map d) i;
       if m \<noteq> i then compact_loop d next_type_id p is
       else
         do {
           t \<leftarrow> arr (d_types d) i;
           let len = btf_type_size (fst t);
           if len < 0 then Some (len, next_type_id, p, d)
           else
             do {
               hm \<leftarrow> arr_set (hypot_map d) i next_type_id;
               ts \<leftarrow> arr_set (d_types d) next_type_id t;
               compact_loop (d\<lparr>hypot_map := hm, d_types := ts\<rparr>) (next_type_id + 1) (p + nat len) is
             }
         }
     }"

definition btf_dedup_compact_types :: "bool \<Rightarrow> btf_dedup \<Rightarrow> (int \<times> btf_dedup) option" where
  "btf_dedup_compact_types realloc_ok d =
     do {
       hm \<leftarrow> arr_set (hypot_map d) 0 0;
       hm \<leftarrow> unset_all hm (type_ids d);
       (err, next_type_id, p, d) \<leftarrow> compact_loop (d\<lparr>hypot_map := hm\<rparr>) 1 0 (type_ids d);
       if err < 0 then Some (err, d)
       else
         do {
           let d = d\<lparr>d_nr_types := next_type_id - 1, d_types_size := next_type_id - 1,
                     d_hdr := (d_hdr d)\<lparr>type_len := of_nat p\<rparr>\<rparr>;
           if \<not> realloc_ok then Some (- ENOMEM, d)
           else
             do {
               let strs = type_off (d_hdr d) + of_nat p;
               let hdr = (d_hdr d)\<lparr>str_off := strs\<rparr>;
               Some (0, d\<lparr>d_types := take (unat (d_nr_types d) + 1) (d_types d), d_hdr := hdr,
                         d_data_size := 24 + strs + str_len hdr\<rparr>)
             }
         }
     }"

section \<open>Renumbering\<close>

definition btf_dedup_remap_type_id :: "btf_dedup \<Rightarrow> u32 \<Rightarrow> (int + u32) option" where
  "btf_dedup_remap_type_id d type_id =
     do {
       resolved_type_id \<leftarrow> resolve_type_id d type_id;
       new_type_id \<leftarrow> arr (hypot_map d) resolved_type_id;
       Some (if new_type_id > BTF_MAX_NR_TYPES then Inl (- EINVAL) else Inr new_type_id)
     }"

fun remap_slots :: "btf_dedup \<Rightarrow> u32 \<Rightarrow> slot list \<Rightarrow> (int \<times> btf_dedup) option" where
  "remap_slots d type_id [] = Some (0, d)"
| "remap_slots d type_id (s # ss) =
     do {
       t \<leftarrow> arr (d_types d) type_id;
       r \<leftarrow> get_slot t s;
       res \<leftarrow> btf_dedup_remap_type_id d r;
       (case res of
          Inl e \<Rightarrow> Some (e, d)
        | Inr i \<Rightarrow>
            do {
              ts \<leftarrow> arr_set (d_types d) type_id (put_slot t s i);
              remap_slots (d\<lparr>d_types := ts\<rparr>) type_id ss
            })
     }"

definition btf_dedup_remap_type :: "btf_dedup \<Rightarrow> u32 \<Rightarrow> (int \<times> btf_dedup) option" where
  "btf_dedup_remap_type d type_id =
     do {
       t \<leftarrow> arr (d_types d) type_id;
       if kind_words (fst t) = None then Some (- EINVAL, d)
       else remap_slots d type_id (ref_slots t)
     }"

definition btf_dedup_remap_types :: "btf_dedup \<Rightarrow> (int \<times> btf_dedup) option" where
  "btf_dedup_remap_types d = for_types btf_dedup_remap_type (type_ids d) d"

text \<open>The passes over the types, as \<open>btf__dedup\<close> runs them after the strings.\<close>

definition dedup_types :: "bool \<Rightarrow> btf_dedup \<Rightarrow> (int \<times> btf_dedup) option" where
  "dedup_types realloc_ok d =
     do {
       (err, d) \<leftarrow> btf_dedup_prim_types d;
       if err < 0 then Some (err, d)
       else
         do {
           (err, d) \<leftarrow> btf_dedup_struct_types d;
           if err < 0 then Some (err, d)
           else
             do {
               (err, d) \<leftarrow> btf_dedup_ref_types d;
               if err < 0 then Some (err, d)
               else
                 do {
                   (err, d) \<leftarrow> btf_dedup_compact_types realloc_ok d;
                   if err < 0 then Some (err, d) else btf_dedup_remap_types d
                 }
             }
         }
     }"

end
