(* ===== verification/Btf_Dedup_Sound.thy ===== *)
theory Btf_Dedup_Sound
  imports Btf_Dedup
begin

text \<open>
  The deduplication keeps every type. When forward declarations are not resolved, the passes of \<open>Btf_Dedup\<close>
  never leave their arrays, always return, and when they succeed every id of the original data has a final
  id that stands for the same type (\<open>same_type\<close>). The invariant says that the map sends an id to a
  canonical one of the same type, and that the types in place still have their original meaning.
\<close>

section \<open>The invariant\<close>

text \<open>An id is valid when it is inside the data, and canonical when it is mapped to itself.\<close>

abbreviation (input) valid :: "bnode list \<Rightarrow> u32 \<Rightarrow> bool" where "valid G i \<equiv> unat i < length G"

definition map_ok :: "bnode list \<Rightarrow> u32 list \<Rightarrow> bool" where
  "map_ok G m \<longleftrightarrow> length m = length G \<and> m ! 0 = 0 \<and>
     (\<forall>i. valid G i \<longrightarrow>
        (m ! unat i \<le> BTF_MAX_NR_TYPES \<and> valid G (m ! unat i) \<and> m ! unat (m ! unat i) = m ! unat i \<and>
         same_type G G i (m ! unat i)) \<or>
        m ! unat i = BTF_UNPROCESSED_ID \<or> m ! unat i = BTF_IN_PROGRESS_ID)"

definition table_ok :: "u32 list \<Rightarrow> (u64, u32) hashmap \<Rightarrow> bool" where
  "table_ok m t \<longleftrightarrow> hm_inv t \<and> equal_fn t = btf_dedup_equal_fn \<and>
     (\<forall>h. \<forall>e \<in> set (hm_group t h). unat (snd e) < length m \<and> m ! unat (snd e) = snd e)"

definition dd_inv :: "bnode list \<Rightarrow> btf_dedup \<Rightarrow> bool" where
  "dd_inv G d \<longleftrightarrow> wf_types G \<and> dont_resolve_fwds d \<and> unat (d_nr_types d) + 1 = length G \<and>
     same_graph G (d_types d) \<and> map_ok G (d_map d) \<and> table_ok (d_map d) (dedup_table d) \<and>
     length (hypot_map d) = length G"

lemmas btf_ids = BTF_MAX_NR_TYPES_def BTF_UNPROCESSED_ID_def BTF_IN_PROGRESS_ID_def

lemma special_ids [simp]:
  "\<not> BTF_UNPROCESSED_ID \<le> BTF_MAX_NR_TYPES" "\<not> BTF_IN_PROGRESS_ID \<le> BTF_MAX_NR_TYPES"
  "BTF_UNPROCESSED_ID \<noteq> BTF_IN_PROGRESS_ID" "BTF_MAX_NR_TYPES < BTF_UNPROCESSED_ID"
  "BTF_IN_PROGRESS_ID \<noteq> BTF_UNPROCESSED_ID"
  unfolding btf_ids by code_simp+

lemma dd_inv_lengths:
  assumes "dd_inv G d"
  shows "length (d_types d) = length G" "length (d_map d) = length G" "length (hypot_map d) = length G"
    "length G \<le> 2 ^ 31" "0 < length G"
  using assms by (auto simp: dd_inv_def same_graph_def map_ok_def wf_types_def)

lemma valid_small:
  assumes "wf_types G" "valid G i"
  shows "i \<le> BTF_MAX_NR_TYPES"
proof -
  have "unat i < 2 ^ 31" using assms by (simp add: wf_types_def)
  then show ?thesis by (simp add: word_le_nat_alt btf_ids)
qed

lemma dd_inv_wf: "dd_inv G d \<Longrightarrow> wf_types G"
  by (simp add: dd_inv_def)

lemma arr_valid: "unat i < length xs \<Longrightarrow> arr xs i = Some (xs ! unat i)"
  "unat i < length xs \<Longrightarrow> arr_set xs i v = Some (xs[unat i := v])"
  by (simp_all add: arr_def arr_set_def)

lemma arr_update [simp]:
  "unat x < length xs \<Longrightarrow> xs[unat i := v] ! unat x = (if x = i then v else xs ! unat x)"
  by (auto simp: nth_list_update_cases word_unat_eq_iff)

lemma set_map_valid:
  "dd_inv G d \<Longrightarrow> valid G i \<Longrightarrow> set_map d i v = Some (d\<lparr>d_map := (d_map d)[unat i := v]\<rparr>)"
  using dd_inv_lengths(2) [of G d] by (simp add: set_map_def arr_valid)

text \<open>The types in place are well formed, and refer to valid ids only.\<close>

lemma dd_inv_node:
  assumes "dd_inv G d" "valid G i"
  shows "same_shape (G ! unat i) (d_types d ! unat i)"
    "\<forall>k < length (refs (G ! unat i)). same_type G G (refs (G ! unat i) ! k) (refs (d_types d ! unat i) ! k)"
  using assms by (simp_all add: dd_inv_def same_graph_def)

lemma dd_inv_refs:
  assumes "dd_inv G d" "valid G i" "r \<in> set (refs (d_types d ! unat i))"
  shows "valid G r"
proof -
  obtain k where k: "k < length (refs (d_types d ! unat i))" "r = refs (d_types d ! unat i) ! k"
    using assms(3) by (auto simp: in_set_conv_nth)
  then have k': "k < length (refs (G ! unat i))"
    using same_shape_length_refs [OF dd_inv_node(1) [OF assms(1,2)]] by simp
  then have "valid G (refs (G ! unat i) ! k)"
    using dd_inv_wf [OF assms(1)] assms(2) by (auto simp: wf_types_def)
  then show ?thesis
    using same_type_nodes(1) dd_inv_node(2) [OF assms(1,2)] k k' by blast
qed

lemma void_kind: "btf_kind (fst void_node) = BTF_KIND_UNKN"
  by (simp add: void_node_def btf_kind_def BTF_INFO_KIND_def BTF_KIND_UNKN_def)

lemma dd_inv_entry:
  assumes "dd_inv G d" "valid G i" "btf_kind (fst (d_types d ! unat i)) \<noteq> BTF_KIND_UNKN \<or> i \<noteq> 0"
  shows "entry_ok (d_types d ! unat i)"
proof -
  have "unat i \<noteq> 0"
  proof
    assume "unat i = 0"
    then have "i = 0" by (simp add: unat_eq_0)
    then have "G ! unat i = void_node" using dd_inv_wf [OF assms(1)] by (simp add: wf_types_def)
    then have "btf_kind (fst (d_types d ! unat i)) = BTF_KIND_UNKN"
      using same_shape_kind [OF dd_inv_node(1) [OF assms(1,2)]] void_kind by simp
    then show False using assms(3) \<open>i = 0\<close> by simp
  qed
  then have "entry_ok (G ! unat i)" using dd_inv_wf [OF assms(1)] assms(2) by (simp add: wf_types_def)
  then show ?thesis using dd_inv_node(1) [OF assms(1,2)] same_shape_entry_ok by blast
qed

text \<open>Types in place that agree, with references that stand for the same types, are the same type.\<close>

lemma dd_same_typeI:
  assumes "dd_inv G d" "valid G i" "valid G j" "same_shape (d_types d ! unat i) (d_types d ! unat j)"
    "\<And>k. k < length (refs (d_types d ! unat i)) \<Longrightarrow>
       same_type G G (refs (d_types d ! unat i) ! k) (refs (d_types d ! unat j) ! k)"
  shows "same_type G G i j"
proof (rule same_typeI [OF _ assms(2-4)])
  show "same_graph G (d_types d)" using assms(1) by (simp add: dd_inv_def)
qed (rule assms(5))

lemma dd_same_nodeI:
  assumes "dd_inv G d" "valid G i" "valid G j" "d_types d ! unat i = d_types d ! unat j"
  shows "same_type G G i j"
  using assms by (intro dd_same_typeI [OF assms(1-3)]) (simp_all add: same_type_refl)

section \<open>The map\<close>

lemma map_ok_mapped:
  assumes "map_ok G m" "valid G i" "m ! unat i \<le> BTF_MAX_NR_TYPES"
  shows "valid G (m ! unat i)" "m ! unat (m ! unat i) = m ! unat i" "same_type G G i (m ! unat i)"
proof -
  have "m ! unat i \<noteq> BTF_UNPROCESSED_ID" "m ! unat i \<noteq> BTF_IN_PROGRESS_ID" using assms(3) by auto
  then show "valid G (m ! unat i)" "m ! unat (m ! unat i) = m ! unat i" "same_type G G i (m ! unat i)"
    using assms(1,2) unfolding map_ok_def by blast+
qed

lemma resolve_map_ok:
  assumes m: "map_ok G (d_map d)" and "valid G i"
  shows "resolve_type_id d i =
    Some (if d_map d ! unat i \<le> BTF_MAX_NR_TYPES then d_map d ! unat i else i)"
proof -
  have l: "length (d_map d) = length G" using m by (simp add: map_ok_def)
  show ?thesis
    using map_ok_mapped(1,2) [OF m assms(2)] assms(2) l
    by (subst resolve_type_id.simps, simp add: arr_valid) (subst resolve_type_id.simps, simp add: arr_valid)
qed

definition resolved :: "btf_dedup \<Rightarrow> u32 \<Rightarrow> u32" where
  "resolved d i = (if d_map d ! unat i \<le> BTF_MAX_NR_TYPES then d_map d ! unat i else i)"

lemma resolved_valid:
  assumes "dd_inv G d" "valid G i"
  shows "resolve_type_id d i = Some (resolved d i)" "valid G (resolved d i)" "same_type G G i (resolved d i)"
  using resolve_map_ok [of G d i] map_ok_mapped [OF _ assms(2), of "d_map d"] assms
  by (auto simp: resolved_def dd_inv_def same_type_refl)

text \<open>A forward declaration resolves to a forward declaration, so ids are not redirected.\<close>

lemma resolve_fwd_valid:
  assumes "dd_inv G d" "valid G i"
  shows "resolve_fwd_id d i = Some i"
proof -
  have len: "length (d_types d) = length G" by (rule dd_inv_lengths(1) [OF assms(1)])
  note r = resolved_valid [OF assms]
  have "btf_kind (fst (d_types d ! unat i)) = btf_kind (fst (d_types d ! unat (resolved d i)))"
    using same_type_nodes(2) [OF r(3) assms(2)] dd_inv_node(1) [OF assms] dd_inv_node(1) [OF assms(1) r(2)]
      same_shape_kind by metis
  then show ?thesis
    using r assms(2) len by (auto simp: resolve_fwd_id_def arr_valid btf_is_fwd_def)
qed

section \<open>The table\<close>

lemma table_candidates:
  "table_ok m (dedup_table d) \<Longrightarrow> for_each_dedup_cand d h = Some (hm_group (dedup_table d) h)"
  by (simp add: for_each_dedup_cand_def hashmap_key_entries_group table_ok_def)

lemma equal_fn_eq: "btf_dedup_equal_fn = (=)"
  by (intro ext) (simp add: btf_dedup_equal_fn_def)

lemma table_add_cases:
  assumes "hm_inv (dedup_table d)" "equal_fn (dedup_table d) = btf_dedup_equal_fn"
  obtains err t where "btf_dedup_table_add d h i = Some (err, d\<lparr>dedup_table := t\<rparr>)"
    "err = 0 \<longrightarrow> hm_inv t \<and> equal_fn t = btf_dedup_equal_fn \<and>
       (\<forall>h'. set (hm_group t h') = (if h = h' then {(h, i)} else {}) \<union> set (hm_group (dedup_table d) h'))"
proof -
  let ?t = "dedup_table d" and ?a = "table_alloc d (sz (dedup_table d))"
  consider (no_room) "\<not> fst ?a" "hashmap_needs_to_grow ?t"
    | (no_entry) "fst ?a \<or> \<not> hashmap_needs_to_grow ?t" "\<not> snd ?a"
    | (fine) "fst ?a \<or> \<not> hashmap_needs_to_grow ?t" "snd ?a" by blast
  then show thesis
  proof cases
    case no_room
    then show thesis
      by (intro that [of "- ENOMEM" ?t])
         (simp_all add: btf_dedup_table_add_def hashmap__append_def insert_append insert_new_no_room)
  next
    case no_entry
    then obtain t where "hashmap_insert_new (fst ?a) False ?t h i = Some (- ENOMEM, None, t)"
      using insert_new_no_entry [OF assms(1), of "fst ?a"] by metis
    then show thesis using no_entry
      by (intro that [of "- ENOMEM" t])
         (simp_all add: btf_dedup_table_add_def hashmap__append_def insert_append)
  next
    case fine
    obtain t where t: "hashmap_insert_new (fst ?a) True ?t h i = Some (0, None, t)" "hm_inv t" "hm_same ?t t"
      "\<And>h'. hm_group t h' = (if equal_fn ?t h h' then [(h, i)] else []) @ hm_order ?t (hm_group ?t h')"
      using insert_new_done [OF assms(1) fine(1), of h i thesis] by metis
    show thesis
      using t fine assms(2)
      by (intro that [of 0 t])
         (auto simp: btf_dedup_table_add_def hashmap__append_def insert_append hm_same_def equal_fn_eq)
  qed
qed

section \<open>Recording a canonical id\<close>

lemma map_ok_update:
  assumes "map_ok G m" "wf_types G" "valid G i" "valid G j" "m ! unat i \<noteq> i"
    "j = i \<or> m ! unat j = j \<and> same_type G G i j"
  shows "map_ok G (m[unat i := j])"
proof -
  have i0: "unat i \<noteq> 0"
    using assms(1,5) unat_eq_0 [of i] by (auto simp: map_ok_def)
  have len: "length m = length G" using assms(1) by (simp add: map_ok_def)
  have j: "j \<le> BTF_MAX_NR_TYPES" by (rule valid_small [OF assms(2,4)])
  have ij: "m[unat i := j] ! unat j = j"
    using assms(4-6) len by auto
  have keep: "m[unat i := j] ! unat (m ! unat x) = m ! unat x"
    if x: "valid G x" "m ! unat x \<le> BTF_MAX_NR_TYPES" for x
  proof -
    have "m ! unat (m ! unat x) = m ! unat x" "valid G (m ! unat x)"
      using map_ok_mapped [OF assms(1) x] by simp_all
    then show ?thesis using assms(5) len by (cases "m ! unat x = i") auto
  qed
  have all: "(m[unat i := j] ! unat x \<le> BTF_MAX_NR_TYPES \<and> valid G (m[unat i := j] ! unat x) \<and>
      m[unat i := j] ! unat (m[unat i := j] ! unat x) = m[unat i := j] ! unat x \<and>
      same_type G G x (m[unat i := j] ! unat x)) \<or>
      m[unat i := j] ! unat x = BTF_UNPROCESSED_ID \<or> m[unat i := j] ! unat x = BTF_IN_PROGRESS_ID"
    if x: "valid G x" for x
  proof (cases "x = i")
    case True
    then show ?thesis
      using j ij assms(3,4,6) len by (auto simp: same_type_refl)
  next
    case False
    then have eq: "m[unat i := j] ! unat x = m ! unat x" by (simp add: x len)
    show ?thesis
      using map_ok_mapped [OF assms(1) x] keep [OF x] assms(1) x
      unfolding eq map_ok_def by blast
  qed
  then show ?thesis using assms(1) i0 len by (simp add: map_ok_def)
qed

lemma table_ok_update:
  assumes "table_ok m t" "m ! unat i \<noteq> i"
  shows "table_ok (m[unat i := j]) t"
  using assms unfolding table_ok_def by auto

lemma table_ok_add:
  assumes "table_ok m t" "hm_inv t'" "equal_fn t' = btf_dedup_equal_fn"
    "\<And>h'. set (hm_group t' h') \<subseteq> insert (h, i) (set (hm_group t h'))"
    "unat i < length m" "m ! unat i = i"
  shows "table_ok m t'"
  using assms unfolding table_ok_def by fastforce

lemma finish_cases:
  assumes "dd_inv G d" "valid G i" "valid G j" "d_map d ! unat i \<noteq> i"
    "j = i \<or> d_map d ! unat j = j \<and> same_type G G i j"
  obtains err t where
    "dedup_finish d h i j = Some (err, d\<lparr>d_map := (d_map d)[unat i := j], dedup_table := t\<rparr>)"
    "err = 0 \<longrightarrow> dd_inv G (d\<lparr>d_map := (d_map d)[unat i := j], dedup_table := t\<rparr>)"
proof -
  let ?m = "(d_map d)[unat i := j]" and ?d = "d\<lparr>d_map := (d_map d)[unat i := j]\<rparr>"
  have m: "map_ok G ?m"
    using assms by (intro map_ok_update) (auto simp: dd_inv_def)
  have t: "table_ok ?m (dedup_table d)"
    using assms(1,4) table_ok_update by (simp add: dd_inv_def)
  have inv: "dd_inv G ?d" using assms(1) m t by (simp add: dd_inv_def)
  show thesis
  proof (cases "i = j")
    case False
    then show thesis
      using inv set_map_valid [OF assms(1,2)]
      by (intro that [of 0 "dedup_table d"]) (simp_all add: dedup_finish_def)
  next
    case True
    obtain err t' where add: "btf_dedup_table_add ?d h i = Some (err, ?d\<lparr>dedup_table := t'\<rparr>)"
      "err = 0 \<longrightarrow> hm_inv t' \<and> equal_fn t' = btf_dedup_equal_fn \<and>
       (\<forall>h'. set (hm_group t' h') = (if h = h' then {(h, i)} else {}) \<union> set (hm_group (dedup_table ?d) h'))"
      using table_add_cases [of ?d h i thesis] t by (auto simp: table_ok_def)
    have "dd_inv G (?d\<lparr>dedup_table := t'\<rparr>)" if "err = 0"
    proof -
      have "unat i < length ?m" "?m ! unat i = i"
        using assms(2) dd_inv_lengths(2) [OF assms(1)] True by simp_all
      then have "table_ok ?m t'" using add(2) that by (intro table_ok_add [OF t]) auto
      then show ?thesis using inv by (simp add: dd_inv_def)
    qed
    then show thesis
      using add(1) True set_map_valid [OF assms(1,2)]
      by (intro that [of "if err \<noteq> 0 then - ENOMEM else 0" t']) (auto simp: dedup_finish_def)
  qed
qed

lemma find_equal_cases:
  assumes "\<forall>e \<in> set es. unat (snd e) < length (d_types d) \<and> eq (d_types d ! unat (snd e)) \<noteq> None"
  obtains j where "find_equal d eq es i = Some j"
    "j = i \<or> (\<exists>e \<in> set es. j = snd e \<and> eq (d_types d ! unat j) = Some True)"
proof -
  have "\<exists>j. find_equal d eq es i = Some j \<and>
    (j = i \<or> (\<exists>e \<in> set es. j = snd e \<and> eq (d_types d ! unat j) = Some True))"
    using assms
  proof (induction es)
    case (Cons e es)
    obtain b where b: "eq (d_types d ! unat (snd e)) = Some b" using Cons.prems by auto
    have "arr (d_types d) (snd e) = Some (d_types d ! unat (snd e))"
      using Cons.prems by (simp add: arr_valid)
    moreover obtain j where "find_equal d eq es i = Some j"
      "j = i \<or> (\<exists>e \<in> set es. j = snd e \<and> eq (d_types d ! unat j) = Some True)"
      using Cons by auto
    ultimately show ?case using b by (cases b) auto
  qed simp
  then show thesis using that by blast
qed

text \<open>Looking a type up among the candidates of a hash and recording the answer.\<close>

lemma lookup_finish:
  assumes inv: "dd_inv G d" and i: "valid G i" "d_map d ! unat i \<noteq> i"
    and eq: "\<And>j. valid G j \<Longrightarrow> eq (d_types d ! unat j) \<noteq> None"
      "\<And>j. valid G j \<Longrightarrow> eq (d_types d ! unat j) = Some True \<Longrightarrow> same_type G G i j"
  obtains j err t where "find_equal d eq (hm_group (dedup_table d) h) i = Some j" "valid G j"
    "same_type G G i j"
    "dedup_finish d h i j = Some (err, d\<lparr>d_map := (d_map d)[unat i := j], dedup_table := t\<rparr>)"
    "err = 0 \<longrightarrow> dd_inv G (d\<lparr>d_map := (d_map d)[unat i := j], dedup_table := t\<rparr>)"
proof -
  note len = dd_inv_lengths [OF inv]
  have cands: "valid G (snd e) \<and> d_map d ! unat (snd e) = snd e"
    if "e \<in> set (hm_group (dedup_table d) h)" for e
    using inv that len by (simp add: dd_inv_def table_ok_def)
  obtain j where j: "find_equal d eq (hm_group (dedup_table d) h) i = Some j"
    "j = i \<or> (\<exists>e \<in> set (hm_group (dedup_table d) h). j = snd e \<and> eq (d_types d ! unat j) = Some True)"
    using find_equal_cases [of "hm_group (dedup_table d) h" d eq i thesis] cands eq(1) len by auto
  have v: "valid G j" "j = i \<or> d_map d ! unat j = j \<and> same_type G G i j"
    using j(2) cands i(1) eq(2) by auto
  show thesis
    using finish_cases [OF inv i(1) v(1) i(2) v(2), of h thesis] j(1) v that same_type_refl by metis
qed

section \<open>Primitive types\<close>

lemma for_types_induct:
  assumes "P is d" "Q 0"
    "\<And>i is d. P (i # is) d \<Longrightarrow> \<exists>err d'. f d i = Some (err, d') \<and> Q err \<and> (err = 0 \<longrightarrow> P is d')"
  shows "\<exists>err d'. for_types f is d = Some (err, d') \<and> Q err \<and> (err = 0 \<longrightarrow> P [] d')"
  using assms(1)
proof (induction "is" arbitrary: d)
  case (Cons i "is")
  obtain err d' where "f d i = Some (err, d')" "Q err" "err = 0 \<longrightarrow> P is d'"
    using assms(3) [OF Cons.prems] by blast
  then show ?case using Cons.IH [of d'] by (cases "err = 0") auto
qed (simp add: assms(2))

lemma find_enum_exact:
  "dont_resolve_fwds d \<Longrightarrow>
   find_enum d t i es = map_option (\<lambda>j. (j, d)) (find_equal d (btf_equal_enum t) es i)"
  by (induction es) (auto split: Option.bind_split)

lemma dd_inv_candidates:
  "dd_inv G d \<Longrightarrow> for_each_dedup_cand d h = Some (hm_group (dedup_table d) h)"
  by (rule table_candidates [of "d_map d"]) (simp add: dd_inv_def)

lemma known_info:
  assumes "dd_inv G d" "valid G i" "valid G j" "btf_kind (fst (d_types d ! unat i)) \<noteq> BTF_KIND_UNKN"
    "info (fst (d_types d ! unat i)) = info (fst (d_types d ! unat j))"
  shows "entry_ok (d_types d ! unat j)"
  using dd_inv_entry [OF assms(1,3)] btf_kind_cong [OF assms(5)] assms(4) by simp

text \<open>One type: nothing else is mapped, and the types stay as they are.\<close>

lemma prim_type_step:
  assumes inv: "dd_inv G d" and i: "valid G i" "i \<noteq> 0"
    and fresh: "self_canonical (d_types d ! unat i) \<or> d_map d ! unat i = BTF_UNPROCESSED_ID"
  obtains err d' where "btf_dedup_prim_type d i = Some (err, d')"
    "err = 0 \<longrightarrow> dd_inv G d' \<and> d_types d' = d_types d \<and>
       hypot_map d' = hypot_map d \<and> hypot_list d' = hypot_list d \<and>
       (\<forall>j. valid G j \<longrightarrow> j \<noteq> i \<longrightarrow> d_map d' ! unat j = d_map d ! unat j)"
proof -
  let ?t = "d_types d ! unat i" and ?k = "btf_kind (fst (d_types d ! unat i))"
  note result = that and len = dd_inv_lengths [OF inv]
  have t: "arr (d_types d) i = Some ?t" using i len by (simp add: arr_valid)
  have ok: "entry_ok ?t" by (rule dd_inv_entry [OF inv i(1)]) (simp add: i)
  have "i \<le> BTF_MAX_NR_TYPES" by (rule valid_small [OF dd_inv_wf [OF inv] i(1)])
  then have free: "d_map d ! unat i \<noteq> i" if "\<not> self_canonical ?t" using fresh that by auto
  note cands = dd_inv_candidates [OF inv]
  have finished: thesis
    if k: "?k \<noteq> BTF_KIND_UNKN" "\<not> self_canonical ?t"
      and eqs: "\<And>j. valid G j \<Longrightarrow> eq (d_types d ! unat j) \<noteq> None"
        "\<And>j. valid G j \<Longrightarrow> eq (d_types d ! unat j) = Some True \<Longrightarrow> ?t = d_types d ! unat j"
      and run: "btf_dedup_prim_type d i = do {
          new_id \<leftarrow> find_equal d eq (hm_group (dedup_table d) h) i; dedup_finish d h i new_id }" for eq h
  proof -
    have "same_type G G i j" if "valid G j" "eq (d_types d ! unat j) = Some True" for j
      using dd_same_nodeI [OF inv i(1)] eqs(2) that by blast
    from lookup_finish [where eq = eq and h = h, OF inv i(1) free [OF k(2)] eqs(1) this]
    obtain j err u where f: "find_equal d eq (hm_group (dedup_table d) h) i = Some j"
      "dedup_finish d h i j = Some (err, d\<lparr>d_map := (d_map d)[unat i := j], dedup_table := u\<rparr>)"
      "err = 0 \<longrightarrow> dd_inv G (d\<lparr>d_map := (d_map d)[unat i := j], dedup_table := u\<rparr>)" by metis
    then have "btf_dedup_prim_type d i =
        Some (err, d\<lparr>d_map := (d_map d)[unat i := j], dedup_table := u\<rparr>)" by (simp add: run)
    then show thesis by (rule result) (use f(3) len in auto)
  qed
  note run = btf_dedup_prim_type_def t Let_def cands
  from ok show thesis
  proof (cases rule: kind_cases)
    case int
    then have u: "?k \<noteq> BTF_KIND_UNKN" by (simp add: btf_kinds)
    note known = known_info [OF inv i(1) _ u]
    obtain h where h: "btf_hash_int ?t = Some h" using hash_total(1) [OF ok int] by auto
    show thesis
    proof (rule finished [of "btf_equal_int ?t" h])
      show "btf_dedup_prim_type d i = do {
          new_id \<leftarrow> find_equal d (btf_equal_int ?t) (hm_group (dedup_table d) h) i;
          dedup_finish d h i new_id }"
        using int h by (simp add: run btf_kinds)
    qed (use int u equal_total(1) [OF ok known] equal_int_eq [OF ok known] in
        \<open>auto simp: self_canonical_def btf_is_var_def btf_kinds btf_equal_int_def common_info split: if_splits\<close>)
  next
    case enum
    then have u: "?k \<noteq> BTF_KIND_UNKN" by (simp add: btf_kinds)
    note known = known_info [OF inv i(1) _ u]
    have "find_enum d ?t i (hm_group (dedup_table d) (btf_hash_enum ?t)) = map_option (\<lambda>j. (j, d))
        (find_equal d (btf_equal_enum ?t) (hm_group (dedup_table d) (btf_hash_enum ?t)) i)"
      using inv by (intro find_enum_exact) (simp add: dd_inv_def)
    then have "btf_dedup_prim_type d i = do {
        new_id \<leftarrow> find_equal d (btf_equal_enum ?t) (hm_group (dedup_table d) (btf_hash_enum ?t)) i;
        dedup_finish d (btf_hash_enum ?t) i new_id }"
      using enum by (simp add: run btf_kinds bind_map_option comp_def)
    then show thesis
    proof (intro finished [of "btf_equal_enum ?t" "btf_hash_enum ?t"])
    qed (use enum u equal_total(2) [OF ok known] equal_enum_eq [OF ok known] in
        \<open>auto simp: self_canonical_def btf_is_var_def btf_kinds btf_equal_enum_def common_info split: if_splits\<close>)
  next
    case fwd
    then have u: "?k \<noteq> BTF_KIND_UNKN" by (simp add: btf_kinds)
    note known = known_info [OF inv i(1) _ u]
    have "?t = d_types d ! unat j" if "valid G j" "btf_equal_common ?t (d_types d ! unat j)" for j
      using equal_common_eq [OF ok known [OF that(1)]] that common_info fwd kind_words_simps by blast
    then show thesis
      using fwd u by (intro finished [of "\<lambda>c. Some (btf_equal_common ?t c)" "btf_hash_common ?t"])
        (auto simp: run btf_kinds self_canonical_def btf_is_var_def)
  qed (use inv in \<open>auto intro!: result [of 0 d] simp: run btf_kinds\<close>)
qed

section \<open>The hypothetical map\<close>

abbreviation (input) hyp :: "btf_dedup \<Rightarrow> u32 \<Rightarrow> u32" where "hyp d c \<equiv> hypot_map d ! unat c"
abbreviation (input) assumed :: "btf_dedup \<Rightarrow> u32 \<Rightarrow> bool" where "assumed d c \<equiv> hyp d c \<le> BTF_MAX_NR_TYPES"

definition hyp_ok :: "bnode list \<Rightarrow> btf_dedup \<Rightarrow> bool" where
  "hyp_ok G d \<longleftrightarrow> set (hypot_list d) = {c. valid G c \<and> assumed d c} \<and>
     (\<forall>c. valid G c \<longrightarrow> assumed d c \<and> valid G (hyp d c) \<or> hyp d c = BTF_UNPROCESSED_ID)"

lemma unset_all_valid:
  assumes "\<forall>i \<in> set is. unat i < length m"
  obtains m' where "unset_all m is = Some m'" "length m' = length m"
    "\<forall>c. unat c < length m \<longrightarrow> m' ! unat c = (if c \<in> set is then BTF_UNPROCESSED_ID else m ! unat c)"
proof -
  have "\<exists>m'. unset_all m is = Some m' \<and> length m' = length m \<and>
    (\<forall>c. unat c < length m \<longrightarrow> m' ! unat c = (if c \<in> set is then BTF_UNPROCESSED_ID else m ! unat c))"
    using assms
  proof (induction "is" arbitrary: m)
    case (Cons i "is")
    have "\<exists>m'. unset_all (m[unat i := BTF_UNPROCESSED_ID]) is = Some m' \<and> length m' = length m \<and>
      (\<forall>c. unat c < length m \<longrightarrow> m' ! unat c =
         (if c \<in> set is then BTF_UNPROCESSED_ID else m[unat i := BTF_UNPROCESSED_ID] ! unat c))"
      using Cons.IH [of "m[unat i := BTF_UNPROCESSED_ID]"] Cons.prems by simp
    then show ?case using Cons.prems by (force simp: arr_valid)
  qed simp
  then show thesis using that by blast
qed

lemma clear_valid:
  assumes "hyp_ok G d" "length (hypot_map d) = length G"
  obtains m where "btf_dedup_clear_hypot_map d = Some (d\<lparr>hypot_map := m, hypot_list := []\<rparr>)"
    "length m = length G" "\<forall>c. valid G c \<longrightarrow> m ! unat c = BTF_UNPROCESSED_ID"
proof -
  have l: "set (hypot_list d) = {c. valid G c \<and> assumed d c}"
    and v: "\<forall>c. valid G c \<longrightarrow> assumed d c \<and> valid G (hyp d c) \<or> hyp d c = BTF_UNPROCESSED_ID"
    using assms(1) by (auto simp: hyp_ok_def)
  obtain m where m: "unset_all (hypot_map d) (hypot_list d) = Some m" "length m = length (hypot_map d)"
    "\<forall>c. unat c < length (hypot_map d) \<longrightarrow>
       m ! unat c = (if c \<in> set (hypot_list d) then BTF_UNPROCESSED_ID else hyp d c)"
    using unset_all_valid [of "hypot_list d" "hypot_map d" thesis] l assms(2) by auto
  have "m ! unat c = BTF_UNPROCESSED_ID" if "valid G c" for c
    using m(3) v l assms(2) that by auto
  then show thesis using m assms(2) by (intro that) (auto simp: btf_dedup_clear_hypot_map_def)
qed

text \<open>What a comparison may change, and what it has to keep.\<close>

definition same_core :: "btf_dedup \<Rightarrow> btf_dedup \<Rightarrow> bool" where
  "same_core d d' \<longleftrightarrow> length (hypot_map d') = length (hypot_map d) \<and>
     d' = d\<lparr>hypot_map := hypot_map d', hypot_list := hypot_list d', hypot_cap := hypot_cap d'\<rparr>"

definition keeps :: "bnode list \<Rightarrow> btf_dedup \<Rightarrow> btf_dedup \<Rightarrow> bool" where
  "keeps G d d' \<longleftrightarrow> (\<forall>c. valid G c \<longrightarrow> assumed d c \<longrightarrow> hyp d' c = hyp d c)"

lemma same_core_refl [simp]: "same_core d d"
  by (simp add: same_core_def)

lemma same_core_trans:
  assumes "same_core d1 d2" "same_core d2 d3"
  shows "same_core d1 d3"
proof -
  have d2: "d2 = d1\<lparr>hypot_map := hypot_map d2, hypot_list := hypot_list d2, hypot_cap := hypot_cap d2\<rparr>"
    and d3: "d3 = d2\<lparr>hypot_map := hypot_map d3, hypot_list := hypot_list d3, hypot_cap := hypot_cap d3\<rparr>"
    using assms by (simp_all add: same_core_def)
  have "d3 = d1\<lparr>hypot_map := hypot_map d3, hypot_list := hypot_list d3, hypot_cap := hypot_cap d3\<rparr>"
    by (subst d3, subst d2) simp
  then show ?thesis using assms by (simp add: same_core_def)
qed

lemma same_core_fields:
  assumes "same_core d d'"
  shows "d_types d' = d_types d" "d_map d' = d_map d" "dedup_table d' = dedup_table d"
    "dont_resolve_fwds d' = dont_resolve_fwds d" "d_nr_types d' = d_nr_types d"
    "length (hypot_map d') = length (hypot_map d)"
proof -
  have e: "d' = d\<lparr>hypot_map := hypot_map d', hypot_list := hypot_list d', hypot_cap := hypot_cap d'\<rparr>"
    and "length (hypot_map d') = length (hypot_map d)" using assms by (auto simp: same_core_def)
  then show "length (hypot_map d') = length (hypot_map d)" by simp
  show "d_types d' = d_types d" "d_map d' = d_map d" "dedup_table d' = dedup_table d"
    "dont_resolve_fwds d' = dont_resolve_fwds d" "d_nr_types d' = d_nr_types d"
    by (subst e, simp)+
qed

lemma same_core_inv: "same_core d d' \<Longrightarrow> dd_inv G d \<Longrightarrow> dd_inv G d'"
  using same_core_fields [of d d'] by (simp add: dd_inv_def)

lemma keeps_refl [simp]: "keeps G d d"
  by (simp add: keeps_def)

lemma keeps_trans: "keeps G d1 d2 \<Longrightarrow> keeps G d2 d3 \<Longrightarrow> keeps G d1 d3"
  by (simp add: keeps_def)

text \<open>The number of ids without an assumption bounds the depth of the recursion.\<close>

definition free_ids :: "bnode list \<Rightarrow> btf_dedup \<Rightarrow> nat" where
  "free_ids G d = card {c. valid G c \<and> \<not> assumed d c}"

lemma free_ids_keeps: "keeps G d d' \<Longrightarrow> free_ids G d' \<le> free_ids G d"
  unfolding free_ids_def by (rule card_mono) (auto simp: keeps_def)

lemma card_valid: "length G \<le> 2 ^ 32 \<Longrightarrow> card {c :: u32. valid G c} \<le> length G"
proof -
  have "card (unat ` {c :: u32. valid G c}) \<le> card {0..<length G}"
    by (rule card_mono) auto
  moreover have "card (unat ` {c :: u32. valid G c}) = card {c :: u32. valid G c}"
    by (rule card_image) (simp add: inj_on_def word_unat_eq_iff)
  ultimately show ?thesis by simp
qed

lemma free_ids_depth:
  assumes "dd_inv G d"
  shows "free_ids G d < dedup_depth d"
proof -
  have "free_ids G d \<le> card {c :: u32. valid G c}" unfolding free_ids_def by (rule card_mono) auto
  also have "\<dots> \<le> length G" by (rule card_valid) (use dd_inv_lengths(4) [OF assms] in simp)
  finally show ?thesis using dd_inv_lengths(1) [OF assms] by (simp add: dedup_depth_def)
qed

text \<open>Adding one assumption.\<close>

lemma hypot_add_cases:
  assumes "dd_inv G d" "hyp_ok G d" "valid G c" "valid G a" "\<not> assumed d c"
  obtains err d' where "btf_dedup_hypot_map_add d c a = Some (err, d')" "same_core d d'" "hyp_ok G d'"
    "keeps G d d'" "err = 0 \<Longrightarrow> hyp d' c = a"
    "err = 0 \<Longrightarrow> free_ids G d' < free_ids G d"
    "err = 0 \<Longrightarrow> \<forall>x. valid G x \<longrightarrow> x \<noteq> c \<longrightarrow> hyp d' x = hyp d x"
proof -
  note len = dd_inv_lengths(3) [OF assms(1)]
  obtain ok cp where g: "(if length (hypot_list d) = hypot_cap d then
           let new_cap = hypot_cap d + max 16 (hypot_cap d div 2) in
           (list_alloc d new_cap, d\<lparr>hypot_cap := new_cap\<rparr>)
         else (True, d)) = (ok, d\<lparr>hypot_cap := cp\<rparr>)"
    using that [of True "hypot_cap d"] by (cases "length (hypot_list d) = hypot_cap d") (simp_all add: Let_def)
  show thesis
  proof (cases ok)
    case False
    then show thesis using assms(2)
      by (intro that [of "- ENOMEM" "d\<lparr>hypot_cap := cp\<rparr>"])
         (simp_all add: btf_dedup_hypot_map_add_def g same_core_def hyp_ok_def keeps_def)
  next
    case True
    let ?d = "d\<lparr>hypot_cap := cp, hypot_list := hypot_list d @ [c], hypot_map := (hypot_map d)[unat c := a]\<rparr>"
    have h: "hyp ?d x = (if x = c then a else hyp d x)" if "valid G x" for x
      using that len by simp
    have a: "a \<le> BTF_MAX_NR_TYPES" by (rule valid_small [OF dd_inv_wf [OF assms(1)] assms(4)])
    show thesis
    proof (rule that [of 0 ?d])
      show "btf_dedup_hypot_map_add d c a = Some (0, ?d)"
        using True assms(3) len by (simp add: btf_dedup_hypot_map_add_def g arr_valid)
      show "same_core d ?d" by (simp add: same_core_def)
      show "hyp_ok G ?d"
        using assms(2-5) len a unfolding hyp_ok_def by (auto split: if_splits)
      show "keeps G d ?d" using assms(5) h by (auto simp: keeps_def)
      show "hyp ?d c = a" using h [OF assms(3)] by simp
      have "{x. valid G x \<and> \<not> assumed ?d x} \<subset> {x. valid G x \<and> \<not> assumed d x}"
      proof
        show "{x. valid G x \<and> \<not> assumed ?d x} \<subseteq> {x. valid G x \<and> \<not> assumed d x}"
          using h a by (auto split: if_splits)
        have "c \<notin> {x. valid G x \<and> \<not> assumed ?d x}" using h [OF assms(3)] a assms(3) by simp
        then show "{x. valid G x \<and> \<not> assumed ?d x} \<noteq> {x. valid G x \<and> \<not> assumed d x}"
          using assms(3,5) by blast
      qed
      then show "free_ids G ?d < free_ids G d" unfolding free_ids_def by (intro psubset_card_mono) auto
      show "\<forall>x. valid G x \<longrightarrow> x \<noteq> c \<longrightarrow> hyp ?d x = hyp d x" using h by simp
    qed
  qed
qed

section \<open>Comparing two types\<close>

lemma slot_pairs_valid:
  assumes "entry_ok t1" "entry_ok t2" "ref_slots t1 = ref_slots t2" "set ss = set (ref_slots t1)"
  obtains ps where "slot_pairs t1 t2 ss = Some ps" "set ps = set (zip (refs t1) (refs t2))"
proof -
  have fit: "\<exists>v. get_slot t1 s = Some v" "\<exists>v. get_slot t2 s = Some v" if "s \<in> set ss" for s
    using get_slot_fits [OF assms(1)] get_slot_fits [OF assms(2)] assms(3,4) that by auto
  let ?f = "\<lambda>s. (the (get_slot t1 s), the (get_slot t2 s))"
  have "slot_pairs t1 t2 ss' = Some (map ?f ss')" if "set ss' \<subseteq> set ss" for ss'
    using that
  proof (induction ss')
    case (Cons s ss')
    obtain v w where "get_slot t1 s = Some v" "get_slot t2 s = Some w"
      using fit [of s] Cons.prems by auto
    then show ?case using Cons by (simp add: slot_pairs_def)
  qed (simp add: slot_pairs_def)
  moreover have "zip (refs t1) (refs t2) = map ?f (ref_slots t1)"
    by (simp add: refs_def assms(3) [symmetric] zip_map_map zip_same_conv_map)
  ultimately show thesis using assms(4) that [of "map ?f ss"] by simp
qed

text \<open>
  When forward declarations are not resolved, a positive answer means equal types, and pairs to compare
  are handed out only for types of the same shape: the pairs of all their references.
\<close>

lemma shape_check_cases:
  assumes ok: "btf_kind (fst t1) \<noteq> BTF_KIND_UNKN \<Longrightarrow> entry_ok t1"
    "btf_kind (fst t2) \<noteq> BTF_KIND_UNKN \<Longrightarrow> entry_ok t2"
  obtains (no) eq where "shape_check True t1 t2 = Some (Inl eq)" "eq \<le> 0"
  | (equal) "shape_check True t1 t2 = Some (Inl 1)" "t1 = t2"
  | (pairs) ps where "shape_check True t1 t2 = Some (Inr ps)" "same_shape t1 t2"
      "set ps = set (zip (refs t1) (refs t2))"
proof (cases "name_off (fst t1) = name_off (fst t2) \<and> btf_kind (fst t1) = btf_kind (fst t2) \<and>
    btf_kind (fst t1) \<noteq> BTF_KIND_UNKN")
  case False
  then show thesis
    by (intro no [of "if name_off (fst t1) = name_off (fst t2) \<and> btf_kind (fst t1) = btf_kind (fst t2)
          then - EINVAL else 0"])
       (auto simp: shape_check_def Let_def btf_kinds)
next
  case True
  then have ok1: "entry_ok t1" and ok2: "entry_ok t2" and k: "btf_kind (fst t2) = btf_kind (fst t1)"
    and name: "name_off (fst t1) = name_off (fst t2)" using ok by auto
  note total = equal_total [OF ok1 ok2]
  have flat: thesis
    if "shape_check True t1 t2 = map_option (\<lambda>b. Inl (of_eq b)) (Some b)" "b \<Longrightarrow> t1 = t2" for b
    using that no [of 0] equal by (cases b) (auto simp: of_eq_def)
  have deep: thesis
    if "shape_check True t1 t2 = do { b \<leftarrow> Some ok;
          if \<not> b then Some (Inl 0) else map_option Inr (slot_pairs t1 t2 ss) }"
      "ok \<Longrightarrow> same_shape t1 t2" "set ss = set (ref_slots t1)" for ok ss
  proof (cases ok)
    case True
    note sh = that(2) [OF True] and slots = that(3)
    obtain ps where "slot_pairs t1 t2 ss = Some ps" "set ps = set (zip (refs t1) (refs t2))"
      using slot_pairs_valid [OF ok1 ok2 same_shape_slots [OF sh] slots] by metis
    then show thesis using that(1) True sh by (intro pairs [of ps]) auto
  next
    case False
    then show thesis using that(1) by (intro no [of 0]) auto
  qed
  note run = shape_check_def Let_def name k
  from ok1 show thesis
  proof (cases rule: kind_cases)
    case int
    then obtain b where b: "btf_equal_int t1 t2 = Some b" using total(1) by auto
    show thesis
    proof (rule flat [of b])
      show "t1 = t2" if b using equal_int_eq [OF ok1 ok2 int] b that by simp
    qed (use b int in \<open>simp add: run btf_kinds\<close>)
  next
    case enum
    then obtain b where b: "btf_equal_enum t1 t2 = Some b" using total(2) by auto
    show thesis
    proof (rule flat [of b])
      show "t1 = t2" if b using equal_enum_eq [OF ok1 ok2 enum] b that by simp
    qed (use b enum in \<open>simp add: run btf_kinds\<close>)
  next
    case fwd
    show thesis
    proof (rule flat [of "btf_equal_common t1 t2"])
      show "t1 = t2" if "btf_equal_common t1 t2"
        using equal_common_eq [OF ok1 ok2 kind_words_simps(9) [OF fwd] that] .
    qed (use fwd in \<open>simp add: run btf_kinds\<close>)
  next
    case array
    then obtain b where b: "btf_compat_array t1 t2 = Some b" using total(4) by auto
    show thesis
    proof (rule deep [of b "[SlotWord 1, SlotWord 0]"])
      show "same_shape t1 t2" if b using compat_array_shape [OF ok1 ok2 array] b that by simp
    qed (use b array ref_slots_simps(3) [OF array] in \<open>auto simp: run btf_kinds\<close>)
  next
    case struct
    then obtain b where b: "btf_shallow_equal_struct t1 t2 = Some b" using total(7) by auto
    show thesis
    proof (rule deep [of b "map (\<lambda>i. SlotWord (3 * i + 1)) [0..<vlen_of t1]"])
      show "same_shape t1 t2" if b using shallow_struct_shape [OF ok1 ok2 struct] b that by simp
      show "shape_check True t1 t2 = do { b \<leftarrow> Some b; if \<not> b then Some (Inl 0)
          else map_option Inr (slot_pairs t1 t2 (map (\<lambda>i. SlotWord (3 * i + 1)) [0..<vlen_of t1])) }"
        using struct b by (elim disjE) (simp_all add: run btf_kinds)
    qed (use struct in \<open>auto simp: ref_slots_simps\<close>)
  next
    case proto
    then obtain b where b: "btf_compat_fnproto t1 t2 = Some b" using total(6) by auto
    show thesis
    proof (rule deep [of b "SizeType # map (\<lambda>i. SlotWord (2 * i + 1)) [0..<vlen_of t1]"])
      show "same_shape t1 t2" if b using compat_fnproto_shape [OF ok1 ok2 proto] b that by simp
      show "shape_check True t1 t2 = do { b \<leftarrow> Some b; if \<not> b then Some (Inl 0)
          else map_option Inr (slot_pairs t1 t2
            (SizeType # map (\<lambda>i. SlotWord (2 * i + 1)) [0..<vlen_of t1])) }"
        using proto b by (simp add: run btf_kinds)
    qed (simp add: ref_slots_simps(6) [OF proto])
  next
    case modifier
    have w: "length (snd t1) = 0"
      using vlen_words [OF ok1] modifier by (auto simp: kind_words_simps)
    have r: "ref_slots t1 = [SizeType]" using modifier by (auto simp: ref_slots_simps)
    show thesis
    proof (rule deep [of "info (fst t1) = info (fst t2)" "[SizeType]"])
      show "shape_check True t1 t2 = do { b \<leftarrow> Some (info (fst t1) = info (fst t2));
          if \<not> b then Some (Inl 0) else map_option Inr (slot_pairs t1 t2 [SizeType]) }"
        using modifier by (auto simp: run btf_kinds)
      show "same_shape t1 t2" if "info (fst t1) = info (fst t2)"
        using that name w r entry_ok_length_cong [OF ok1 ok2 that] by (simp add: same_shape_def)
    qed (simp add: r)
  next
    case var
    then show thesis by (intro no [of "- EINVAL"]) (auto simp: run btf_kinds)
  next
    case datasec
    then show thesis by (intro no [of "- EINVAL"]) (auto simp: run btf_kinds)
  qed
qed

section \<open>Equivalence of graphs\<close>

text \<open>
  A pair is linked when its ids stand for the same type already, or when it is assumed; an assumption is
  settled when its types have the same shape and their references are linked.
\<close>

definition linked :: "bnode list \<Rightarrow> btf_dedup \<Rightarrow> u32 \<Rightarrow> u32 \<Rightarrow> bool" where
  "linked G d a b \<longleftrightarrow> same_type G G a b \<or> (valid G b \<and> assumed d b \<and> hyp d b = a)"

definition settled :: "bnode list \<Rightarrow> btf_dedup \<Rightarrow> u32 \<Rightarrow> bool" where
  "settled G d c \<longleftrightarrow>
     same_shape (d_types d ! unat (hyp d c)) (d_types d ! unat c) \<and>
     (\<forall>p \<in> set (zip (refs (d_types d ! unat (hyp d c))) (refs (d_types d ! unat c))).
        linked G d (fst p) (snd p))"

text \<open>What a comparison of the pairs \<open>ps\<close> that starts in \<open>d\<close> and answers \<open>eq\<close> has done.\<close>

definition compared :: "bnode list \<Rightarrow> btf_dedup \<Rightarrow> (u32 \<times> u32) list \<Rightarrow> int \<Rightarrow> btf_dedup \<Rightarrow> bool" where
  "compared G d ps eq d' \<longleftrightarrow> same_core d d' \<and> hyp_ok G d' \<and> keeps G d d' \<and>
     (0 < eq \<longrightarrow> (\<forall>p \<in> set ps. linked G d' (fst p) (snd p)) \<and>
        (\<forall>c. valid G c \<longrightarrow> \<not> assumed d c \<longrightarrow> assumed d' c \<longrightarrow> settled G d' c))"

lemma linked_keeps: "keeps G d d' \<Longrightarrow> linked G d a b \<Longrightarrow> linked G d' a b"
  by (auto simp: linked_def keeps_def)

lemma settled_keeps:
  assumes "keeps G d d'" "same_core d d'" "valid G c" "assumed d c" "settled G d c"
  shows "settled G d' c"
proof -
  have "hyp d' c = hyp d c" using assms(1,3,4) by (simp add: keeps_def)
  then show ?thesis
    using assms(5) linked_keeps [OF assms(1)] same_core_fields(1) [OF assms(2)]
    by (auto simp: settled_def)
qed

lemma compared_trivial: "hyp_ok G d \<Longrightarrow> (\<And>p. 0 < eq \<Longrightarrow> p \<in> set ps \<Longrightarrow> linked G d (fst p) (snd p)) \<Longrightarrow>
    compared G d ps eq d"
  by (auto simp: compared_def)

lemma compared_append:
  assumes "compared G d [p] eq1 d1" "0 < eq1" "compared G d1 ps eq d2"
  shows "compared G d (p # ps) eq d2"
proof -
  have k: "keeps G d d1" "keeps G d1 d2" "same_core d d1" "same_core d1 d2" "hyp_ok G d2"
    using assms by (simp_all add: compared_def)
  have "settled G d2 c" if "0 < eq" "valid G c" "\<not> assumed d c" "assumed d2 c" for c
  proof (cases "assumed d1 c")
    case True
    then have "settled G d1 c" using assms(1,2) that by (simp add: compared_def)
    then show ?thesis using settled_keeps [OF k(2,4) that(2) True] by simp
  next
    case False
    then show ?thesis using assms(3) that by (simp add: compared_def)
  qed
  moreover have "linked G d2 (fst p) (snd p)"
    using assms(1,2) linked_keeps [OF k(2)] by (simp add: compared_def)
  moreover have "\<forall>q \<in> set ps. linked G d2 (fst q) (snd q)" if "0 < eq"
    using assms(3) that by (simp add: compared_def)
  ultimately show ?thesis
    using k keeps_trans same_core_trans by (auto simp: compared_def)
qed

lemma node_kind_ok:
  assumes "dd_inv G d" "valid G i"
  shows "arr (d_types d) i = Some (d_types d ! unat i)"
    "btf_kind (fst (d_types d ! unat i)) \<noteq> BTF_KIND_UNKN \<Longrightarrow> entry_ok (d_types d ! unat i)"
  using dd_inv_lengths(1) [OF assms(1)] assms(2) dd_inv_entry [OF assms] by (auto simp: arr_valid)

text \<open>
  The comparison never leaves the arrays, comes back within its depth, and does what it claims.
\<close>

lemma is_equiv_compared:
  "dd_inv G d \<Longrightarrow> hyp_ok G d \<Longrightarrow> valid G cand \<Longrightarrow> valid G canon \<Longrightarrow> free_ids G d < n \<Longrightarrow>
    \<exists>eq d'. btf_dedup_is_equiv n d cand canon = Some (eq, d') \<and> compared G d [(cand, canon)] eq d'"
  "dd_inv G d \<Longrightarrow> hyp_ok G d \<Longrightarrow> \<forall>p \<in> set ps. valid G (fst p) \<and> valid G (snd p) \<Longrightarrow>
    free_ids G d < n \<Longrightarrow> \<exists>eq d'. is_equivs n d ps = Some (eq, d') \<and> compared G d ps eq d'"
proof (induction n d cand canon and n d ps rule: btf_dedup_is_equiv_is_equivs.induct)
  case (1 d cand canon)
  then show ?case by simp
next
  case (2 n d cand canon)
  note inv = "2.prems"(1) and hok = "2.prems"(2) and v = "2.prems"(3,4)
  note ra = resolved_valid [OF inv v(1)] and rb = resolved_valid [OF inv v(2)]
  have len: "length (hypot_map d) = length G" by (rule dd_inv_lengths(3) [OF inv])
  show ?case
  proof (cases "resolved d cand = resolved d canon")
    case True
    then have "same_type G G cand canon"
      using ra(3) rb(3) by (metis same_type_sym same_type_trans)
    then show ?thesis
      using ra(1) rb(1) True by (auto simp: linked_def intro!: compared_trivial [OF hok])
  next
    case False
    note fwd = resolve_fwd_valid [OF inv v(2)]
    have h: "arr (hypot_map d) canon = Some (hyp d canon)" using v(2) len by (simp add: arr_valid)
    show ?thesis
    proof (cases "assumed d canon")
      case True
      then show ?thesis
        using ra(1) rb(1) False fwd h v(2)
        by (auto simp: linked_def of_eq_def intro!: compared_trivial [OF hok] split: if_splits)
    next
      case not_assumed: False
      obtain err d1 where add: "btf_dedup_hypot_map_add d canon cand = Some (err, d1)" "same_core d d1"
        "hyp_ok G d1" "keeps G d d1" "err = 0 \<Longrightarrow> hyp d1 canon = cand"
        "err = 0 \<Longrightarrow> free_ids G d1 < free_ids G d"
        "err = 0 \<Longrightarrow> \<forall>x. valid G x \<longrightarrow> x \<noteq> canon \<longrightarrow> hyp d1 x = hyp d x"
        using hypot_add_cases [OF inv hok v(2,1) not_assumed] by metis
      note step = ra(1) rb(1) False fwd h not_assumed add(1)
      show ?thesis
      proof (cases "err = 0")
        case False
        then show ?thesis using step add(2-4) by (simp add: compared_def)
      next
        case True
        note inv1 = same_core_inv [OF add(2) inv] and ty = same_core_fields(1) [OF add(2)]
        let ?a = "d_types d ! unat cand" and ?c = "d_types d ! unat canon"
        have dont: "dont_resolve_fwds d1" using inv1 by (simp add: dd_inv_def)
        note na = node_kind_ok [OF inv1 v(1), unfolded ty] and nc = node_kind_ok [OF inv1 v(2), unfolded ty]
        have link: "linked G d1 cand canon"
          using add(5) [OF True] v valid_small [OF dd_inv_wf [OF inv] v(1)] by (simp add: linked_def)
        note run = step True dont na(1) nc(1) ty
        have only: "c = canon" if "valid G c" "\<not> assumed d c" "assumed d1 c" for c
          using add(7) [OF True] that by metis
        consider (no) eq where "shape_check True ?a ?c = Some (Inl eq)" "eq \<le> 0"
          | (equal) "shape_check True ?a ?c = Some (Inl 1)" "?a = ?c"
          | (pairs) ps where "shape_check True ?a ?c = Some (Inr ps)" "same_shape ?a ?c"
              "set ps = set (zip (refs ?a) (refs ?c))"
          by (rule shape_check_cases [of ?a ?c]) (use na(2) nc(2) in blast)+
        then show ?thesis
        proof cases
          case (no eq)
          then show ?thesis using run add(2-4) by (simp add: compared_def)
        next
          case equal
          have "settled G d1 c" if "valid G c" "\<not> assumed d c" "assumed d1 c" for c
          proof -
            have "same_type G G (fst p) (snd p)" if "p \<in> set (zip (refs ?c) (refs ?c))" for p
              using that same_type_refl by (auto simp: zip_same_conv_map)
            then show ?thesis
              using only [OF that] add(5) [OF True] equal(2) ty by (simp add: settled_def linked_def)
          qed
          then show ?thesis using run equal(1) add(2-4) link by (simp add: compared_def)
        next
          case (pairs ps)
          have vps: "\<forall>p \<in> set ps. valid G (fst p) \<and> valid G (snd p)"
            using pairs(3) dd_inv_refs [OF inv v(1)] dd_inv_refs [OF inv v(2)]
            by (auto dest: set_zip_leftD set_zip_rightD)
          have sc: "shape_check (dont_resolve_fwds d1) ?a ?c = Some (Inr ps)" using pairs(1) dont by simp
          have fr: "free_ids G d1 < n" using add(6) [OF True] "2.prems"(5) by simp
          note IH = "2.IH" [OF ra(1) rb(1) False fwd h not_assumed add(1) refl _ _ _ _ refl inv1 add(3) vps fr]
          obtain eq d2 where d2: "is_equivs n d1 ps = Some (eq, d2)" "compared G d1 ps eq d2"
            using IH [of ?a ?c] True na(1) nc(1) ty sc by auto
          have k: "keeps G d1 d2" "same_core d1 d2" "hyp_ok G d2" using d2(2) by (simp_all add: compared_def)
          have "settled G d2 c" if "0 < eq" "valid G c" "\<not> assumed d c" "assumed d2 c" for c
          proof (cases "assumed d1 c")
            case old: True
            have c: "c = canon" by (rule only [OF that(2,3) old])
            have "hyp d2 c = cand" using k(1) old that(2) add(5) [OF True] c by (simp add: keeps_def)
            then show ?thesis
              using d2(2) that(1) pairs(2,3) c same_core_fields(1) [OF k(2)] ty
              by (simp add: settled_def compared_def)
          next
            case False
            then show ?thesis using d2(2) that by (simp add: compared_def)
          qed
          then have "compared G d [(cand, canon)] eq d2"
            using k keeps_trans [OF add(4) k(1)] same_core_trans [OF add(2) k(2)]
              linked_keeps [OF k(1) link] by (simp add: compared_def)
          then show ?thesis using run d2(1) pairs(1) by simp
        qed
      qed
    qed
  qed
next
  case (3 n d)
  then show ?case by (auto intro: compared_trivial)
next
  case (4 n d p ps)
  obtain eq1 d1 where d1: "btf_dedup_is_equiv n d (fst p) (snd p) = Some (eq1, d1)"
    "compared G d [p] eq1 d1"
    using "4.IH"(1) "4.prems" by auto
  have k: "keeps G d d1" "same_core d d1" "hyp_ok G d1" using d1(2) by (simp_all add: compared_def)
  show ?case
  proof (cases "eq1 \<le> 0")
    case True
    then show ?thesis using d1 by (auto simp: compared_def)
  next
    case False
    have "free_ids G d1 < n" using free_ids_keeps [OF k(1)] "4.prems"(4) by simp
    then obtain eq d2 where "is_equivs n d1 ps = Some (eq, d2)" "compared G d1 ps eq d2"
      using "4.IH"(2) [OF d1(1) refl] False same_core_inv [OF k(2)] k(3) "4.prems" by auto
    then show ?thesis using compared_append [OF d1(2)] d1(1) False by auto
  qed
qed

text \<open>Assumptions that are all settled are true.\<close>

lemma settled_same_type:
  assumes inv: "dd_inv G d" and hok: "hyp_ok G d"
    and all: "\<And>c. valid G c \<Longrightarrow> assumed d c \<Longrightarrow> settled G d c" and c: "valid G c" "assumed d c"
  shows "same_type G G (hyp d c) c"
proof -
  have main: "same_type G G i j"
    if "\<exists>c. valid G c \<and> assumed d c \<and> same_type G G i (hyp d c) \<and> same_type G G c j" for i j
    using that
  proof (coinduction arbitrary: i j)
    case same_type
    then obtain c where c: "valid G c" "assumed d c" and ia: "same_type G G i (hyp d c)"
      and cj: "same_type G G c j" by blast
    let ?a = "hyp d c"
    have va: "valid G ?a" using hok c special_ids(1) by (auto simp: hyp_ok_def)
    have vi: "valid G i" using ia va by (meson same_type_nodes(1) same_type_sym)
    have vj: "valid G j" using same_type_nodes(1) [OF cj c(1)] .
    note na = dd_inv_node [OF inv va] and nc = dd_inv_node [OF inv c(1)]
    have st: "same_shape (d_types d ! unat ?a) (d_types d ! unat c)"
      "\<forall>p \<in> set (zip (refs (d_types d ! unat ?a)) (refs (d_types d ! unat c))). linked G d (fst p) (snd p)"
      using all [OF c] by (simp_all add: settled_def)
    note sh1 = same_type_nodes(2) [OF ia vi] and sh2 = same_type_nodes(2) [OF cj c(1)]
    have shape: "same_shape (G ! unat i) (G ! unat j)"
      using sh1 na(1) st(1) same_shape_sym [OF nc(1)] sh2 by (blast intro: same_shape_trans)
    have "(\<exists>c. valid G c \<and> assumed d c \<and> same_type G G (refs (G ! unat i) ! k) (hyp d c) \<and>
        same_type G G c (refs (G ! unat j) ! k)) \<or>
        same_type G G (refs (G ! unat i) ! k) (refs (G ! unat j) ! k)"
      if k: "k < length (refs (G ! unat i))" for k
    proof -
      let ?x = "refs (d_types d ! unat ?a) ! k" and ?y = "refs (d_types d ! unat c) ! k"
      have len: "length (refs (G ! unat i)) = length (refs (G ! unat ?a))"
        "length (refs (G ! unat ?a)) = length (refs (d_types d ! unat ?a))"
        "length (refs (d_types d ! unat ?a)) = length (refs (d_types d ! unat c))"
        "length (refs (G ! unat c)) = length (refs (d_types d ! unat c))"
        using same_shape_length_refs sh1 na(1) st(1) nc(1) by blast+
      have ix: "same_type G G (refs (G ! unat i) ! k) ?x"
        using same_type_nodes(3) [OF ia vi k] na(2) k len by (auto intro: same_type_trans)
      have yj: "same_type G G ?y (refs (G ! unat j) ! k)"
        by (rule same_type_trans [OF same_type_sym same_type_nodes(3) [OF cj c(1), of k]])
           (use nc(2) k len in auto)
      have "(?x, ?y) \<in> set (zip (refs (d_types d ! unat ?a)) (refs (d_types d ! unat c)))"
        using k len by (auto simp: set_zip)
      then have "linked G d ?x ?y" using st(2) by fastforce
      then consider "same_type G G ?x ?y" | "valid G ?y" "assumed d ?y" "hyp d ?y = ?x"
        by (auto simp: linked_def)
      then show ?thesis
      proof cases
        case 1
        then show ?thesis using ix yj same_type_trans by blast
      next
        case 2
        then have "same_type G G (refs (G ! unat i) ! k) (hyp d ?y)" using ix by simp
        then show ?thesis using 2(1,2) yj by (intro disjI1 exI [of _ ?y] conjI)
      qed
    qed
    then show ?case using vi vj shape by (intro disjI1 exI [of _ i] exI [of _ j]) simp
  qed
  show ?thesis using main [of "hyp d c" c] c same_type_refl by blast
qed

section \<open>Structs and unions\<close>

text \<open>Merging maps only what was not mapped, so the canonical ids stay the same.\<close>

lemma merge_valid:
  assumes "dd_inv G d" "\<And>c. c \<in> set ids \<Longrightarrow> valid G c \<and> valid G (hyp d c) \<and> same_type G G (hyp d c) c"
  shows "\<exists>m. merge_hypot d ids = Some (d\<lparr>d_map := m\<rparr>) \<and> dd_inv G (d\<lparr>d_map := m\<rparr>) \<and>
    (\<forall>i. valid G i \<longrightarrow> (m ! unat i = i \<longleftrightarrow> d_map d ! unat i = i))"
  using assms
proof (induction ids arbitrary: d)
  case Nil
  then show ?case by (intro exI [of _ "d_map d"]) simp
next
  case (Cons c ids)
  note inv = Cons.prems(1)
  have c: "valid G c" "valid G (hyp d c)" "same_type G G (hyp d c) c" using Cons.prems(2) [of c] by simp_all
  let ?t = "resolved d (hyp d c)" and ?c = "resolved d c"
  note rt = resolved_valid [OF inv c(2)] and rc = resolved_valid [OF inv c(1)]
  note len = dd_inv_lengths [OF inv]
  have tc: "same_type G G ?t ?c" using rt(3) rc(3) c(3) by (meson same_type_sym same_type_trans)
  have kinds: "btf_kind (fst (d_types d ! unat ?t)) = btf_kind (fst (d_types d ! unat ?c))"
    using same_type_nodes(2) [OF tc rt(2)] dd_inv_node(1) [OF inv rt(2)] dd_inv_node(1) [OF inv rc(2)]
      same_shape_kind by metis
  have h: "arr (hypot_map d) c = Some (hyp d c)" using c(1) len by (simp add: arr_valid)
  have nodes: "arr (d_types d) ?t = Some (d_types d ! unat ?t)" "arr (d_types d) ?c = Some (d_types d ! unat ?c)"
    using rt(2) rc(2) len by (simp_all add: arr_valid)
  have mapped: "is_type_mapped d ?c = Some (d_map d ! unat ?c \<le> BTF_MAX_NR_TYPES)"
    "is_type_mapped d ?t = Some (d_map d ! unat ?t \<le> BTF_MAX_NR_TYPES)"
    using rt(2) rc(2) len by (simp_all add: is_type_mapped_def arr_valid)
  show ?case
  proof (cases "is_struct_kind (btf_kind (fst (d_types d ! unat ?t))) \<and>
      btf_kind (fst (d_types d ! unat ?c)) \<noteq> BTF_KIND_FWD \<and>
      d_map d ! unat ?c \<le> BTF_MAX_NR_TYPES \<and> \<not> d_map d ! unat ?t \<le> BTF_MAX_NR_TYPES")
    case False
    have "merge_hypot d (c # ids) = merge_hypot d ids"
      using False h rt(1) rc(1) nodes mapped by (auto simp: kinds Let_def)
    then show ?thesis using Cons.IH [OF inv] Cons.prems(2) by simp
  next
    case True
    let ?d = "d\<lparr>d_map := (d_map d)[unat ?t := ?c]\<rparr>"
    have mok: "map_ok G (d_map d)" using inv by (simp add: dd_inv_def)
    have free: "d_map d ! unat ?t \<noteq> ?t"
      using True valid_small [OF dd_inv_wf [OF inv] rt(2)] by auto
    have can: "d_map d ! unat ?c = ?c"
    proof (cases "d_map d ! unat c \<le> BTF_MAX_NR_TYPES")
      case mapped: True
      then show ?thesis using map_ok_mapped(2) [OF mok c(1) mapped] by (simp add: resolved_def)
    next
      case False
      then show ?thesis using True by (simp add: resolved_def)
    qed
    have "map_ok G (d_map ?d)"
      using map_ok_update [OF mok dd_inv_wf [OF inv] rt(2) rc(2) free] can tc by simp
    moreover have "table_ok (d_map ?d) (dedup_table d)"
      using table_ok_update [OF _ free] inv by (simp add: dd_inv_def)
    ultimately have inv1: "dd_inv G ?d" using inv by (simp add: dd_inv_def)
    have "merge_hypot d (c # ids) = merge_hypot ?d ids"
      using True h rt(1) rc(1) nodes mapped set_map_valid [OF inv rt(2)] by (auto simp: kinds Let_def)
    moreover obtain m where "merge_hypot ?d ids = Some (?d\<lparr>d_map := m\<rparr>)" "dd_inv G (?d\<lparr>d_map := m\<rparr>)"
      "\<forall>i. valid G i \<longrightarrow> (m ! unat i = i \<longleftrightarrow> d_map ?d ! unat i = i)"
      using Cons.IH [OF inv1] Cons.prems(2) by auto
    moreover have "d_map ?d ! unat i = i \<longleftrightarrow> d_map d ! unat i = i" if "valid G i" for i
      using that free True can len by auto
    ultimately show ?thesis by auto
  qed
qed

text \<open>
  The search among the candidates: an error, or an id that is the type itself or a canonical one of the
  same type. Other ids may have been mapped on the way, but none became or ceased to be canonical.
\<close>

definition struct_found :: "bnode list \<Rightarrow> btf_dedup \<Rightarrow> u32 \<Rightarrow> int + u32 \<Rightarrow> btf_dedup \<Rightarrow> bool" where
  "struct_found G d i r d' \<longleftrightarrow>
     (case r of
        Inl e \<Rightarrow> e < 0
      | Inr j \<Rightarrow> dd_inv G d' \<and> hyp_ok G d' \<and> d_types d' = d_types d \<and> valid G j \<and>
          (j = i \<or> d_map d' ! unat j = j \<and> same_type G G i j) \<and>
          (\<forall>x. valid G x \<longrightarrow> (d_map d' ! unat x = x \<longleftrightarrow> d_map d ! unat x = x)))"

lemma compare_all:
  assumes inv: "dd_inv G d" and hok: "hyp_ok G d" and v: "valid G i" "valid G j"
  obtains d1 eq d2 where "btf_dedup_clear_hypot_map d = Some d1"
    "btf_dedup_is_equiv (dedup_depth d1) d1 i j = Some (eq, d2)"
    "dd_inv G d2" "hyp_ok G d2" "d_types d2 = d_types d" "d_map d2 = d_map d" "dedup_table d2 = dedup_table d"
    "0 < eq \<Longrightarrow> same_type G G i j"
    "0 < eq \<Longrightarrow> \<forall>c \<in> set (hypot_list d2).
       valid G c \<and> valid G (hyp d2 c) \<and> same_type G G (hyp d2 c) c"
proof -
  obtain m where m: "btf_dedup_clear_hypot_map d = Some (d\<lparr>hypot_map := m, hypot_list := []\<rparr>)"
    "length m = length G" "\<forall>c. valid G c \<longrightarrow> m ! unat c = BTF_UNPROCESSED_ID"
    using clear_valid [OF hok dd_inv_lengths(3) [OF inv]] by metis
  define d1 where "d1 = d\<lparr>hypot_map := m, hypot_list := []\<rparr>"
  have inv1: "dd_inv G d1" using inv m(2) by (simp add: d1_def dd_inv_def)
  have hok1: "hyp_ok G d1" using m(3) by (simp add: d1_def hyp_ok_def)
  have empty: "\<not> assumed d1 c" if "valid G c" for c using m(3) that by (simp add: d1_def)
  obtain eq d2 where d2: "btf_dedup_is_equiv (dedup_depth d1) d1 i j = Some (eq, d2)"
    "compared G d1 [(i, j)] eq d2"
    using is_equiv_compared(1) [OF inv1 hok1 v free_ids_depth [OF inv1]] by blast
  have core: "same_core d1 d2" and hok2: "hyp_ok G d2" using d2(2) by (simp_all add: compared_def)
  note inv2 = same_core_inv [OF core inv1] and f = same_core_fields [OF core]
  have eqs: "same_type G G (hyp d2 c) c" if "0 < eq" "valid G c" "assumed d2 c" for c
    using settled_same_type [OF inv2 hok2 _ that(2,3)] d2(2) that(1) empty by (simp add: compared_def)
  have "same_type G G i j" if "0 < eq"
  proof -
    have "linked G d2 i j" using d2(2) that by (simp add: compared_def)
    then show ?thesis using eqs [OF that] by (auto simp: linked_def)
  qed
  moreover have "\<forall>c \<in> set (hypot_list d2). valid G c \<and> valid G (hyp d2 c) \<and> same_type G G (hyp d2 c) c"
    if pos: "0 < eq"
  proof
    fix c assume c: "c \<in> set (hypot_list d2)"
    then have "valid G c" "assumed d2 c" using hok2 by (auto simp: hyp_ok_def)
    moreover from this have "valid G (hyp d2 c)" using hok2 special_ids(1) by (auto simp: hyp_ok_def)
    ultimately show "valid G c \<and> valid G (hyp d2 c) \<and> same_type G G (hyp d2 c) c"
      using eqs [OF pos] by blast
  qed
  ultimately show thesis
    using m(1) d2(1) inv2 hok2 f by (intro that [of d1 eq d2]) (simp_all add: d1_def)
qed

lemma find_struct_cases:
  assumes "dd_inv G d" "hyp_ok G d" "valid G i" "is_struct_kind (btf_kind (fst (d_types d ! unat i)))"
    "\<forall>e \<in> set es. valid G (snd e) \<and> d_map d ! unat (snd e) = snd e"
  shows "\<exists>r d'. find_struct d (d_types d ! unat i) i es = Some (r, d') \<and> struct_found G d i r d'"
  using assms
proof (induction es arbitrary: d)
  case Nil
  then show ?case by (simp add: struct_found_def)
next
  case (Cons e es)
  note inv = Cons.prems(1) and hok = Cons.prems(2) and v = Cons.prems(3)
  let ?t = "d_types d ! unat i" and ?c = "d_types d ! unat (snd e)"
  have e: "valid G (snd e)" "d_map d ! unat (snd e) = snd e" using Cons.prems(5) by simp_all
  have node: "arr (d_types d) (snd e) = Some ?c" by (rule node_kind_ok(1) [OF inv e(1)])
  have u: "btf_kind (fst ?t) \<noteq> BTF_KIND_UNKN"
    using Cons.prems(4) by (auto simp: is_struct_kind_def btf_kinds)
  obtain b where b: "btf_shallow_equal_struct ?t ?c = Some b"
    using equal_total(7) [OF node_kind_ok(2) [OF inv v u] known_info [OF inv v e(1) u]] Cons.prems(4)
    by (auto simp: is_struct_kind_def)
  show ?case
  proof (cases b)
    case False
    then show ?thesis using Cons.IH [OF inv hok v Cons.prems(4)] Cons.prems(5) node b by simp
  next
    case True
    obtain d1 eq d2 where d: "btf_dedup_clear_hypot_map d = Some d1"
      "btf_dedup_is_equiv (dedup_depth d1) d1 i (snd e) = Some (eq, d2)"
      "dd_inv G d2" "hyp_ok G d2" "d_types d2 = d_types d" "d_map d2 = d_map d"
      "0 < eq \<Longrightarrow> same_type G G i (snd e)"
      "0 < eq \<Longrightarrow> \<forall>c \<in> set (hypot_list d2).
         valid G c \<and> valid G (hyp d2 c) \<and> same_type G G (hyp d2 c) c"
      using compare_all [OF inv hok v e(1)] by metis
    consider "eq < 0" | "eq = 0" | "0 < eq" by linarith
    then show ?thesis
    proof cases
      case 1
      then show ?thesis using node b True d(1,2) by (simp add: struct_found_def)
    next
      case 2
      have "\<exists>r d'. find_struct d2 ?t i es = Some (r, d') \<and> struct_found G d2 i r d'"
        using Cons.IH [OF d(3,4) v] Cons.prems(4,5) d(5,6) by simp
      moreover have "struct_found G d2 i r d' = struct_found G d i r d'" for r d'
        unfolding struct_found_def d(5,6) by simp
      ultimately show ?thesis using 2 node b True d(1,2) by simp
    next
      case 3
      obtain m where m: "merge_hypot d2 (hypot_list d2) = Some (d2\<lparr>d_map := m\<rparr>)" "dd_inv G (d2\<lparr>d_map := m\<rparr>)"
        "\<forall>i. valid G i \<longrightarrow> (m ! unat i = i \<longleftrightarrow> d_map d2 ! unat i = i)"
        using merge_valid [OF d(3), of "hypot_list d2"] d(8) [OF 3] by blast
      then show ?thesis
        using 3 node b True d e
        by (simp add: struct_found_def btf_dedup_merge_hypot_map_def hyp_ok_def)
    qed
  qed
qed

lemma struct_type_step:
  assumes inv: "dd_inv G d" and hok: "hyp_ok G d" and v: "valid G i"
  obtains err d' where "btf_dedup_struct_type d i = Some (err, d')"
    "err = 0 \<longrightarrow> dd_inv G d' \<and> hyp_ok G d' \<and> d_types d' = d_types d"
proof -
  let ?t = "d_types d ! unat i"
  note len = dd_inv_lengths [OF inv]
  have node: "arr (d_types d) i = Some ?t" by (rule node_kind_ok(1) [OF inv v])
  have mapped: "is_type_mapped d i = Some (d_map d ! unat i \<le> BTF_MAX_NR_TYPES)"
    using v len by (simp add: is_type_mapped_def arr_valid)
  show thesis
  proof (cases "d_map d ! unat i \<le> BTF_MAX_NR_TYPES \<or> \<not> is_struct_kind (btf_kind (fst ?t))")
    case True
    then show thesis using inv hok node mapped
      by (intro that [of 0 d]) (auto simp: btf_dedup_struct_type_def)
  next
    case False
    then have u: "btf_kind (fst ?t) \<noteq> BTF_KIND_UNKN" by (auto simp: is_struct_kind_def btf_kinds)
    obtain h where h: "btf_hash_struct ?t = Some h"
      using hash_total(4) [OF node_kind_ok(2) [OF inv v u]] False by (auto simp: is_struct_kind_def)
    have "\<forall>e \<in> set (hm_group (dedup_table d) h). valid G (snd e) \<and> d_map d ! unat (snd e) = snd e"
      using inv len by (auto simp: dd_inv_def table_ok_def)
    then obtain r d1 where r: "find_struct d ?t i (hm_group (dedup_table d) h) = Some (r, d1)"
      "struct_found G d i r d1"
      using find_struct_cases [OF inv hok v] False by blast
    note run = btf_dedup_struct_type_def mapped node h dd_inv_candidates [OF inv] r(1)
    show thesis
    proof (cases r)
      case (Inl e)
      then show thesis using r(2) False by (intro that [of e d1]) (auto simp: run struct_found_def)
    next
      case (Inr j)
      then have j: "dd_inv G d1" "hyp_ok G d1" "d_types d1 = d_types d" "valid G j"
        "j = i \<or> d_map d1 ! unat j = j \<and> same_type G G i j"
        "\<forall>x. valid G x \<longrightarrow> (d_map d1 ! unat x = x \<longleftrightarrow> d_map d ! unat x = x)"
        using r(2) unfolding struct_found_def Inr sum.case by blast+
      have free: "d_map d1 ! unat i \<noteq> i"
        using j(6) v False valid_small [OF dd_inv_wf [OF inv] v] by metis
      obtain err u where f:
        "dedup_finish d1 h i j = Some (err, d1\<lparr>d_map := (d_map d1)[unat i := j], dedup_table := u\<rparr>)"
        "err = 0 \<longrightarrow> dd_inv G (d1\<lparr>d_map := (d_map d1)[unat i := j], dedup_table := u\<rparr>)"
        using finish_cases [OF j(1) v j(4) free j(5)] by metis
      have "btf_dedup_struct_type d i = Some (err, d1\<lparr>d_map := (d_map d1)[unat i := j], dedup_table := u\<rparr>)"
        using False Inr f(1) by (simp add: run)
      then show thesis using f(2) j(2,3) by (intro that) (auto simp: hyp_ok_def)
    qed
  qed
qed

section \<open>Reference types\<close>

text \<open>
  The number of types that were not looked at bounds the recursion: every level marks one of them. What is
  mapped stays mapped, and the marks of the levels above stay.
\<close>

definition fresh_ids :: "bnode list \<Rightarrow> btf_dedup \<Rightarrow> nat" where
  "fresh_ids G d = card {i. valid G i \<and> d_map d ! unat i = BTF_UNPROCESSED_ID}"

definition map_grows :: "bnode list \<Rightarrow> btf_dedup \<Rightarrow> btf_dedup \<Rightarrow> bool" where
  "map_grows G d d' \<longleftrightarrow> (\<forall>i. valid G i \<longrightarrow> d_map d ! unat i \<noteq> BTF_UNPROCESSED_ID \<longrightarrow>
     d_map d' ! unat i = d_map d ! unat i)"

lemma map_grows_refl [simp]: "map_grows G d d"
  by (simp add: map_grows_def)

lemma map_grows_trans: "map_grows G d1 d2 \<Longrightarrow> map_grows G d2 d3 \<Longrightarrow> map_grows G d1 d3"
  by (simp add: map_grows_def)

lemma fresh_ids_grows: "map_grows G d d' \<Longrightarrow> fresh_ids G d' \<le> fresh_ids G d"
  unfolding fresh_ids_def map_grows_def by (rule card_mono) (simp, metis (mono_tags, lifting) Collect_mono)

lemma fresh_ids_depth:
  assumes "dd_inv G d"
  shows "fresh_ids G d < dedup_depth d"
proof -
  have "fresh_ids G d \<le> card {c :: u32. valid G c}" unfolding fresh_ids_def by (rule card_mono) auto
  also have "\<dots> \<le> length G" by (rule card_valid) (use dd_inv_lengths(4) [OF assms] in simp)
  finally show ?thesis using dd_inv_lengths(1) [OF assms] by (simp add: dedup_depth_def)
qed

text \<open>Marking a type.\<close>

lemma mark_valid:
  assumes inv: "dd_inv G d" and v: "valid G i" and fresh: "d_map d ! unat i = BTF_UNPROCESSED_ID"
  shows "dd_inv G (d\<lparr>d_map := (d_map d)[unat i := BTF_IN_PROGRESS_ID]\<rparr>)"
    "fresh_ids G (d\<lparr>d_map := (d_map d)[unat i := BTF_IN_PROGRESS_ID]\<rparr>) < fresh_ids G d"
    "map_grows G d (d\<lparr>d_map := (d_map d)[unat i := BTF_IN_PROGRESS_ID]\<rparr>)"
proof -
  let ?m = "d_map d" and ?m' = "(d_map d)[unat i := BTF_IN_PROGRESS_ID]"
  have len: "length ?m = length G" by (rule dd_inv_lengths(2) [OF inv])
  have mok: "map_ok G ?m" using inv by (simp add: dd_inv_def)
  have free: "?m ! unat i \<noteq> i" using valid_small [OF dd_inv_wf [OF inv] v] fresh by auto
  have i0: "i \<noteq> 0"
  proof
    assume "i = 0"
    then have "?m ! unat i = 0" using mok by (simp add: map_ok_def)
    then show False using fresh by (simp add: btf_ids)
  qed
  have upd: "?m' ! unat x = (if x = i then BTF_IN_PROGRESS_ID else ?m ! unat x)" if "valid G x" for x
    using that len by simp
  have "map_ok G ?m'"
  proof -
    have "(?m' ! unat x \<le> BTF_MAX_NR_TYPES \<and> valid G (?m' ! unat x) \<and> ?m' ! unat (?m' ! unat x) = ?m' ! unat x \<and>
        same_type G G x (?m' ! unat x)) \<or>
        ?m' ! unat x = BTF_UNPROCESSED_ID \<or> ?m' ! unat x = BTF_IN_PROGRESS_ID" if x: "valid G x" for x
    proof (cases "x = i \<or> \<not> ?m ! unat x \<le> BTF_MAX_NR_TYPES")
      case True
      then show ?thesis using upd [OF x] mok x unfolding map_ok_def by auto
    next
      case False
      then have mx: "?m ! unat x \<le> BTF_MAX_NR_TYPES" by simp
      note k = map_ok_mapped [OF mok x mx]
      have "?m ! unat x \<noteq> i" using k(2) free by auto
      then show ?thesis using upd [OF x] upd [OF k(1)] False k mx by simp
    qed
    moreover have "?m' ! 0 = 0" using mok i0 len by (simp add: map_ok_def nth_list_update_cases unat_eq_0)
    ultimately show ?thesis using len by (simp add: map_ok_def)
  qed
  then show "dd_inv G (d\<lparr>d_map := ?m'\<rparr>)"
    using inv table_ok_update [OF _ free] by (simp add: dd_inv_def)
  have sub: "{x. valid G x \<and> ?m' ! unat x = BTF_UNPROCESSED_ID} \<subset> {x. valid G x \<and> ?m ! unat x = BTF_UNPROCESSED_ID}"
  proof
    show "{x. valid G x \<and> ?m' ! unat x = BTF_UNPROCESSED_ID} \<subseteq> {x. valid G x \<and> ?m ! unat x = BTF_UNPROCESSED_ID}"
      using upd by (auto split: if_splits)
    have "i \<notin> {x. valid G x \<and> ?m' ! unat x = BTF_UNPROCESSED_ID}" using upd [OF v] by simp
    then show "{x. valid G x \<and> ?m' ! unat x = BTF_UNPROCESSED_ID} \<noteq> {x. valid G x \<and> ?m ! unat x = BTF_UNPROCESSED_ID}"
      using v fresh by blast
  qed
  then show "fresh_ids G (d\<lparr>d_map := ?m'\<rparr>) < fresh_ids G d"
    unfolding fresh_ids_def by (intro psubset_card_mono) auto
  show "map_grows G d (d\<lparr>d_map := ?m'\<rparr>)"
    using upd fresh by (auto simp: map_grows_def)
qed

text \<open>Replacing a reference by another id of the same type.\<close>

lemma put_slot_inv:
  assumes inv: "dd_inv G d" and v: "valid G i" and k: "k < length (ref_slots (G ! unat i))"
    and same: "same_type G G (refs (G ! unat i) ! k) j" and ok: "entry_ok (d_types d ! unat i)"
  shows "dd_inv G (d\<lparr>d_types := (d_types d)[unat i :=
    put_slot (d_types d ! unat i) (ref_slots (d_types d ! unat i) ! k) j]\<rparr>)"
proof -
  let ?t = "d_types d ! unat i"
  let ?t' = "put_slot ?t (ref_slots ?t ! k) j"
  note n = dd_inv_node [OF inv v] and len = dd_inv_lengths(1) [OF inv]
  have slots: "ref_slots ?t = ref_slots (G ! unat i)" using same_shape_slots [OF n(1)] by simp
  have "ref_slots ?t ! k \<in> set (ref_slots ?t)" using k slots by simp
  then have shape: "same_shape (G ! unat i) ?t'"
    using same_shape_trans [OF n(1) put_slot_shape] by blast
  have refs: "refs ?t' = (refs ?t)[k := j]" using refs_put_slot [OF ok] k slots by simp
  have "same_type G G (refs (G ! unat i) ! x) (refs ?t' ! x)" if "x < length (refs (G ! unat i))" for x
    using n(2) that same refs k slots by (auto simp: nth_list_update_cases length_refs)
  then have "same_graph G ((d_types d)[unat i := ?t'])"
    using inv shape len v by (auto simp: dd_inv_def same_graph_def nth_list_update_cases)
  then show ?thesis using inv by (simp add: dd_inv_def)
qed

lemma ref_kind_known: "is_ref_kind k \<Longrightarrow> k \<noteq> BTF_KIND_UNKN"
  by (auto simp: is_ref_kind_def btf_kinds)

lemma ref_equal_valid:
  assumes inv: "dd_inv G d" and v: "valid G i" "valid G j"
    and k: "is_ref_kind (btf_kind (fst (d_types d ! unat i)))"
  shows "ref_equal (d_types d ! unat i) (d_types d ! unat j) \<noteq> None"
    "ref_equal (d_types d ! unat i) (d_types d ! unat j) = Some True \<Longrightarrow>
       d_types d ! unat i = d_types d ! unat j"
proof -
  let ?t = "d_types d ! unat i" and ?c = "d_types d ! unat j"
  note u = ref_kind_known [OF k]
  note ok = node_kind_ok(2) [OF inv v(1) u]
  note known = known_info [OF inv v u]
  note total = equal_total [OF ok known]
  show "ref_equal ?t ?c \<noteq> None" using total(3,5) by (auto simp: ref_equal_def)
  assume eq: "ref_equal ?t ?c = Some True"
  consider (array) "btf_kind (fst ?t) = BTF_KIND_ARRAY" | (proto) "btf_kind (fst ?t) = BTF_KIND_FUNC_PROTO"
    | (plain) "kind_words (fst ?t) = Some 0" "btf_kind (fst ?t) \<noteq> BTF_KIND_ARRAY"
        "btf_kind (fst ?t) \<noteq> BTF_KIND_FUNC_PROTO"
    using k unfolding is_ref_kind_def by (elim disjE) (simp_all add: kind_words_simps btf_kinds)
  then show "?t = ?c"
  proof cases
    case array
    then have e: "btf_equal_array ?t ?c = Some True" using eq by (simp add: ref_equal_def)
    then have "info (fst ?t) = info (fst ?c)" by (auto simp: btf_equal_array_def common_info split: if_splits)
    then show ?thesis using equal_array_eq [OF ok known array e] by simp
  next
    case proto
    then have e: "btf_equal_fnproto ?t ?c = Some True" using eq by (simp add: ref_equal_def btf_kinds)
    then have "info (fst ?t) = info (fst ?c)" by (auto simp: btf_equal_fnproto_def common_info split: if_splits)
    then show ?thesis using equal_fnproto_eq [OF ok known proto e] by simp
  next
    case plain
    then have e: "btf_equal_common ?t ?c" using eq by (simp add: ref_equal_def)
    then show ?thesis using equal_common_eq [OF ok known [OF common_info [OF e]] plain(1) e] by simp
  qed
qed

lemma ref_hash_valid:
  assumes "dd_inv G d" "valid G i" "is_ref_kind (btf_kind (fst (d_types d ! unat i)))"
  obtains h where "ref_hash (d_types d ! unat i) = Some h"
  using that hash_total(2,3) [OF node_kind_ok(2) [OF assms(1,2) ref_kind_known [OF assms(3)]]]
  unfolding ref_hash_def by (metis option.exhaust)

text \<open>A reference type and the slots of one: what they have done when they report success.\<close>

definition ref_done :: "bnode list \<Rightarrow> btf_dedup \<Rightarrow> u32 \<Rightarrow> int + u32 \<Rightarrow> btf_dedup \<Rightarrow> bool" where
  "ref_done G d i r d' \<longleftrightarrow>
     (case r of
        Inl e \<Rightarrow> e < 0
      | Inr j \<Rightarrow> dd_inv G d' \<and> map_grows G d d' \<and> same_type G G i j \<and>
          d_map d' ! unat i \<le> BTF_MAX_NR_TYPES)"

definition slots_done :: "bnode list \<Rightarrow> btf_dedup \<Rightarrow> int \<Rightarrow> btf_dedup \<Rightarrow> bool" where
  "slots_done G d e d' \<longleftrightarrow> e \<le> 0 \<and> (e = 0 \<longrightarrow> dd_inv G d' \<and> map_grows G d d')"

lemma ref_type_done:
  "dd_inv G d \<Longrightarrow> valid G i \<Longrightarrow> fresh_ids G d < n \<Longrightarrow>
    \<exists>r d'. btf_dedup_ref_type n d i = Some (r, d') \<and> ref_done G d i r d'"
  "dd_inv G d \<Longrightarrow> valid G i \<Longrightarrow> is_ref_kind (btf_kind (fst (d_types d ! unat i))) \<Longrightarrow>
    set ss \<subseteq> set (ref_slots (d_types d ! unat i)) \<Longrightarrow> fresh_ids G d < n \<Longrightarrow>
    \<exists>e d'. resolve_slots n d i ss = Some (e, d') \<and> slots_done G d e d'"
proof (induction n d i and n d i ss rule: btf_dedup_ref_type_resolve_slots.induct)
  case (1 d i)
  then show ?case by simp
next
  case (2 n d i)
  note inv = "2.prems"(1) and v = "2.prems"(2)
  note len = dd_inv_lengths [OF inv]
  have m: "arr (d_map d) i = Some (d_map d ! unat i)" using v len by (simp add: arr_valid)
  consider "d_map d ! unat i = BTF_IN_PROGRESS_ID" | "d_map d ! unat i \<le> BTF_MAX_NR_TYPES"
    | (fresh) "d_map d ! unat i = BTF_UNPROCESSED_ID"
    using inv v by (auto simp: dd_inv_def map_ok_def)
  then show ?case
  proof cases
    case 1
    then show ?thesis using m by (simp add: ref_done_def)
  next
    case 2
    then have "d_map d ! unat i \<noteq> BTF_IN_PROGRESS_ID" by auto
    then show ?thesis using 2 m resolved_valid [OF inv v] inv by (auto simp: ref_done_def)
  next
    case fresh
    let ?d1 = "d\<lparr>d_map := (d_map d)[unat i := BTF_IN_PROGRESS_ID]\<rparr>"
    note mark = mark_valid [OF inv v fresh]
    note node = node_kind_ok(1) [OF inv v] and sm = set_map_valid [OF inv v, of BTF_IN_PROGRESS_ID]
    have nm: "d_map d ! unat i \<noteq> BTF_IN_PROGRESS_ID" "\<not> d_map d ! unat i \<le> BTF_MAX_NR_TYPES"
      using fresh by simp_all
    show ?thesis
    proof (cases "is_ref_kind (btf_kind (fst (d_types d ! unat i)))")
      case False
      then show ?thesis using m nm node sm by (simp add: ref_done_def)
    next
      case True
      have "fresh_ids G ?d1 < n" using mark(2) "2.prems"(3) by simp
      then obtain e d2 where s: "resolve_slots n ?d1 i (ref_slots (d_types d ! unat i)) = Some (e, d2)"
        "slots_done G ?d1 e d2"
        using "2.IH" [OF m nm node sm] True mark(1) v by auto
      show ?thesis
      proof (cases "e < 0")
        case neg: True
        then show ?thesis using m nm node sm True s(1) by (simp add: ref_done_def)
      next
        case False
        then have e: "e = 0" and inv2: "dd_inv G d2" and g2: "map_grows G ?d1 d2"
          using s(2) by (auto simp: slots_done_def)
        have "d_map ?d1 ! unat i = BTF_IN_PROGRESS_ID" using v len by simp
        then have prog: "d_map d2 ! unat i = BTF_IN_PROGRESS_ID"
          using g2 v by (simp add: map_grows_def)
        have free: "d_map d2 ! unat i \<noteq> i"
          using prog valid_small [OF dd_inv_wf [OF inv] v] by auto
        have "btf_kind (fst (d_types d2 ! unat i)) = btf_kind (fst (d_types d ! unat i))"
          using dd_inv_node(1) [OF inv v] dd_inv_node(1) [OF inv2 v] same_shape_kind by metis
        then have k2: "is_ref_kind (btf_kind (fst (d_types d2 ! unat i)))" using True by simp
        obtain h where h: "ref_hash (d_types d2 ! unat i) = Some h" by (rule ref_hash_valid [OF inv2 v k2])
        have same: "same_type G G i j" if "valid G j" "ref_equal (d_types d2 ! unat i) (d_types d2 ! unat j) = Some True" for j
          using dd_same_nodeI [OF inv2 v that(1)] ref_equal_valid(2) [OF inv2 v that(1) k2 that(2)] by simp
        obtain j err u where f: "find_equal d2 (ref_equal (d_types d2 ! unat i)) (hm_group (dedup_table d2) h) i = Some j"
          "valid G j" "same_type G G i j"
          "dedup_finish d2 h i j = Some (err, d2\<lparr>d_map := (d_map d2)[unat i := j], dedup_table := u\<rparr>)"
          "err = 0 \<longrightarrow> dd_inv G (d2\<lparr>d_map := (d_map d2)[unat i := j], dedup_table := u\<rparr>)"
          using lookup_finish [where eq = "ref_equal (d_types d2 ! unat i)" and h = h,
              OF inv2 v free ref_equal_valid(1) [OF inv2 v _ k2] same] by metis
        let ?d3 = "d2\<lparr>d_map := (d_map d2)[unat i := j], dedup_table := u\<rparr>"
        have "map_grows G d ?d3"
          using map_grows_trans [OF mark(3) g2] fresh dd_inv_lengths(2) [OF inv2]
          by (auto simp: map_grows_def)
        moreover have "err \<noteq> 0 \<Longrightarrow> err < 0"
          using f(4) by (auto simp: dedup_finish_def btf_dedup_table_add_def Let_def
              split: Option.bind_split_asm if_splits)
        ultimately have "ref_done G d i (if err \<noteq> 0 then Inl err else Inr j) ?d3"
          using f(2,3,5) valid_small [OF dd_inv_wf [OF inv] f(2)] v dd_inv_lengths(2) [OF inv2]
          by (simp add: ref_done_def)
        moreover have "btf_dedup_ref_type (Suc n) d i = Some (if err \<noteq> 0 then Inl err else Inr j, ?d3)"
          using m nm node sm True s(1) e node_kind_ok(1) [OF inv2 v] h dd_inv_candidates [OF inv2] f(1,4)
          by simp
        ultimately show ?thesis by blast
      qed
    qed
  qed
next
  case (3 n d i)
  then show ?case by (simp add: slots_done_def)
next
  case (4 n d i s ss)
  note inv = "4.prems"(1) and v = "4.prems"(2) and kind = "4.prems"(3)
  let ?t = "d_types d ! unat i"
  note node = node_kind_ok(1) [OF inv v] and ok = node_kind_ok(2) [OF inv v ref_kind_known [OF kind]]
  obtain k where k: "k < length (ref_slots ?t)" "s = ref_slots ?t ! k"
    using "4.prems"(4) by (auto simp: in_set_conv_nth)
  obtain r where r: "get_slot ?t s = Some r" using get_slot_fits [OF ok] k by force
  have rk: "refs ?t ! k = r" using r k by (simp add: refs_nth)
  have slots: "ref_slots ?t = ref_slots (G ! unat i)"
    using same_shape_slots [OF dd_inv_node(1) [OF inv v]] by simp
  have gr: "same_type G G (refs (G ! unat i) ! k) r"
    unfolding rk [symmetric] using dd_inv_node(2) [OF inv v] k slots by (simp add: length_refs)
  have vr: "valid G r"
    using dd_inv_refs [OF inv v] rk k by (metis length_refs nth_mem)
  obtain res d1 where d1: "btf_dedup_ref_type n d r = Some (res, d1)" "ref_done G d r res d1"
    using "4.IH"(1) [OF node r inv vr "4.prems"(5)] by blast
  show ?case
  proof (cases res)
    case (Inl e)
    then show ?thesis using node r d1 by (auto simp: ref_done_def slots_done_def)
  next
    case (Inr j)
    then have inv1: "dd_inv G d1" and g1: "map_grows G d d1" and rj: "same_type G G r j"
      using d1(2) by (simp_all add: ref_done_def)
    let ?t1 = "d_types d1 ! unat i"
    note node1 = node_kind_ok(1) [OF inv1 v]
    have k1: "btf_kind (fst ?t1) = btf_kind (fst ?t)" and s1: "ref_slots ?t1 = ref_slots ?t"
      using dd_inv_node(1) [OF inv v] dd_inv_node(1) [OF inv1 v] same_shape_kind same_shape_slots by metis+
    have kind1: "is_ref_kind (btf_kind (fst ?t1))" using kind k1 by simp
    note ok1 = node_kind_ok(2) [OF inv1 v ref_kind_known [OF kind1]]
    let ?d2 = "d1\<lparr>d_types := (d_types d1)[unat i := put_slot ?t1 s j]\<rparr>"
    have inv2: "dd_inv G ?d2"
      using put_slot_inv [OF inv1 v _ same_type_trans [OF gr rj] ok1] k slots s1 by simp
    have set1: "arr_set (d_types d1) i (put_slot ?t1 s j) = Some ((d_types d1)[unat i := put_slot ?t1 s j])"
      using v dd_inv_lengths(1) [OF inv1] by (simp add: arr_valid)
    have t2: "d_types ?d2 ! unat i = put_slot ?t1 s j" using v dd_inv_lengths(1) [OF inv1] by simp
    have "fresh_ids G ?d2 < n"
      using fresh_ids_grows [OF g1] "4.prems"(5) by (simp add: fresh_ids_def)
    moreover have "is_ref_kind (btf_kind (fst (d_types ?d2 ! unat i)))"
      using kind1 t2 btf_kind_cong [of "fst (put_slot ?t1 s j)" "fst ?t1"] by simp
    moreover have "set ss \<subseteq> set (ref_slots (d_types ?d2 ! unat i))" using "4.prems"(4) t2 s1 by simp
    ultimately obtain e d3 where d3: "resolve_slots n ?d2 i ss = Some (e, d3)" "slots_done G ?d2 e d3"
      using "4.IH"(2) [OF node r d1(1) refl Inr node1 set1 inv2 v] by blast
    have "slots_done G d e d3"
      using d3(2) g1 by (auto simp: slots_done_def map_grows_def)
    then show ?thesis using node r d1(1) Inr node1 set1 d3(1) by simp
  qed
qed

section \<open>The three passes\<close>

lemma type_ids_valid:
  assumes "dd_inv G d"
  shows "distinct (type_ids d)" "set (type_ids d) = {i. valid G i \<and> i \<noteq> 0}"
    "type_ids d = map of_nat [1..<length G]"
proof -
  have n: "unat (d_nr_types d) + 1 = length G" and small: "length G \<le> 2 ^ 31"
    using assms dd_inv_lengths(4) [OF assms] by (simp_all add: dd_inv_def)
  show t: "type_ids d = map of_nat [1..<length G]" using n by (simp add: type_ids_def)
  have u: "unat (of_nat k :: u32) = k" if "k < length G" for k
    using that small by (simp add: unat_of_nat_small)
  have "inj_on (of_nat :: nat \<Rightarrow> u32) {1..<length G}"
    by (rule inj_on_inverseI [where g = unat]) (simp add: u)
  then show "distinct (type_ids d)" by (simp add: t distinct_map)
  show "set (type_ids d) = {i. valid G i \<and> i \<noteq> 0}"
  proof (intro equalityI subsetI)
    fix i assume "i \<in> set (type_ids d)"
    then obtain k where k: "i = of_nat k" "1 \<le> k" "k < length G" by (auto simp: t)
    then have "unat i = k" using u by simp
    then show "i \<in> {i. valid G i \<and> i \<noteq> 0}" using k by auto
  next
    fix i assume "i \<in> {i. valid G i \<and> i \<noteq> 0}"
    then have "unat i \<in> {1..<length G}" by (auto simp: unat_eq_0 Suc_le_eq intro: Nat.gr0I)
    then show "i \<in> set (type_ids d)" unfolding t by (auto intro!: image_eqI [of _ _ "unat i"])
  qed
qed

lemma prim_types_done:
  assumes "dd_inv G d" "hyp_ok G d"
    "\<And>i. valid G i \<Longrightarrow> i \<noteq> 0 \<Longrightarrow> self_canonical (d_types d ! unat i) \<or> d_map d ! unat i = BTF_UNPROCESSED_ID"
  shows "\<exists>err d'. btf_dedup_prim_types d = Some (err, d') \<and> (err = 0 \<longrightarrow> dd_inv G d' \<and> hyp_ok G d')"
proof -
  define P where "P = (\<lambda>is d. dd_inv G d \<and> hyp_ok G d \<and> distinct is \<and> (\<forall>i \<in> set is. valid G i \<and> i \<noteq> 0 \<and>
    (self_canonical (d_types d ! unat i) \<or> d_map d ! unat i = BTF_UNPROCESSED_ID)))"
  have "P (type_ids d) d" using assms type_ids_valid [OF assms(1)] by (auto simp: P_def)
  moreover have "\<exists>err d'. btf_dedup_prim_type d i = Some (err, d') \<and> (err = 0 \<longrightarrow> P is d')"
    if "P (i # is) d" for i "is" d
  proof -
    have p: "dd_inv G d" "hyp_ok G d" "valid G i" "i \<noteq> 0"
      "self_canonical (d_types d ! unat i) \<or> d_map d ! unat i = BTF_UNPROCESSED_ID"
      "distinct (i # is)" "\<forall>i \<in> set is. valid G i \<and> i \<noteq> 0 \<and>
        (self_canonical (d_types d ! unat i) \<or> d_map d ! unat i = BTF_UNPROCESSED_ID)"
      using that by (simp_all add: P_def)
    obtain err d' where r: "btf_dedup_prim_type d i = Some (err, d')"
      "err = 0 \<longrightarrow> dd_inv G d' \<and> d_types d' = d_types d \<and>
       hypot_map d' = hypot_map d \<and> hypot_list d' = hypot_list d \<and>
       (\<forall>j. valid G j \<longrightarrow> j \<noteq> i \<longrightarrow> d_map d' ! unat j = d_map d ! unat j)"
      using prim_type_step [OF p(1,3,4,5)] by metis
    have "P is d'" if ok: "err = 0"
      unfolding P_def
    proof (intro conjI ballI)
      show "hyp_ok G d'" using r(2) ok p(2) by (simp add: hyp_ok_def)
      show "self_canonical (d_types d' ! unat x) \<or> d_map d' ! unat x = BTF_UNPROCESSED_ID"
        if "x \<in> set is" for x
      proof -
        have "x \<noteq> i" "valid G x" using p(6,7) that by auto
        then show ?thesis using r(2) ok bspec [OF p(7) that] by simp
      qed
    qed (use r(2) ok p in auto)
    then show ?thesis using r(1) by blast
  qed
  ultimately show ?thesis
    using for_types_induct [of P "type_ids d" d "\<lambda>_. True" btf_dedup_prim_type]
    by (auto simp: btf_dedup_prim_types_def P_def)
qed

lemma struct_types_done:
  assumes "dd_inv G d" "hyp_ok G d"
  shows "\<exists>err d'. btf_dedup_struct_types d = Some (err, d') \<and> (err = 0 \<longrightarrow> dd_inv G d')"
proof -
  define P where "P = (\<lambda>is d. dd_inv G d \<and> hyp_ok G d \<and> (\<forall>i \<in> set is. valid G i))"
  have "P (type_ids d) d" using assms type_ids_valid [OF assms(1)] by (auto simp: P_def)
  moreover have "\<exists>err d'. btf_dedup_struct_type d i = Some (err, d') \<and> (err = 0 \<longrightarrow> P is d')"
    if "P (i # is) d" for i "is" d
    using struct_type_step [of G d i] that unfolding P_def by (metis list.set_intros)
  ultimately show ?thesis
    using for_types_induct [of P "type_ids d" d "\<lambda>_. True" btf_dedup_struct_type]
    by (auto simp: btf_dedup_struct_types_def P_def)
qed

text \<open>After the pass over the references every id is mapped.\<close>

lemma ref_types_done:
  assumes "dd_inv G d"
  shows "\<exists>err d'. btf_dedup_ref_types d = Some (err, d') \<and> err \<le> 0 \<and> (err = 0 \<longrightarrow> dd_inv G d' \<and>
    (\<forall>i. valid G i \<longrightarrow> d_map d' ! unat i \<le> BTF_MAX_NR_TYPES))"
proof -
  define P where "P = (\<lambda>is d. dd_inv G d \<and> (\<forall>i \<in> set is. valid G i) \<and>
    (\<forall>i. valid G i \<longrightarrow> i \<notin> set is \<longrightarrow> d_map d ! unat i \<le> BTF_MAX_NR_TYPES))"
  have "d_map d ! unat 0 \<le> BTF_MAX_NR_TYPES" using assms by (simp add: dd_inv_def map_ok_def btf_ids)
  then have "P (type_ids d) d" using assms type_ids_valid [OF assms(1)] by (auto simp: P_def)
  moreover have "\<exists>err d'. ref_type_pass d i = Some (err, d') \<and> err \<le> 0 \<and> (err = 0 \<longrightarrow> P is d')"
    if "P (i # is) d" for i "is" d
  proof -
    have p: "dd_inv G d" "valid G i" "\<forall>i \<in> set is. valid G i"
      "\<And>x. valid G x \<Longrightarrow> x \<noteq> i \<Longrightarrow> x \<notin> set is \<Longrightarrow> d_map d ! unat x \<le> BTF_MAX_NR_TYPES"
      using that by (simp_all add: P_def)
    obtain r d' where r: "btf_dedup_ref_type (dedup_depth d) d i = Some (r, d')" "ref_done G d i r d'"
      using ref_type_done(1) [OF p(1,2) fresh_ids_depth [OF p(1)]] by blast
    show ?thesis
    proof (cases r)
      case (Inl e)
      then show ?thesis using r by (simp add: ref_type_pass_def ref_done_def)
    next
      case (Inr j)
      then have d: "dd_inv G d'" "map_grows G d d'" "d_map d' ! unat i \<le> BTF_MAX_NR_TYPES"
        using r(2) by (simp_all add: ref_done_def)
      have "d_map d' ! unat x \<le> BTF_MAX_NR_TYPES" if "valid G x" "x \<notin> set is" for x
      proof (cases "x = i")
        case False
        then have m: "d_map d ! unat x \<le> BTF_MAX_NR_TYPES" using p(4) that by blast
        then have "d_map d ! unat x \<noteq> BTF_UNPROCESSED_ID" by auto
        then show ?thesis using m d(2) that(1) by (simp add: map_grows_def)
      qed (simp add: d(3))
      then have "P is d'" using d p(3) by (simp add: P_def)
      then show ?thesis using r(1) Inr by (simp add: ref_type_pass_def)
    qed
  qed
  ultimately obtain err d' where f: "for_types ref_type_pass (type_ids d) d = Some (err, d')"
    "err \<le> 0" "err = 0 \<longrightarrow> P [] d'"
    using for_types_induct [of P "type_ids d" d "\<lambda>e. e \<le> 0" ref_type_pass] by blast
  show ?thesis
  proof (cases "err = 0")
    case True
    then have "hm_inv (dedup_table d')" using f(3) by (simp add: P_def dd_inv_def table_ok_def)
    then obtain b where "free_buckets (buckets (dedup_table d')) = Some b"
      by (cases "buckets (dedup_table d')") (auto simp: hm_inv_def)
    then show ?thesis using f True
      by (simp add: btf_dedup_ref_types_def hashmap__free_def hashmap__clear_def P_def)
  next
    case False
    then have "err < 0" using f(2) by simp
    then show ?thesis using f(1) False by (simp add: btf_dedup_ref_types_def)
  qed
qed

end
