(* ===== verification/Btf_Dedup_Final.thy ===== *)
theory Btf_Dedup_Final
  imports Btf_Dedup_Sound
begin

text \<open>
  The end of the deduplication: compaction, renumbering, and the theorems on the whole. The canonical ids
  keep their order and become 1, 2, 3 and so on; all references are rewritten to the final ids.
\<close>

section \<open>Compaction\<close>

text \<open>The canonical ids below \<open>j\<close>, in order.\<close>

definition canonical :: "u32 list \<Rightarrow> nat \<Rightarrow> nat list" where
  "canonical m j = filter (\<lambda>k. m ! k = of_nat k) [1..<j]"

lemma canonical_Suc: "1 \<le> j \<Longrightarrow> canonical m (Suc j) = canonical m j @ (if m ! j = of_nat j then [j] else [])"
  by (simp add: canonical_def)

lemma canonical_length: "1 \<le> j \<Longrightarrow> length (canonical m j) \<le> j - 1"
  using length_filter_le [of "\<lambda>k. m ! k = of_nat k" "[1..<j]"] by (simp add: canonical_def)

lemma canonical_set: "set (canonical m j) = {k. 1 \<le> k \<and> k < j \<and> m ! k = of_nat k}"
  by (auto simp: canonical_def)

lemma canonical_distinct: "distinct (canonical m j)"
  by (simp add: canonical_def)

text \<open>The arrays after the types below \<open>j\<close> were moved; \<open>T\<close> are the types before.\<close>

definition compacted :: "u32 list \<Rightarrow> bnode list \<Rightarrow> nat \<Rightarrow> bnode list \<Rightarrow> u32 list \<Rightarrow> bool" where
  "compacted m T j ts hm \<longleftrightarrow> length ts = length T \<and> length hm = length T \<and> ts ! 0 = T ! 0 \<and> hm ! 0 = 0 \<and>
     (\<forall>k < length (canonical m j). ts ! Suc k = T ! (canonical m j ! k)) \<and>
     (\<forall>k < length T. j \<le> k \<longrightarrow> ts ! k = T ! k) \<and>
     (\<forall>k < length (canonical m j). hm ! (canonical m j ! k) = of_nat (Suc k)) \<and>
     (\<forall>x < length T. 0 < x \<longrightarrow> x \<notin> set (canonical m j) \<longrightarrow> hm ! x = BTF_UNPROCESSED_ID)"

lemma compacted_step:
  assumes "compacted m T j ts hm" "1 \<le> j" "j < length T" "m ! j = of_nat j" "n = length (canonical m j) + 1"
  shows "compacted m T (Suc j) (ts[n := T ! j]) (hm[j := of_nat n])"
proof -
  have c: "canonical m (Suc j) = canonical m j @ [j]" using assms(2,4) by (simp add: canonical_Suc)
  have n: "1 \<le> n" "n \<le> j" using assms(2,5) canonical_length [OF assms(2), of m] by auto
  have less: "canonical m j ! k < j" "1 \<le> canonical m j ! k" if "k < length (canonical m j)" for k
    using nth_mem [OF that] by (auto simp: canonical_set)
  show ?thesis
    unfolding compacted_def c
  proof (intro conjI allI impI)
    fix k assume k: "k < length (canonical m j @ [j])"
    show "ts[n := T ! j] ! Suc k = T ! ((canonical m j @ [j]) ! k)"
      using assms n k by (cases "k = length (canonical m j)")
        (auto simp: compacted_def nth_append nth_list_update_cases)
    show "hm[j := of_nat n] ! ((canonical m j @ [j]) ! k) = of_nat (Suc k)"
      using assms n k less [of k] by (cases "k = length (canonical m j)")
        (auto simp: compacted_def nth_append nth_list_update_cases)
  qed (use assms n in \<open>auto simp: compacted_def nth_list_update_cases\<close>)
qed

lemma compacted_skip:
  "compacted m T j ts hm \<Longrightarrow> 1 \<le> j \<Longrightarrow> m ! j \<noteq> of_nat j \<Longrightarrow> compacted m T (Suc j) ts hm"
  by (simp add: compacted_def canonical_Suc)

lemma compact_loop_done:
  assumes "compacted (d_map d) T j (d_types d) (hypot_map d)" "1 \<le> j" "j \<le> length T" "length T \<le> 2 ^ 31"
    "length (d_map d) = length T" "\<And>k. 1 \<le> k \<Longrightarrow> k < length T \<Longrightarrow> entry_ok (T ! k)"
    "next_type_id = of_nat (length (canonical (d_map d) j) + 1)"
  shows "\<exists>p ts hm. compact_loop d next_type_id p0 (map of_nat [j..<length T]) =
      Some (0, of_nat (length (canonical (d_map d) (length T)) + 1), p, d\<lparr>d_types := ts, hypot_map := hm\<rparr>) \<and>
    compacted (d_map d) T (length T) ts hm"
  using assms(3,1,2,4-7)
proof (induction j arbitrary: d next_type_id p0 rule: inc_induct)
  case base
  then show ?case by (intro exI [of _ p0] exI [of _ "d_types d"] exI [of _ "hypot_map d"]) simp
next
  case (step j)
  let ?m = "d_map d" and ?c = "canonical (d_map d) j"
  have list: "map of_nat [j..<length T] = (of_nat j :: u32) # map of_nat [Suc j..<length T]"
    using step.hyps(2) by (simp add: upt_conv_Cons)
  have "length ?c + 1 < 2 ^ LENGTH(32)"
    using step.hyps(2) step.prems(2,3) canonical_length [of j ?m] by simp
  from unat_of_nat_small [OF this] have "unat next_type_id = length ?c + 1" by (simp only: step.prems(6))
  moreover have "unat (of_nat j :: u32) = j" using step.hyps(2) step.prems(3) by (simp add: unat_of_nat_small)
  ultimately have u: "unat next_type_id = length ?c + 1" "unat (of_nat j :: u32) = j" by simp_all
  have lens: "length (d_types d) = length T" "length (hypot_map d) = length T"
    using step.prems(1) by (simp_all add: compacted_def)
  have m: "arr ?m (of_nat j) = Some (?m ! j)" using u step.hyps(2) step.prems(4) by (simp add: arr_def)
  show ?case
  proof (cases "?m ! j = of_nat j")
    case False
    have "compacted ?m T (Suc j) (d_types d) (hypot_map d)"
      using compacted_skip [OF step.prems(1,2) False] .
    from step.IH [OF this, of next_type_id p0] False step.prems canonical_Suc [OF step.prems(2), of ?m]
    show ?thesis by (simp add: list m)
  next
    case True
    let ?n = "length ?c + 1"
    have nj: "?n \<le> j" using canonical_length [OF step.prems(2), of ?m] step.prems(2) by simp
    have t: "arr (d_types d) (of_nat j) = Some (T ! j)"
      using u step.hyps(2) step.prems(1) by (simp add: arr_def compacted_def)
    have pos: "0 \<le> btf_type_size (fst (T ! j))"
      using step.prems(5) [of j] step.prems(2) step.hyps(2) by (simp add: entry_ok_def)
    let ?d = "d\<lparr>hypot_map := (hypot_map d)[j := of_nat ?n], d_types := (d_types d)[?n := T ! j]\<rparr>"
    have dm: "d_map ?d = ?m" by simp
    have comp: "compacted ?m T (Suc j) (d_types ?d) (hypot_map ?d)"
      using compacted_step [OF step.prems(1,2) step.hyps(2) True] by simp
    have nxt: "next_type_id + 1 = of_nat (length (canonical ?m (Suc j)) + 1)"
      using step.prems(6) canonical_Suc [OF step.prems(2), of ?m] True by simp
    obtain p ts hm where ih: "compact_loop ?d (next_type_id + 1)
        (p0 + nat (btf_type_size (fst (T ! j)))) (map of_nat [Suc j..<length T]) =
      Some (0, of_nat (length (canonical ?m (length T)) + 1), p, ?d\<lparr>d_types := ts, hypot_map := hm\<rparr>)"
      "compacted ?m T (length T) ts hm"
      using step.IH [of ?d "next_type_id + 1" "p0 + nat (btf_type_size (fst (T ! j)))",
          unfolded dm, OF comp _ step.prems(3,4,5) nxt] step.prems(2)
      by (metis le_SucI)
    have "arr_set (hypot_map d) (of_nat j) next_type_id = Some ((hypot_map d)[j := of_nat ?n])"
      "arr_set (d_types d) next_type_id (T ! j) = Some ((d_types d)[?n := T ! j])"
      using u lens step.hyps(2) nj step.prems(6) by (simp_all add: arr_set_def)
    then show ?thesis using ih True t pos by (auto simp: list m)
  qed
qed

lemma dd_inv_entries:
  assumes "dd_inv G d" "1 \<le> k" "k < length G"
  shows "entry_ok (d_types d ! k)"
proof -
  have u: "unat (of_nat k :: u32) = k"
    using assms(3) dd_inv_lengths(4) [OF assms(1)] by (simp add: unat_of_nat_small)
  then have "(of_nat k :: u32) \<noteq> 0" using assms(2) by (metis not_one_le_zero unsigned_0)
  then show ?thesis using dd_inv_entry [OF assms(1), of "of_nat k"] u assms(3) by simp
qed

text \<open>What compaction leaves: \<open>n\<close> types besides void, in the order of their canonical ids.\<close>

lemma compact_types_done:
  assumes inv: "dd_inv G d"
  defines "n \<equiv> length (canonical (d_map d) (length G))"
  shows "\<exists>err d' ts hm. btf_dedup_compact_types realloc_ok d = Some (err, d') \<and> err \<le> 0 \<and>
    (err = 0 \<longrightarrow> d_map d' = d_map d \<and> hypot_map d' = hm \<and> d_types d' = take (n + 1) ts \<and>
       unat (d_nr_types d') = n \<and> compacted (d_map d) (d_types d) (length G) ts hm)"
proof -
  note len = dd_inv_lengths [OF inv] and ids = type_ids_valid [OF inv]
  obtain hm0 where hm0: "arr_set (hypot_map d) 0 0 = Some hm0" "length hm0 = length G" "hm0 ! 0 = 0"
    using len by (simp add: arr_set_def)
  obtain hm1 where hm1: "unset_all hm0 (type_ids d) = Some hm1" "length hm1 = length hm0"
    "\<forall>c. unat c < length hm0 \<longrightarrow> hm1 ! unat c = (if c \<in> set (type_ids d) then BTF_UNPROCESSED_ID else hm0 ! unat c)"
    using unset_all_valid [of "type_ids d" hm0 thesis] ids(2) hm0(2) by auto
  let ?d = "d\<lparr>hypot_map := hm1\<rparr>"
  have "hm1 ! 0 = 0" using spec [OF hm1(3), of 0] hm0 ids(2) len by simp
  moreover have "hm1 ! x = BTF_UNPROCESSED_ID" if "x < length G" "0 < x" for x
  proof -
    have u: "unat (of_nat x :: u32) = x" using that(1) len(4) by (simp add: unat_of_nat_small)
    have "(of_nat x :: u32) \<noteq> 0" using u that(2) by (metis less_irrefl unsigned_0)
    then have "(of_nat x :: u32) \<in> set (type_ids d)" using that(1) u unfolding ids(2) by simp
    then show ?thesis using hm1(3) hm0(2) that(1) u by metis
  qed
  ultimately have start: "compacted (d_map d) (d_types d) 1 (d_types d) hm1"
    using hm0(2) hm1(2) len by (simp add: compacted_def canonical_def)
  obtain p ts hm where run: "compact_loop ?d 1 0 (type_ids d) =
      Some (0, of_nat (n + 1), p, d\<lparr>d_types := ts, hypot_map := hm\<rparr>)"
    "compacted (d_map d) (d_types d) (length G) ts hm"
  proof -
    have eqs: "d_map ?d = d_map d" "d_types ?d = d_types d" "hypot_map ?d = hm1"
      "length (d_types d) = length G" by (simp_all add: len)
    have "compacted (d_map ?d) (d_types d) 1 (d_types ?d) (hypot_map ?d)" using start by simp
    moreover have "1 \<le> length (d_types d)" "length (d_types d) \<le> 2 ^ 31" "length (d_map ?d) = length (d_types d)"
      using len by (simp_all add: Suc_le_eq)
    moreover have "entry_ok (d_types d ! k)" if "1 \<le> k" "k < length (d_types d)" for k
      using dd_inv_entries [OF inv that(1)] that(2) len(1) by simp
    moreover have "(1 :: u32) = of_nat (length (canonical (d_map ?d) 1) + 1)" by (simp add: canonical_def)
    ultimately obtain p ts hm where "compact_loop ?d 1 0 (map of_nat [1..<length (d_types d)]) =
        Some (0, of_nat (length (canonical (d_map ?d) (length (d_types d))) + 1), p,
          ?d\<lparr>d_types := ts, hypot_map := hm\<rparr>)"
      "compacted (d_map ?d) (d_types d) (length (d_types d)) ts hm"
      using compact_loop_done [of ?d "d_types d" 1 1 0] by blast
    then show thesis using that [of p hm ts] unfolding n_def ids(3) len(1) by simp
  qed
  have "n < length G" using canonical_length [of "length G" "d_map d"] len(5) unfolding n_def by linarith
  then have nu: "unat (of_nat n :: u32) = n" using len(4) by (simp add: unat_of_nat_small)
  show ?thesis
    using hm0(1) hm1(1) run nu
    by (cases realloc_ok) (auto simp: btf_dedup_compact_types_def Let_def)
qed

section \<open>Final ids\<close>

definition final_id :: "u32 list \<Rightarrow> u32 list \<Rightarrow> u32 \<Rightarrow> u32" where
  "final_id m hm r = hm ! unat (m ! unat r)"

lemma final_id_cases:
  assumes "map_ok G m" "compacted m T (length G) ts hm" "length T = length G" "length G \<le> 2 ^ 31"
    "valid G r" "m ! unat r \<le> BTF_MAX_NR_TYPES"
  obtains (void) "m ! unat r = 0" "final_id m hm r = 0"
  | (type) k where "k < length (canonical m (length G))" "canonical m (length G) ! k = unat (m ! unat r)"
      "unat (final_id m hm r) = k + 1"
proof (cases "m ! unat r = 0")
  case True
  then show thesis using assms(2) by (intro void) (simp_all add: final_id_def compacted_def)
next
  case False
  let ?c = "m ! unat r"
  note c = map_ok_mapped [OF assms(1,5,6)]
  have "unat ?c \<noteq> 0" using False by (simp add: unat_eq_0)
  then have "unat ?c \<in> set (canonical m (length G))"
    using c by (simp add: canonical_set Suc_le_eq)
  then obtain k where k: "k < length (canonical m (length G))" "canonical m (length G) ! k = unat ?c"
    by (auto simp: in_set_conv_nth)
  then have "hm ! unat ?c = of_nat (Suc k)"
    unfolding k(2) [symmetric] using assms(2) by (simp add: compacted_def)
  moreover have "Suc k < 2 ^ LENGTH(32)"
    using k(1) canonical_length [of "length G" m] assms(4,5) by simp
  ultimately have "unat (final_id m hm r) = k + 1"
    unfolding final_id_def by (simp only: unat_of_nat_small Suc_eq_plus1)
  then show thesis using k by (intro type)
qed

lemma final_id_node:
  assumes "map_ok G m" "compacted m T (length G) ts hm" "length T = length G" "length G \<le> 2 ^ 31"
    "valid G r" "m ! unat r \<le> BTF_MAX_NR_TYPES"
  shows "unat (final_id m hm r) \<le> length (canonical m (length G))"
    "take (length (canonical m (length G)) + 1) ts ! unat (final_id m hm r) = T ! unat (m ! unat r)"
    "final_id m hm r \<le> BTF_MAX_NR_TYPES"
proof -
  have n: "length (canonical m (length G)) < length G"
    using canonical_length [of "length G" m] assms(5) by simp
  show "unat (final_id m hm r) \<le> length (canonical m (length G))"
    by (rule final_id_cases [OF assms]) simp_all
  then show "final_id m hm r \<le> BTF_MAX_NR_TYPES"
    using n assms(4) by (simp add: word_le_nat_alt btf_ids)
  show "take (length (canonical m (length G)) + 1) ts ! unat (final_id m hm r) = T ! unat (m ! unat r)"
    by (rule final_id_cases [OF assms]) (use assms(2) in \<open>simp_all add: compacted_def\<close>)
qed

section \<open>Renumbering\<close>

text \<open>A type with all its references rewritten.\<close>

definition put_refs :: "(u32 \<Rightarrow> u32) \<Rightarrow> bnode \<Rightarrow> slot list \<Rightarrow> bnode" where
  "put_refs f n ss = foldl (\<lambda>n s. put_slot n s (f (the (get_slot n s)))) n ss"

lemma put_refs_simps [simp]:
  "put_refs f n [] = n" "put_refs f n (s # ss) = put_refs f (put_slot n s (f (the (get_slot n s)))) ss"
  by (simp_all add: put_refs_def)

lemma put_refs_slots:
  assumes "distinct ss" "set ss \<subseteq> set (ref_slots n)" "\<And>s. s \<in> set (ref_slots n) \<Longrightarrow> get_slot n s \<noteq> None"
  shows "same_shape n (put_refs f n ss) \<and> (\<forall>s \<in> set (ref_slots n). get_slot (put_refs f n ss) s =
    Some (if s \<in> set ss then f (the (get_slot n s)) else the (get_slot n s)))"
  using assms
proof (induction ss arbitrary: n)
  case Nil
  then show ?case by auto
next
  case (Cons s ss)
  let ?n = "put_slot n s (f (the (get_slot n s)))"
  have s: "s \<in> set (ref_slots n)" "get_slot n s \<noteq> None" using Cons.prems by auto
  have g: "get_slot ?n s' = (if s = s' then Some (f (the (get_slot n s))) else get_slot n s')" for s'
    by (rule get_put_slot [OF s(2)])
  have ih: "same_shape ?n (put_refs f ?n ss) \<and> (\<forall>s' \<in> set (ref_slots ?n). get_slot (put_refs f ?n ss) s' =
    Some (if s' \<in> set ss then f (the (get_slot ?n s')) else the (get_slot ?n s')))"
    using Cons.prems g by (intro Cons.IH) auto
  have "same_shape n (put_refs f ?n ss)"
    using same_shape_trans [OF put_slot_shape [OF s(1)]] ih by blast
  moreover have "get_slot (put_refs f ?n ss) s' =
      Some (if s' \<in> set (s # ss) then f (the (get_slot n s')) else the (get_slot n s'))"
    if "s' \<in> set (ref_slots n)" for s'
    using ih g [of s'] that Cons.prems(1) by (cases "s' = s") auto
  ultimately show ?case by simp
qed

lemma put_refs_all:
  assumes "entry_ok n"
  shows "same_shape n (put_refs f n (ref_slots n))" "refs (put_refs f n (ref_slots n)) = map f (refs n)"
proof -
  have fit: "get_slot n s \<noteq> None" if "s \<in> set (ref_slots n)" for s
    using get_slot_fits [OF assms that] by auto
  note p = put_refs_slots [OF ref_slots_distinct order.refl fit, of f]
  then show "same_shape n (put_refs f n (ref_slots n))" by simp
  then have "ref_slots (put_refs f n (ref_slots n)) = ref_slots n" using same_shape_slots by metis
  then show "refs (put_refs f n (ref_slots n)) = map f (refs n)"
    using p by (simp add: refs_def)
qed

lemma remap_slots_done:
  assumes "\<And>ts r. P r \<Longrightarrow> btf_dedup_remap_type_id (d\<lparr>d_types := ts\<rparr>) r = Some (Inr (f r))"
    "unat i < length ts" "distinct ss" "\<forall>s \<in> set ss. \<exists>r. get_slot (ts ! unat i) s = Some r \<and> P r"
  shows "remap_slots (d\<lparr>d_types := ts\<rparr>) i ss =
    Some (0, d\<lparr>d_types := ts[unat i := put_refs f (ts ! unat i) ss]\<rparr>)"
  using assms(2-)
proof (induction ss arbitrary: ts)
  case (Cons s ss)
  obtain r where r: "get_slot (ts ! unat i) s = Some r" "P r" using Cons.prems(3) by auto
  let ?ts = "ts[unat i := put_slot (ts ! unat i) s (f r)]"
  have "get_slot (?ts ! unat i) s' = get_slot (ts ! unat i) s'" if "s' \<in> set ss" for s'
    using get_put_slot [of "ts ! unat i" s "f r" s'] r that Cons.prems(1,2) by auto
  then have "remap_slots (d\<lparr>d_types := ?ts\<rparr>) i ss =
      Some (0, d\<lparr>d_types := ?ts[unat i := put_refs f (?ts ! unat i) ss]\<rparr>)"
    using Cons.prems by (intro Cons.IH) auto
  then show ?case
    using r Cons.prems(1) assms(1) [OF r(2)] by (simp add: arr_valid)
qed simp

lemma remap_type_id_done:
  assumes "map_ok G (d_map d)" "compacted (d_map d) T (length G) ts (hypot_map d)" "length T = length G"
    "length G \<le> 2 ^ 31" "valid G r" "d_map d ! unat r \<le> BTF_MAX_NR_TYPES"
  shows "btf_dedup_remap_type_id d r = Some (Inr (final_id (d_map d) (hypot_map d) r))"
proof -
  have "valid G (d_map d ! unat r)" using map_ok_mapped(1) [OF assms(1,5,6)] .
  moreover have "length (hypot_map d) = length G" using assms(2,3) by (simp add: compacted_def)
  moreover have "\<not> BTF_MAX_NR_TYPES < final_id (d_map d) (hypot_map d) r"
    using final_id_node(3) [OF assms] by simp
  ultimately show ?thesis
    using resolve_map_ok [OF assms(1,5)] assms(6)
    by (simp add: btf_dedup_remap_type_id_def arr_valid final_id_def)
qed

lemma remap_types_done:
  assumes ids: "\<And>ts r. valid G r \<Longrightarrow> btf_dedup_remap_type_id (d\<lparr>d_types := ts\<rparr>) r = Some (Inr (f r))"
    and n: "length (d_types d) = unat (d_nr_types d) + 1" "unat (d_nr_types d) < 2 ^ 31"
    and nodes: "\<And>j. 1 \<le> j \<Longrightarrow> j < length (d_types d) \<Longrightarrow>
      entry_ok (d_types d ! j) \<and> (\<forall>r \<in> set (refs (d_types d ! j)). valid G r)"
  shows "\<exists>ts. btf_dedup_remap_types d = Some (0, d\<lparr>d_types := ts\<rparr>) \<and> length ts = length (d_types d) \<and>
    ts ! 0 = d_types d ! 0 \<and>
    (\<forall>j < length ts. 1 \<le> j \<longrightarrow> ts ! j = put_refs f (d_types d ! j) (ref_slots (d_types d ! j)))"
proof -
  let ?U = "d_types d" and ?g = "\<lambda>j. put_refs f (d_types d ! j) (ref_slots (d_types d ! j))"
  define P where "P = (\<lambda>(is :: u32 list) d'. \<exists>ts. d' = d\<lparr>d_types := ts\<rparr> \<and> length ts = length ?U \<and> ts ! 0 = ?U ! 0 \<and>
    distinct is \<and> (\<forall>i \<in> set is. 1 \<le> unat i \<and> unat i < length ?U) \<and>
    (\<forall>i. 1 \<le> unat i \<longrightarrow> unat i < length ?U \<longrightarrow>
       ts ! unat i = (if i \<in> set is then ?U ! unat i else ?g (unat i))))"
  have u: "unat (of_nat k :: u32) = k" if "k < length ?U" for k
    using that n by (simp add: unat_of_nat_small)
  have tid: "type_ids d = map of_nat [1..<length ?U]" using n(1) by (simp add: type_ids_def)
  have mem: "i \<in> set (type_ids d) \<longleftrightarrow> 1 \<le> unat i \<and> unat i < length ?U" for i
  proof
    assume "1 \<le> unat i \<and> unat i < length ?U"
    then show "i \<in> set (type_ids d)" unfolding tid by (auto intro!: image_eqI [of _ _ "unat i"])
  qed (auto simp: tid u)
  have "inj_on (of_nat :: nat \<Rightarrow> u32) {1..<length ?U}"
    by (rule inj_on_inverseI [where g = unat]) (simp add: u)
  then have "distinct (type_ids d)" by (simp add: tid distinct_map)
  then have "P (type_ids d) d"
    unfolding P_def by (intro exI [of _ ?U]) (auto simp: mem)
  moreover have "\<exists>err d'. btf_dedup_remap_type d1 i = Some (err, d') \<and> err = 0 \<and> (err = 0 \<longrightarrow> P is d')"
    if p: "P (i # is) d1" for i "is" d1
  proof -
    obtain ts where ts: "d1 = d\<lparr>d_types := ts\<rparr>" "length ts = length ?U" "ts ! 0 = ?U ! 0" "distinct (i # is)"
      "1 \<le> unat i" "unat i < length ?U" "\<forall>i \<in> set is. 1 \<le> unat i \<and> unat i < length ?U"
      "\<forall>x. 1 \<le> unat x \<longrightarrow> unat x < length ?U \<longrightarrow>
        ts ! unat x = (if x \<in> set (i # is) then ?U ! unat x else ?g (unat x))"
      using p by (auto simp: P_def)
    have old: "ts ! unat i = ?U ! unat i" using ts by simp
    have ok: "entry_ok (?U ! unat i)" "\<forall>r \<in> set (refs (?U ! unat i)). valid G r"
      using nodes [OF ts(5,6)] by simp_all
    have slots: "\<forall>s \<in> set (ref_slots (?U ! unat i)). \<exists>r. get_slot (ts ! unat i) s = Some r \<and> valid G r"
    proof
      fix s assume s: "s \<in> set (ref_slots (?U ! unat i))"
      obtain r where r: "get_slot (?U ! unat i) s = Some r" using get_slot_fits [OF ok(1) s] by blast
      then have "r \<in> set (refs (?U ! unat i))" unfolding refs_def using s by force
      then show "\<exists>r. get_slot (ts ! unat i) s = Some r \<and> valid G r" using r ok(2) old by auto
    qed
    have "remap_slots d1 i (ref_slots (?U ! unat i)) =
        Some (0, d\<lparr>d_types := ts[unat i := put_refs f (ts ! unat i) (ref_slots (?U ! unat i))]\<rparr>)"
      unfolding ts(1) by (rule remap_slots_done [where P = "valid G"])
        (use ids ts(2,6) slots ref_slots_distinct in auto)
    moreover have "kind_words (fst (?U ! unat i)) \<noteq> None" using ok(1) by (simp add: entry_ok_words)
    ultimately have run: "btf_dedup_remap_type d1 i = Some (0, d\<lparr>d_types := ts[unat i := ?g (unat i)]\<rparr>)"
      using ts(1,2,6) old by (simp add: btf_dedup_remap_type_def arr_valid)
    have "P is (d\<lparr>d_types := ts[unat i := ?g (unat i)]\<rparr>)"
      unfolding P_def
    proof (intro exI [of _ "ts[unat i := ?g (unat i)]"] conjI allI impI ballI refl)
      fix x :: u32 assume "1 \<le> unat x" "unat x < length ?U"
      then show "ts[unat i := ?g (unat i)] ! unat x = (if x \<in> set is then ?U ! unat x else ?g (unat x))"
        using ts(2,4,8) by (cases "x = i") auto
    qed (use ts in \<open>auto simp: nth_list_update_cases\<close>)
    then show ?thesis using run by blast
  qed
  ultimately obtain d' where "for_types btf_dedup_remap_type (type_ids d) d = Some (0, d')" "P [] d'"
    using for_types_induct [of P "type_ids d" d "\<lambda>e. e = 0" btf_dedup_remap_type] by auto
  then obtain ts where ts: "btf_dedup_remap_types d = Some (0, d\<lparr>d_types := ts\<rparr>)" "length ts = length ?U"
    "ts ! 0 = ?U ! 0" "\<forall>i :: u32. 1 \<le> unat i \<longrightarrow> unat i < length ?U \<longrightarrow> ts ! unat i = ?g (unat i)"
    by (auto simp: btf_dedup_remap_types_def P_def)
  have "ts ! j = ?g j" if "1 \<le> j" "j < length ts" for j
    using spec [OF ts(4), of "of_nat j"] u that ts(2) by simp
  then show ?thesis using ts(1-3) by blast
qed

section \<open>Return codes are never positive\<close>

lemma for_types_le:
  assumes "\<And>i d err d'. f d i = Some (err, d') \<Longrightarrow> err \<le> (0 :: int)"
  shows "for_types f is d = Some (err, d') \<Longrightarrow> err \<le> 0"
  by (induction "is" arbitrary: d) (auto split: option.split_asm if_split_asm dest: assms)

lemma finish_le: "dedup_finish d h i j = Some (err, d') \<Longrightarrow> err \<le> 0"
  by (auto simp: dedup_finish_def split: Option.bind_split_asm if_split_asm)

lemma prim_type_le:
  assumes "btf_dedup_prim_type d i = Some (err, d')"
  shows "err \<le> 0"
proof -
  obtain t where t: "arr (d_types d) i = Some t"
    using assms by (auto simp: btf_dedup_prim_type_def split: Option.bind_split_asm)
  show ?thesis
    using assms finish_le unfolding btf_dedup_prim_type_def t Let_def
    by (auto split: Option.bind_split_asm if_split_asm)
qed

lemma find_struct_neg: "find_struct d t i es = Some (Inl e, d') \<Longrightarrow> e < 0"
  by (induction es arbitrary: d) (auto split: Option.bind_split_asm if_split_asm)

lemma struct_type_le:
  assumes "btf_dedup_struct_type d i = Some (err, d')"
  shows "err \<le> 0"
  using assms finish_le find_struct_neg unfolding btf_dedup_struct_type_def
  by (fastforce split: Option.bind_split_asm if_split_asm sum.split_asm)

section \<open>The whole run\<close>

lemma final_graph:
  assumes inv: "dd_inv G d" and all: "\<And>i. valid G i \<Longrightarrow> d_map d ! unat i \<le> BTF_MAX_NR_TYPES"
    and c: "compacted (d_map d) (d_types d) (length G) ts hm"
    and F: "length F = length (canonical (d_map d) (length G)) + 1"
      "F ! 0 = take (length (canonical (d_map d) (length G)) + 1) ts ! 0"
      "\<And>j. 1 \<le> j \<Longrightarrow> j < length F \<Longrightarrow> F ! j =
        put_refs (final_id (d_map d) hm) (take (length F) ts ! j) (ref_slots (take (length F) ts ! j))"
  defines "f \<equiv> final_id (d_map d) hm"
  shows "valid G i \<Longrightarrow> valid F (f i) \<and> same_type G F i (f i)"
proof -
  note len = dd_inv_lengths [OF inv]
  have mok: "map_ok G (d_map d)" using inv by (simp add: dd_inv_def)
  let ?n = "length (canonical (d_map d) (length G))"
  note fid = final_id_node [OF mok c len(1) len(4)]
  have inF: "valid F (f i)" if "valid G i" for i
    using fid(1) [OF that all [OF that]] F(1) by (simp add: f_def)
  have node: "same_shape (d_types d ! unat (d_map d ! unat i)) (F ! unat (f i)) \<and>
      refs (F ! unat (f i)) = map f (refs (d_types d ! unat (d_map d ! unat i)))"
    if i: "valid G i" for i
  proof (cases "unat (f i) = 0")
    case True
    have m0: "d_map d ! unat i = 0"
      by (rule final_id_cases [OF mok c len(1) len(4) i all [OF i]]) (use True in \<open>simp_all add: f_def\<close>)
    have "F ! 0 = ts ! 0" using F(2) by simp
    also have "\<dots> = d_types d ! 0" using c by (simp add: compacted_def)
    finally have eq: "F ! unat (f i) = d_types d ! unat (d_map d ! unat i)" using True m0 by simp
    have "same_shape void_node (d_types d ! 0)"
      using dd_inv_node(1) [OF inv, of 0] dd_inv_wf [OF inv] len(5) by (simp add: wf_types_def)
    then have "ref_slots (d_types d ! 0) = ref_slots void_node" using same_shape_slots by metis
    then have "refs (d_types d ! 0) = []"
      using void_kind by (simp add: refs_def ref_slots_def btf_kinds)
    then show ?thesis using eq m0 by simp
  next
    case False
    have nd: "take (length F) ts ! unat (f i) = d_types d ! unat (d_map d ! unat i)"
      using fid(2) [OF i all [OF i]] F(1) by (simp add: f_def)
    have v: "valid G (d_map d ! unat i)" using map_ok_mapped(1) [OF mok i all [OF i]] .
    have "d_map d ! unat i \<noteq> 0"
    proof
      assume "d_map d ! unat i = 0"
      then have "f i = 0" using c by (simp add: f_def final_id_def compacted_def)
      then show False using False by simp
    qed
    then have "entry_ok (d_types d ! unat (d_map d ! unat i))" using dd_inv_entry [OF inv v] by simp
    then show ?thesis
      using F(3) [of "unat (f i)"] False inF [OF i] nd put_refs_all by (simp add: f_def)
  qed
  have main: "same_type G F i j" if "\<exists>c. valid G c \<and> same_type G G i c \<and> j = f c" for i j
    using that
  proof (coinduction arbitrary: i j)
    case same_type
    then obtain c where c: "valid G c" "same_type G G i c" "j = f c" by blast
    let ?m = "d_map d ! unat c"
    note m = map_ok_mapped [OF mok c(1) all [OF c(1)]]
    have im: "same_type G G i ?m" using same_type_trans [OF c(2) m(3)] .
    have vi: "valid G i" using same_type_nodes(1) [OF same_type_sym [OF im] m(1)] .
    note nm = dd_inv_node [OF inv m(1)] and nf = node [OF c(1)]
    have shape: "same_shape (G ! unat i) (F ! unat j)"
      using same_type_nodes(2) [OF im vi] nm(1) nf c(3) same_shape_trans by blast
    have "(\<exists>c. valid G c \<and> same_type G G (refs (G ! unat i) ! k) c \<and> refs (F ! unat j) ! k = f c)"
      if k: "k < length (refs (G ! unat i))" for k
    proof -
      have l: "length (refs (G ! unat i)) = length (refs (G ! unat ?m))"
        "length (refs (G ! unat ?m)) = length (refs (d_types d ! unat ?m))"
        using same_shape_length_refs same_type_nodes(2) [OF im vi] nm(1) by blast+
      let ?r = "refs (d_types d ! unat ?m) ! k"
      have "valid G ?r" using dd_inv_refs [OF inv m(1)] k l by simp
      moreover have "same_type G G (refs (G ! unat i) ! k) ?r"
        using same_type_nodes(3) [OF im vi k] nm(2) k l by (auto intro: same_type_trans)
      moreover have "refs (F ! unat j) ! k = f ?r" using nf k l c(3) by simp
      ultimately show ?thesis by blast
    qed
    then show ?case using vi inF [OF c(1)] c(3) shape by (intro disjI1 exI [of _ i] exI [of _ j]) simp
  qed
  show "valid G i \<Longrightarrow> valid F (f i) \<and> same_type G F i (f i)"
    using inF main same_type_refl by blast
qed

lemma final_id_onto:
  assumes "map_ok G m" "compacted m T (length G) ts hm" "length T = length G" "length G \<le> 2 ^ 31" "0 < length G"
    "unat j \<le> length (canonical m (length G))"
  shows "\<exists>i. valid G i \<and> final_id m hm i = j"
proof (cases "j = 0")
  case True
  have "final_id m hm 0 = 0" using assms(1,2) by (simp add: final_id_def map_ok_def compacted_def)
  then show ?thesis using True assms(5) by (intro exI [of _ 0]) simp
next
  case False
  define k where "k = unat j - 1"
  have pos: "0 < unat j" using False by (simp add: unat_gt_0)
  then have k: "k < length (canonical m (length G))" "unat j = Suc k" using assms(6) by (simp_all add: k_def)
  let ?x = "canonical m (length G) ! k"
  have x: "1 \<le> ?x" "?x < length G" "m ! ?x = of_nat ?x" using nth_mem [OF k(1)] by (simp_all add: canonical_set)
  have u: "unat (of_nat ?x :: u32) = ?x" using x(2) assms(4) by (simp add: unat_of_nat_small)
  have "hm ! ?x = of_nat (Suc k)" using assms(2) k(1) by (simp add: compacted_def)
  also have "\<dots> = j" unfolding k(2) [symmetric] by simp
  finally have "final_id m hm (of_nat ?x) = j" using x(3) u by (simp add: final_id_def)
  then show ?thesis using u x(2) by (intro exI [of _ "of_nat ?x"]) simp
qed

text \<open>The last pass on what compaction left.\<close>

lemma remap_final:
  assumes inv: "dd_inv G d" and all: "\<And>i. valid G i \<Longrightarrow> d_map d ! unat i \<le> BTF_MAX_NR_TYPES"
    and d4: "d_map d4 = d_map d \<and> hypot_map d4 = hm \<and>
      d_types d4 = take (length (canonical (d_map d) (length G)) + 1) ts \<and>
      unat (d_nr_types d4) = length (canonical (d_map d) (length G)) \<and>
      compacted (d_map d) (d_types d) (length G) ts hm"
  shows "\<exists>F. btf_dedup_remap_types d4 = Some (0, d4\<lparr>d_types := F\<rparr>) \<and>
    length F = unat (d_nr_types d4) + 1 \<and> length F \<le> length G \<and>
    (\<forall>i. valid G i \<longrightarrow> valid F (final_id (d_map d) hm i) \<and> same_type G F i (final_id (d_map d) hm i)) \<and>
    final_id (d_map d) hm 0 = 0 \<and> (\<forall>j. valid F j \<longrightarrow> (\<exists>i. valid G i \<and> final_id (d_map d) hm i = j))"
proof -
  note len = dd_inv_lengths [OF inv]
  let ?n = "length (canonical (d_map d) (length G))"
  have mok: "map_ok G (d_map d)" using inv by (simp add: dd_inv_def)
  have c: "compacted (d_map d) (d_types d) (length G) ts hm" using d4 by simp
  have n: "?n < length G" using canonical_length [of "length G" "d_map d"] len(5) by linarith
  have l4: "length (d_types d4) = ?n + 1" using d4 c n len(1) by (simp add: compacted_def)
  have ids: "btf_dedup_remap_type_id (d4\<lparr>d_types := us\<rparr>) r = Some (Inr (final_id (d_map d) hm r))"
    if "valid G r" for us r
    using remap_type_id_done [of G "d4\<lparr>d_types := us\<rparr>" "d_types d" ts r] mok c len(1,4) that all d4 by simp
  have nodes: "entry_ok (d_types d4 ! j) \<and> (\<forall>r \<in> set (refs (d_types d4 ! j)). valid G r)"
    if j: "1 \<le> j" "j < length (d_types d4)" for j
  proof -
    obtain k where k: "j = Suc k" "k < ?n" using j l4 by (cases j) auto
    let ?x = "canonical (d_map d) (length G) ! k"
    have x: "1 \<le> ?x" "?x < length G" using nth_mem [OF k(2)] by (simp_all add: canonical_set)
    have u: "unat (of_nat ?x :: u32) = ?x" using x(2) len(4) by (simp add: unat_of_nat_small)
    have "d_types d4 ! j = d_types d ! ?x" using d4 c k by (simp add: compacted_def)
    then show ?thesis
      using dd_inv_entries [OF inv x] dd_inv_refs [OF inv, of "of_nat ?x"] u x(2) by simp
  qed
  have n4: "length (d_types d4) = unat (d_nr_types d4) + 1" "unat (d_nr_types d4) < 2 ^ 31"
    using l4 d4 n len(4) by simp_all
  obtain F where F: "btf_dedup_remap_types d4 = Some (0, d4\<lparr>d_types := F\<rparr>)" "length F = length (d_types d4)"
    "F ! 0 = d_types d4 ! 0" "\<forall>j < length F. 1 \<le> j \<longrightarrow>
       F ! j = put_refs (final_id (d_map d) hm) (d_types d4 ! j) (ref_slots (d_types d4 ! j))"
    using remap_types_done [of G d4 "final_id (d_map d) hm", OF ids n4 nodes] by blast
  have Fl: "length F = ?n + 1" using F(2) l4 by simp
  have "valid F (final_id (d_map d) hm i) \<and> same_type G F i (final_id (d_map d) hm i)" if "valid G i" for i
    using final_graph [OF inv all c, of F i] Fl F(3,4) d4 that by simp
  moreover have "final_id (d_map d) hm 0 = 0"
    using mok c by (simp add: final_id_def map_ok_def compacted_def)
  moreover have "\<exists>i. valid G i \<and> final_id (d_map d) hm i = j" if "valid F j" for j
    using final_id_onto [OF mok c len(1,4,5), of j] that Fl by simp
  ultimately show ?thesis using F(1) Fl d4 n by (intro exI [of _ F]) simp
qed

lemma dedup_types_done:
  assumes inv: "dd_inv G d" and hok: "hyp_ok G d"
    and fresh: "\<And>i. valid G i \<Longrightarrow> i \<noteq> 0 \<Longrightarrow>
      self_canonical (d_types d ! unat i) \<or> d_map d ! unat i = BTF_UNPROCESSED_ID"
  shows "\<exists>err d'. dedup_types realloc_ok d = Some (err, d') \<and> err \<le> 0 \<and>
    (err = 0 \<longrightarrow> length (d_types d') = unat (d_nr_types d') + 1 \<and> length (d_types d') \<le> length G \<and>
       (\<exists>f. f 0 = 0 \<and> (\<forall>i. valid G i \<longrightarrow> valid (d_types d') (f i) \<and> same_type G (d_types d') i (f i)) \<and>
          (\<forall>j. valid (d_types d') j \<longrightarrow> (\<exists>i. valid G i \<and> f i = j))))"
proof -
  obtain e1 d1 where p1: "btf_dedup_prim_types d = Some (e1, d1)" "e1 = 0 \<longrightarrow> dd_inv G d1 \<and> hyp_ok G d1"
    using prim_types_done [OF inv hok fresh] by blast
  have l1: "e1 \<le> 0" using for_types_le [OF prim_type_le] p1(1) by (simp add: btf_dedup_prim_types_def)
  show ?thesis
  proof (cases "e1 < 0")
    case True
    then show ?thesis using p1(1) by (simp add: dedup_types_def)
  next
    case False
    then have e1: "e1 = 0" using l1 by simp
    obtain e2 d2 where p2: "btf_dedup_struct_types d1 = Some (e2, d2)" "e2 = 0 \<longrightarrow> dd_inv G d2"
      using struct_types_done p1(2) e1 by blast
    have l2: "e2 \<le> 0" using for_types_le [OF struct_type_le] p2(1) by (simp add: btf_dedup_struct_types_def)
    show ?thesis
    proof (cases "e2 < 0")
      case True
      then show ?thesis using p1(1) e1 p2(1) by (simp add: dedup_types_def)
    next
      case False
      then have e2: "e2 = 0" using l2 by simp
      obtain e3 d3 where p3: "btf_dedup_ref_types d2 = Some (e3, d3)" "e3 \<le> 0"
        "e3 = 0 \<longrightarrow> dd_inv G d3 \<and> (\<forall>i. valid G i \<longrightarrow> d_map d3 ! unat i \<le> BTF_MAX_NR_TYPES)"
        using ref_types_done [of G d2] p2(2) e2 by blast
      note run = dedup_types_def p1(1) e1 p2(1) e2 p3(1)
      show ?thesis
      proof (cases "e3 < 0")
        case True
        then show ?thesis using p3(2) by (simp add: run)
      next
        case False
        then have e3: "e3 = 0" and inv3: "dd_inv G d3"
          and all: "\<And>i. valid G i \<Longrightarrow> d_map d3 ! unat i \<le> BTF_MAX_NR_TYPES" using p3(2,3) by auto
        obtain e4 d4 ts hm where p4: "btf_dedup_compact_types realloc_ok d3 = Some (e4, d4)" "e4 \<le> 0"
          "e4 = 0 \<longrightarrow> d_map d4 = d_map d3 \<and> hypot_map d4 = hm \<and>
             d_types d4 = take (length (canonical (d_map d3) (length G)) + 1) ts \<and>
             unat (d_nr_types d4) = length (canonical (d_map d3) (length G)) \<and>
             compacted (d_map d3) (d_types d3) (length G) ts hm"
          using compact_types_done [OF inv3, of realloc_ok] by blast
        show ?thesis
        proof (cases "e4 < 0")
          case True
          then show ?thesis using p4(1,2) e3 by (simp add: run)
        next
          case False
          then have e4: "e4 = 0" using p4(2) by simp
          obtain F where "btf_dedup_remap_types d4 = Some (0, d4\<lparr>d_types := F\<rparr>)"
            "length F = unat (d_nr_types d4) + 1" "length F \<le> length G"
            "\<And>i. valid G i \<Longrightarrow> valid F (final_id (d_map d3) hm i) \<and>
               same_type G F i (final_id (d_map d3) hm i)"
            "final_id (d_map d3) hm 0 = 0"
            "\<And>j. valid F j \<Longrightarrow> \<exists>i. valid G i \<and> final_id (d_map d3) hm i = j"
            using remap_final [OF inv3 all] p4(3) e4 by blast
          then show ?thesis using p4(1) e3 e4
            by (auto simp: run intro!: exI [of _ "final_id (d_map d3) hm"])
        qed
      qed
    qed
  qed
qed

lemma dedup_new_inv:
  assumes "wf_types G" "btf_dedup_new alloc G hdr tsize dsize (Some opts) = Inr d" "opt_dont_resolve_fwds opts"
  shows "dd_inv G d" "hyp_ok G d" "d_types d = G"
    "valid G i \<Longrightarrow> i \<noteq> 0 \<Longrightarrow> self_canonical (d_types d ! unat i) \<or> d_map d ! unat i = BTF_UNPROCESSED_ID"
proof -
  let ?m = "0 # map (\<lambda>i. if self_canonical (G ! i) then of_nat i else BTF_UNPROCESSED_ID) [1..<length G]"
  obtain hash where d: "d_types d = G" "d_nr_types d = of_nat (length G - 1)"
      "dedup_table d = hashmap__init hash btf_dedup_equal_fn" "d_map d = ?m"
      "hypot_map d = replicate (length G) BTF_UNPROCESSED_ID" "hypot_list d = []" "dont_resolve_fwds d"
    using assms(2,3) by (auto simp: btf_dedup_new_def hashmap__new_def Let_def split: if_splits)
  have table: "table_ok ?m (dedup_table d)"
    unfolding d(3) using hm_inv_init [OF good_keys_eq, of hash]
    by (simp add: table_ok_def equal_fn_eq hm_group_def hashmap_entries_def hashmap__init_def)
  have len: "length G \<le> 2 ^ 31" "0 < length G" using assms(1) by (simp_all add: wf_types_def)
  have m: "?m ! unat i = (if i = 0 then 0 else if self_canonical (G ! unat i) then i else BTF_UNPROCESSED_ID)"
    if "valid G i" for i
  proof (cases "i = 0")
    case False
    then obtain k where k: "unat i = Suc k" by (metis not0_implies_Suc unat_eq_0)
    have "of_nat (Suc k) = i" unfolding k [symmetric] by simp
    then show ?thesis using k that False by simp
  qed simp
  have zero: "\<not> self_canonical (G ! 0)"
    using assms(1) void_kind by (simp add: wf_types_def self_canonical_def btf_is_var_def btf_kinds)
  have "map_ok G ?m"
    unfolding map_ok_def
  proof (intro conjI allI impI)
    fix i assume i: "valid G i"
    show "?m ! unat i \<le> BTF_MAX_NR_TYPES \<and> valid G (?m ! unat i) \<and>
        ?m ! unat (?m ! unat i) = ?m ! unat i \<and> same_type G G i (?m ! unat i) \<or>
        ?m ! unat i = BTF_UNPROCESSED_ID \<or> ?m ! unat i = BTF_IN_PROGRESS_ID"
      using m [OF i] i valid_small [OF assms(1) i] len by (auto simp: same_type_refl btf_ids)
  qed (use len in auto)
  moreover have "unat (d_nr_types d) + 1 = length G"
    using len unat_of_nat_small [of "length G - 1", where ?'a = 32] by (simp add: d(2))
  ultimately show "dd_inv G d" using assms(1) d(1,4-7) table by (simp add: dd_inv_def)
  show "hyp_ok G d" using d by (auto simp: hyp_ok_def)
  show "d_types d = G" by (rule d(1))
  show "valid G i \<Longrightarrow> i \<noteq> 0 \<Longrightarrow> self_canonical (d_types d ! unat i) \<or> d_map d ! unat i = BTF_UNPROCESSED_ID"
    using m d(1,4) by simp
qed

end
