(* ===== verification/Btf_Strings.thy ===== *)
theory Btf_Strings
  imports Btf_Dedup_Final "HOL-Library.Multiset"
begin

text \<open>
  Deduplication of strings, \<open>libbpf/src/btf.c\<close> lines 1463 to 1742, and the whole of \<open>btf__dedup\<close>. The string
  section is a list of bytes, a string an offset into it. The line information of the \<open>.BTF.ext\<close> data comes as
  its sections with the string offsets of their records; it is all of \<open>.BTF.ext\<close> that the code visits, although
  its comments speak of every place that can refer to a string. \<open>qsort\<close> of the C library is an argument: any
  function that sorts. The place of a string in the new section is not set until the string is emitted.
\<close>

section \<open>Strings\<close>

definition c_strlen :: "u8 list \<Rightarrow> nat \<Rightarrow> nat option" where
  "c_strlen buf p =
     (if p + length (c_string buf p) < length buf then Some (length (c_string buf p)) else None)"

text \<open>\<open>strcmp\<close> on the bytes as unsigned numbers.\<close>

fun c_strcmp :: "u8 list \<Rightarrow> u8 list \<Rightarrow> int" where
  "c_strcmp [] [] = 0"
| "c_strcmp [] (b # bs) = - 1"
| "c_strcmp (a # as) [] = 1"
| "c_strcmp (a # as) (b # bs) = (if a < b then - 1 else if b < a then 1 else c_strcmp as bs)"

record btf_str_ptr =
  sp_str :: nat
  sp_new_off :: "u32 option"
  sp_used :: bool

type_synonym qsort_fn =
  "(btf_str_ptr \<Rightarrow> btf_str_ptr \<Rightarrow> int) \<Rightarrow> btf_str_ptr list \<Rightarrow> btf_str_ptr list"

definition str_sort_by_content :: "u8 list \<Rightarrow> btf_str_ptr \<Rightarrow> btf_str_ptr \<Rightarrow> int" where
  "str_sort_by_content buf p1 p2 = c_strcmp (c_string buf (sp_str p1)) (c_string buf (sp_str p2))"

definition str_sort_by_offset :: "btf_str_ptr \<Rightarrow> btf_str_ptr \<Rightarrow> int" where
  "str_sort_by_offset p1 p2 =
     (if sp_str p1 \<noteq> sp_str p2 then (if sp_str p1 < sp_str p2 then - 1 else 1) else 0)"

text \<open>
  The search by offset: \<open>bsearch\<close> with \<open>btf_dedup_str_ptr_cmp\<close> finds the entry with this offset, of which
  there is at most one.
\<close>

fun str_ptr_find :: "nat \<Rightarrow> btf_str_ptr list \<Rightarrow> nat option" where
  "str_ptr_find off [] = None"
| "str_ptr_find off (p # ps) = (if sp_str p = off then Some 0 else map_option Suc (str_ptr_find off ps))"

definition btf_str_mark_as_used ::
  "u32 \<Rightarrow> btf_str_ptr list \<Rightarrow> (int \<times> u32 \<times> btf_str_ptr list) option" where
  "btf_str_mark_as_used off strs =
     (if off = 0 then Some (0, off, strs)
      else
        case str_ptr_find (unat off) strs of
          None \<Rightarrow> Some (- EINVAL, off, strs)
        | Some i \<Rightarrow> Some (0, off, strs[i := (strs ! i)\<lparr>sp_used := True\<rparr>]))"

definition btf_str_remap_offset ::
  "u32 \<Rightarrow> btf_str_ptr list \<Rightarrow> (int \<times> u32 \<times> btf_str_ptr list) option" where
  "btf_str_remap_offset off strs =
     (if off = 0 then Some (0, off, strs)
      else
        case str_ptr_find (unat off) strs of
          None \<Rightarrow> Some (- EINVAL, off, strs)
        | Some i \<Rightarrow> (case sp_new_off (strs ! i) of
                       None \<Rightarrow> None
                     | Some new_off \<Rightarrow> Some (0, new_off, strs)))"

section \<open>All places with string offsets\<close>

datatype name_slot = NameOff | NameWord nat

definition name_slots :: "bnode \<Rightarrow> name_slot list" where
  "name_slots n =
     NameOff #
     (let kind = btf_kind (fst n) in
      if kind = BTF_KIND_STRUCT \<or> kind = BTF_KIND_UNION then map (\<lambda>i. NameWord (3 * i)) [0..<vlen_of n]
      else if kind = BTF_KIND_ENUM then map (\<lambda>i. NameWord (2 * i)) [0..<vlen_of n]
      else if kind = BTF_KIND_FUNC_PROTO then map (\<lambda>i. NameWord (2 * i)) [0..<vlen_of n]
      else [])"

fun get_name :: "bnode \<Rightarrow> name_slot \<Rightarrow> u32 option" where
  "get_name n NameOff = Some (name_off (fst n))"
| "get_name n (NameWord k) = word_at n k"

fun put_name :: "bnode \<Rightarrow> name_slot \<Rightarrow> u32 \<Rightarrow> bnode" where
  "put_name n NameOff v = ((fst n)\<lparr>name_off := v\<rparr>, snd n)"
| "put_name n (NameWord k) v = (fst n, (snd n)[k := v])"

text \<open>The callback answers with a return code, what it leaves at the place, and its state.\<close>

type_synonym 's str_off_fn = "u32 \<Rightarrow> 's \<Rightarrow> (int \<times> u32 \<times> 's) option"

fun each_slot :: "'s str_off_fn \<Rightarrow> name_slot list \<Rightarrow> bnode \<Rightarrow> 's \<Rightarrow> (int \<times> bnode \<times> 's) option" where
  "each_slot fn [] n s = Some (0, n, s)"
| "each_slot fn (sl # sls) n s =
     do {
       off \<leftarrow> get_name n sl;
       (r, off, s) \<leftarrow> fn off s;
       if r \<noteq> 0 then Some (r, put_name n sl off, s) else each_slot fn sls (put_name n sl off) s
     }"

fun each_type :: "'s str_off_fn \<Rightarrow> bnode list \<Rightarrow> 's \<Rightarrow> (int \<times> bnode list \<times> 's) option" where
  "each_type fn [] s = Some (0, [], s)"
| "each_type fn (n # ns) s =
     do {
       (r, n, s) \<leftarrow> each_slot fn (name_slots n) n s;
       if r \<noteq> 0 then Some (r, n # ns, s)
       else map_option (\<lambda>(r, ns, s). (r, n # ns, s)) (each_type fn ns s)
     }"

record line_sec =
  ls_sec_name_off :: u32
  ls_lines :: "(u32 \<times> u32) list"

fun each_line :: "'s str_off_fn \<Rightarrow> (u32 \<times> u32) list \<Rightarrow> 's \<Rightarrow> (int \<times> (u32 \<times> u32) list \<times> 's) option" where
  "each_line fn [] s = Some (0, [], s)"
| "each_line fn (l # ls) s =
     do {
       (r, file_name_off, s) \<leftarrow> fn (fst l) s;
       if r \<noteq> 0 then Some (r, (file_name_off, snd l) # ls, s)
       else
         do {
           (r, line_off, s) \<leftarrow> fn (snd l) s;
           if r \<noteq> 0 then Some (r, (file_name_off, line_off) # ls, s)
           else map_option (\<lambda>(r, ls, s). (r, (file_name_off, line_off) # ls, s)) (each_line fn ls s)
         }
     }"

fun each_sec :: "'s str_off_fn \<Rightarrow> line_sec list \<Rightarrow> 's \<Rightarrow> (int \<times> line_sec list \<times> 's) option" where
  "each_sec fn [] s = Some (0, [], s)"
| "each_sec fn (x # xs) s =
     do {
       (r, off, s) \<leftarrow> fn (ls_sec_name_off x) s;
       let x = x\<lparr>ls_sec_name_off := off\<rparr>;
       if r \<noteq> 0 then Some (r, x # xs, s)
       else
         do {
           (r, ls, s) \<leftarrow> each_line fn (ls_lines x) s;
           let x = x\<lparr>ls_lines := ls\<rparr>;
           if r \<noteq> 0 then Some (r, x # xs, s)
           else map_option (\<lambda>(r, xs, s). (r, x # xs, s)) (each_sec fn xs s)
         }
     }"

text \<open>The types from 1 on, and the line information if there is any.\<close>

definition btf_for_each_str_off ::
  "'s str_off_fn \<Rightarrow> bnode list \<Rightarrow> line_sec list option \<Rightarrow> 's \<Rightarrow>
     (int \<times> bnode list \<times> line_sec list option \<times> 's) option" where
  "btf_for_each_str_off fn ts ext s =
     do {
       (r, rest, s) \<leftarrow> each_type fn (tl ts) s;
       let ts = take 1 ts @ rest;
       if r \<noteq> 0 then Some (r, ts, ext, s)
       else
         (case ext of
            None \<Rightarrow> Some (0, ts, ext, s)
          | Some secs \<Rightarrow> map_option (\<lambda>(r, secs, s). (r, ts, Some secs, s)) (each_sec fn secs s))
     }"

section \<open>The new string section\<close>

text \<open>The index of all strings; \<open>ok\<close> says which reallocations succeed.\<close>

function str_index ::
  "(nat \<Rightarrow> bool) \<Rightarrow> u8 list \<Rightarrow> nat \<Rightarrow> nat \<Rightarrow> btf_str_ptr list \<Rightarrow> (int + btf_str_ptr list) option" where
  "str_index ok buf p cp ptrs =
     (if \<not> p < length buf then Some (Inr ptrs)
      else
        let grow = length ptrs + 1 > cp;
            new_cap = (if grow then cp + max (length ptrs div 2) 16 else cp)
        in if grow \<and> \<not> ok new_cap then Some (Inl (- ENOMEM))
           else
             (case c_strlen buf p of
                None \<Rightarrow> None
              | Some len \<Rightarrow> str_index ok buf (p + len + 1) new_cap
                              (ptrs @ [\<lparr>sp_str = p, sp_new_off = None, sp_used = False\<rparr>])))"
  by pat_completeness auto

termination str_index
  by (relation "measure (\<lambda>(ok, buf, p, cp, ptrs). length buf - p)") auto

declare str_index.simps [simp del]

text \<open>
  The loop over the groups of equal strings: the first group, and what follows it. A group with a used
  string is written once and all its entries get the place.
\<close>

function emit_groups :: "u8 list \<Rightarrow> btf_str_ptr list \<Rightarrow> u8 list \<Rightarrow> btf_str_ptr list \<times> u8 list" where
  "emit_groups buf [] out = ([], out)"
| "emit_groups buf (p # ps) out =
     (let same = (\<lambda>q. c_string buf (sp_str q) = c_string buf (sp_str p));
          grp = p # takeWhile same ps;
          rest = dropWhile same ps
      in if \<exists>q \<in> set grp. sp_used q then
           let grp = map (\<lambda>q. q\<lparr>sp_new_off := Some (of_nat (length out))\<rparr>) grp;
               r = emit_groups buf rest (out @ c_string buf (sp_str p) @ [0])
           in (grp @ fst r, snd r)
         else let r = emit_groups buf rest out in (grp @ fst r, snd r))"
  by pat_completeness auto

termination emit_groups
  by (relation "measure (\<lambda>(buf, ps, out). length ps)") (auto simp: less_Suc_eq_le length_dropWhile_le)

text \<open>
  The result: return code, types, line information and string section. On an error after the section was
  replaced the offsets are partly rewritten.
\<close>

definition btf_dedup_strings ::
  "qsort_fn \<Rightarrow> (nat \<Rightarrow> bool) \<Rightarrow> bool \<Rightarrow> bnode list \<Rightarrow> line_sec list option \<Rightarrow> u8 list \<Rightarrow>
     (int \<times> bnode list \<times> line_sec list option \<times> u8 list) option" where
  "btf_dedup_strings qsort realloc_ok malloc_ok ts ext buf =
     do {
       r \<leftarrow> str_index realloc_ok buf 0 0 [];
       (case r of
          Inl e \<Rightarrow> Some (e, ts, ext, buf)
        | Inr strs \<Rightarrow>
            if \<not> malloc_ok then Some (- ENOMEM, ts, ext, buf)
            else if strs = [] then None
            else
              do {
                let strs = strs[0 := (strs ! 0)\<lparr>sp_used := True\<rparr>];
                (err, ts, ext, strs) \<leftarrow> btf_for_each_str_off btf_str_mark_as_used ts ext strs;
                if err \<noteq> 0 then Some (err, ts, ext, buf)
                else
                  do {
                    let (strs, out) = emit_groups buf (qsort (str_sort_by_content buf) strs) [];
                    let strs = qsort str_sort_by_offset strs;
                    (err, ts, ext, strs) \<leftarrow> btf_for_each_str_off btf_str_remap_offset ts ext strs;
                    Some (err, ts, ext, out)
                  }
              })
     }"

section \<open>Facts on the traversal\<close>

declare each_slot.simps [simp del] each_type.simps [simp del] each_line.simps [simp del] each_sec.simps [simp del]

lemma each_slot_simps [simp]: "each_slot fn [] n s = Some (0, n, s)" "each_type fn [] s = Some (0, [], s)"
  "each_line fn [] s = Some (0, [], s)" "each_sec fn [] s = Some (0, [], s)"
  by (simp_all add: each_slot.simps each_type.simps each_line.simps each_sec.simps)

lemma name_slots_cong: "info (fst a) = info (fst b) \<Longrightarrow> name_slots a = name_slots b"
  using btf_kind_cong [of "fst a" "fst b"] vlen_of_cong [of a b] unfolding name_slots_def Let_def by simp

lemma name_slots_fit:
  assumes "entry_ok n" "sl \<in> set (name_slots n)"
  shows "\<exists>v. get_name n sl = Some v"
proof (cases sl)
  case (NameWord k)
  then have "(btf_kind (fst n) = BTF_KIND_STRUCT \<or> btf_kind (fst n) = BTF_KIND_UNION) \<and> k < 3 * vlen_of n \<or>
      (btf_kind (fst n) = BTF_KIND_ENUM \<or> btf_kind (fst n) = BTF_KIND_FUNC_PROTO) \<and> k < 2 * vlen_of n"
    using assms(2) by (auto simp: name_slots_def Let_def split: if_splits)
  then have "k < length (snd n)"
    using vlen_words [OF assms(1)] by (auto simp: kind_words_simps vlen_of_def)
  then show ?thesis using NameWord by (simp add: word_at_def)
qed simp

lemma name_slots_distinct: "distinct (name_slots n)"
  unfolding name_slots_def Let_def by (auto simp: distinct_map inj_on_def)

lemma get_put_name:
  "get_name n sl \<noteq> None \<Longrightarrow> get_name (put_name n sl v) sl' = (if sl = sl' then Some v else get_name n sl')"
  by (cases sl; cases sl') (auto simp: word_at_def split: if_splits)

lemma put_name_info [simp]: "info (fst (put_name n sl v)) = info (fst n)"
  "size_type (fst (put_name n sl v)) = size_type (fst n)" "length (snd (put_name n sl v)) = length (snd n)"
  by (cases sl; simp)+

text \<open>A type with its names replaced one by one, by related ones.\<close>

definition renamed :: "(u32 \<Rightarrow> u32 \<Rightarrow> bool) \<Rightarrow> bnode \<Rightarrow> bnode \<Rightarrow> bool" where
  "renamed R n n' \<longleftrightarrow> info (fst n') = info (fst n) \<and> size_type (fst n') = size_type (fst n) \<and>
     length (snd n') = length (snd n) \<and>
     (\<forall>sl. if sl \<in> set (name_slots n)
           then \<exists>a b. get_name n sl = Some a \<and> get_name n' sl = Some b \<and> R a b
           else get_name n' sl = get_name n sl)"

definition renamed_sec :: "(u32 \<Rightarrow> u32 \<Rightarrow> bool) \<Rightarrow> line_sec \<Rightarrow> line_sec \<Rightarrow> bool" where
  "renamed_sec R x x' \<longleftrightarrow> R (ls_sec_name_off x) (ls_sec_name_off x') \<and>
     list_all2 (rel_prod R R) (ls_lines x) (ls_lines x')"

definition renamed_ext :: "(u32 \<Rightarrow> u32 \<Rightarrow> bool) \<Rightarrow> line_sec list option \<Rightarrow> line_sec list option \<Rightarrow> bool" where
  "renamed_ext R = rel_option (list_all2 (renamed_sec R))"

text \<open>
  What a traversal has done. The callback, on admissible offsets, keeps an invariant, moves its state along
  \<open>step\<close>, and relates what was there to what it leaves by \<open>Q\<close>, which later steps do not undo.
\<close>

definition good_fn ::
  "'s str_off_fn \<Rightarrow> (u32 \<Rightarrow> bool) \<Rightarrow> ('s \<Rightarrow> bool) \<Rightarrow> ('s \<Rightarrow> 's \<Rightarrow> bool) \<Rightarrow>
     ('s \<Rightarrow> u32 \<Rightarrow> u32 \<Rightarrow> bool) \<Rightarrow> (int \<Rightarrow> bool) \<Rightarrow> bool" where
  "good_fn fn A P step Q E \<longleftrightarrow> reflp step \<and> transp step \<and>
     (\<forall>s s' a b. step s s' \<longrightarrow> Q s a b \<longrightarrow> Q s' a b) \<and>
     (\<forall>off s. A off \<longrightarrow> P s \<longrightarrow> (\<exists>r off' s'. fn off s = Some (r, off', s') \<and> P s' \<and> step s s' \<and>
        (r = 0 \<longrightarrow> Q s' off off') \<and> (r \<noteq> 0 \<longrightarrow> E r)))"

lemma good_fnD:
  assumes "good_fn fn A P step Q E"
  shows "step s s" "step s s' \<Longrightarrow> step s' s'' \<Longrightarrow> step s s''" "step s s' \<Longrightarrow> Q s a b \<Longrightarrow> Q s' a b"
    "A off \<Longrightarrow> P s \<Longrightarrow> \<exists>r off' s'. fn off s = Some (r, off', s') \<and> P s' \<and> step s s' \<and>
      (r = 0 \<longrightarrow> Q s' off off') \<and> (r \<noteq> 0 \<longrightarrow> E r)"
  using assms unfolding good_fn_def by (auto dest: reflpD transpD)

lemma each_slot_good:
  assumes "good_fn fn A P step Q E" "P s" "distinct sls"
    "\<And>sl. sl \<in> set sls \<Longrightarrow> \<exists>v. get_name n sl = Some v \<and> A v"
  shows "\<exists>r n' s'. each_slot fn sls n s = Some (r, n', s') \<and> P s' \<and> step s s' \<and>
    (r = 0 \<longrightarrow> info (fst n') = info (fst n) \<and> size_type (fst n') = size_type (fst n) \<and>
       length (snd n') = length (snd n) \<and>
       (\<forall>sl. if sl \<in> set sls then \<exists>a b. get_name n sl = Some a \<and> get_name n' sl = Some b \<and> Q s' a b
             else get_name n' sl = get_name n sl)) \<and> (r \<noteq> 0 \<longrightarrow> E r)"
  using assms(2-)
proof (induction sls arbitrary: n s)
  case Nil
  then show ?case using good_fnD(1) [OF assms(1)] by simp
next
  case (Cons sl sls)
  note good = good_fnD [OF assms(1)]
  obtain off where off: "get_name n sl = Some off" "A off" using Cons.prems(3) by fastforce
  obtain r off' s1 where f: "fn off s = Some (r, off', s1)" "P s1" "step s s1" "r = 0 \<longrightarrow> Q s1 off off'" "r \<noteq> 0 \<longrightarrow> E r"
    using good(4) [OF off(2) Cons.prems(1)] by blast
  let ?n = "put_name n sl off'"
  have g: "get_name ?n sl' = (if sl = sl' then Some off' else get_name n sl')" for sl'
    by (rule get_put_name) (simp add: off)
  show ?case
  proof (cases "r = 0")
    case False
    then show ?thesis using off f by (simp add: each_slot.simps)
  next
    case True
    have "\<exists>r n' s'. each_slot fn sls ?n s1 = Some (r, n', s') \<and> P s' \<and> step s1 s' \<and>
      (r = 0 \<longrightarrow> info (fst n') = info (fst ?n) \<and> size_type (fst n') = size_type (fst ?n) \<and>
         length (snd n') = length (snd ?n) \<and>
         (\<forall>sl. if sl \<in> set sls then \<exists>a b. get_name ?n sl = Some a \<and> get_name n' sl = Some b \<and> Q s' a b
               else get_name n' sl = get_name ?n sl)) \<and> (r \<noteq> 0 \<longrightarrow> E r)"
      using Cons.prems g by (intro Cons.IH [OF f(2)]) auto
    then obtain r2 n' s' where ih: "each_slot fn sls ?n s1 = Some (r2, n', s')" "P s'" "step s1 s'"
      "r2 = 0 \<longrightarrow> info (fst n') = info (fst n) \<and> size_type (fst n') = size_type (fst n) \<and>
         length (snd n') = length (snd n) \<and>
         (\<forall>sl. if sl \<in> set sls then \<exists>a b. get_name ?n sl = Some a \<and> get_name n' sl = Some b \<and> Q s' a b
               else get_name n' sl = get_name ?n sl)" "r2 \<noteq> 0 \<longrightarrow> E r2"
      unfolding put_name_info by blast
    have all: "if x \<in> set (sl # sls) then \<exists>a b. get_name n x = Some a \<and> get_name n' x = Some b \<and> Q s' a b
          else get_name n' x = get_name n x" if "r2 = 0" for x
    proof (cases "x = sl")
      case x: True
      then have "get_name n' x = Some off'"
        using ih(4) that g [of x] Cons.prems(2) by (auto split: if_splits dest!: spec [of _ x])
      then show ?thesis using x off f(4) True good(3) [OF ih(3)] by auto
    next
      case False
      then show ?thesis using ih(4) that g [of x] by (auto dest!: spec [of _ x])
    qed
    have "each_slot fn (sl # sls) n s = Some (r2, n', s')"
      using off f(1) True ih(1) by (simp add: each_slot.simps)
    then show ?thesis using ih(2,4,5) good(2) [OF f(3) ih(3)] all by blast
  qed
qed

lemma renamed_mono: "renamed R n n' \<Longrightarrow> (\<And>a b. R a b \<Longrightarrow> R' a b) \<Longrightarrow> renamed R' n n'"
  unfolding renamed_def by (metis (no_types, lifting))

definition all_names :: "(u32 \<Rightarrow> bool) \<Rightarrow> bnode \<Rightarrow> bool" where
  "all_names A n \<longleftrightarrow> (\<forall>sl \<in> set (name_slots n). \<exists>v. get_name n sl = Some v \<and> A v)"

definition all_sec :: "(u32 \<Rightarrow> bool) \<Rightarrow> line_sec \<Rightarrow> bool" where
  "all_sec A x \<longleftrightarrow> A (ls_sec_name_off x) \<and> (\<forall>l \<in> set (ls_lines x). A (fst l) \<and> A (snd l))"

definition all_ext :: "(u32 \<Rightarrow> bool) \<Rightarrow> line_sec list option \<Rightarrow> bool" where
  "all_ext A ext = pred_option (\<lambda>xs. \<forall>x \<in> set xs. all_sec A x) ext"

lemma each_type_good:
  assumes "good_fn fn A P step Q E" "P s" "\<forall>n \<in> set ns. all_names A n"
  shows "\<exists>r ns' s'. each_type fn ns s = Some (r, ns', s') \<and> P s' \<and> step s s' \<and>
    (r = 0 \<longrightarrow> list_all2 (renamed (Q s')) ns ns') \<and> (r \<noteq> 0 \<longrightarrow> E r)"
  using assms(2-)
proof (induction ns arbitrary: s)
  case Nil
  then show ?case using good_fnD(1) [OF assms(1)] by simp
next
  case (Cons n ns)
  have fit: "\<exists>v. get_name n sl = Some v \<and> A v" if "sl \<in> set (name_slots n)" for sl
    using Cons.prems(2) that by (simp add: all_names_def)
  obtain r n' s1 where n: "each_slot fn (name_slots n) n s = Some (r, n', s1)" "P s1" "step s s1"
    "r = 0 \<longrightarrow> renamed (Q s1) n n'" "r \<noteq> 0 \<longrightarrow> E r"
    using each_slot_good [OF assms(1) Cons.prems(1) name_slots_distinct fit] unfolding renamed_def by blast
  show ?case
  proof (cases "r = 0")
    case False
    then show ?thesis using n by (simp add: each_type.simps)
  next
    case True
    obtain r2 ns' s' where ih: "each_type fn ns s1 = Some (r2, ns', s')" "P s'" "step s1 s'"
      "r2 = 0 \<longrightarrow> list_all2 (renamed (Q s')) ns ns'" "r2 \<noteq> 0 \<longrightarrow> E r2"
      using Cons.IH [OF n(2)] Cons.prems(2) by auto
    have "renamed (Q s') n n'"
      using n(4) True renamed_mono good_fnD(3) [OF assms(1) ih(3)] by blast
    then show ?thesis using n(1) True ih good_fnD(2) [OF assms(1) n(3) ih(3)] by (simp add: each_type.simps)
  qed
qed

lemma each_line_good:
  assumes "good_fn fn A P step Q E" "P s" "\<forall>l \<in> set ls. A (fst l) \<and> A (snd l)"
  shows "\<exists>r ls' s'. each_line fn ls s = Some (r, ls', s') \<and> P s' \<and> step s s' \<and>
    (r = 0 \<longrightarrow> list_all2 (rel_prod (Q s') (Q s')) ls ls') \<and> (r \<noteq> 0 \<longrightarrow> E r)"
  using assms(2-)
proof (induction ls arbitrary: s)
  case Nil
  then show ?case using good_fnD(1) [OF assms(1)] by simp
next
  case (Cons l ls)
  note good = good_fnD [OF assms(1)]
  have adm: "A (fst l)" "A (snd l)" "\<forall>l \<in> set ls. A (fst l) \<and> A (snd l)" using Cons.prems(2) by simp_all
  obtain r a s1 where a: "fn (fst l) s = Some (r, a, s1)" "P s1" "step s s1" "r = 0 \<longrightarrow> Q s1 (fst l) a"
    "r \<noteq> 0 \<longrightarrow> E r"
    using good(4) [OF adm(1) Cons.prems(1)] by blast
  obtain r2 b s2 where b: "fn (snd l) s1 = Some (r2, b, s2)" "P s2" "step s1 s2" "r2 = 0 \<longrightarrow> Q s2 (snd l) b"
    "r2 \<noteq> 0 \<longrightarrow> E r2"
    using good(4) [OF adm(2) a(2)] by blast
  obtain r3 ls' s' where ih: "each_line fn ls s2 = Some (r3, ls', s')" "P s'" "step s2 s'"
    "r3 = 0 \<longrightarrow> list_all2 (rel_prod (Q s') (Q s')) ls ls'" "r3 \<noteq> 0 \<longrightarrow> E r3"
    using Cons.IH [OF b(2) adm(3)] by blast
  note st = good(2) [OF a(3) b(3)]
  have "rel_prod (Q s') (Q s') l (a, b)" if "r = 0" "r2 = 0"
    using a(4) b(4) that good(3) [OF good(2) [OF b(3) ih(3)]] good(3) [OF ih(3)]
    by (cases l) simp
  then show ?case
    using a b ih st good(2) [OF st ih(3)]
    by (cases "r = 0"; cases "r2 = 0") (simp_all add: each_line.simps)
qed

lemma each_sec_good:
  assumes "good_fn fn A P step Q E" "P s" "\<forall>x \<in> set xs. all_sec A x"
  shows "\<exists>r xs' s'. each_sec fn xs s = Some (r, xs', s') \<and> P s' \<and> step s s' \<and>
    (r = 0 \<longrightarrow> list_all2 (renamed_sec (Q s')) xs xs') \<and> (r \<noteq> 0 \<longrightarrow> E r)"
  using assms(2-)
proof (induction xs arbitrary: s)
  case Nil
  then show ?case using good_fnD(1) [OF assms(1)] by simp
next
  case (Cons x xs)
  note good = good_fnD [OF assms(1)]
  obtain r a s1 where a: "fn (ls_sec_name_off x) s = Some (r, a, s1)" "P s1" "step s s1"
    "r = 0 \<longrightarrow> Q s1 (ls_sec_name_off x) a" "r \<noteq> 0 \<longrightarrow> E r"
    using good(4) [OF _ Cons.prems(1)] Cons.prems(2) unfolding all_sec_def by (metis list.set_intros(1))
  obtain r2 ls s2 where b: "each_line fn (ls_lines x) s1 = Some (r2, ls, s2)" "P s2" "step s1 s2"
    "r2 = 0 \<longrightarrow> list_all2 (rel_prod (Q s2) (Q s2)) (ls_lines x) ls" "r2 \<noteq> 0 \<longrightarrow> E r2"
    using each_line_good [OF assms(1) a(2), of "ls_lines x"] Cons.prems(2) by (auto simp: all_sec_def)
  obtain r3 xs' s' where ih: "each_sec fn xs s2 = Some (r3, xs', s')" "P s'" "step s2 s'"
    "r3 = 0 \<longrightarrow> list_all2 (renamed_sec (Q s')) xs xs'" "r3 \<noteq> 0 \<longrightarrow> E r3"
    using Cons.IH [OF b(2)] Cons.prems(2) by auto
  note st = good(2) [OF a(3) b(3)]
  have "list_all2 (rel_prod (Q s') (Q s')) (ls_lines x) ls" if "r2 = 0"
    by (rule list_all2_mono [OF b(4) [rule_format, OF that]])
       (auto elim!: rel_prod.cases intro: good(3) [OF ih(3)])
  then have "renamed_sec (Q s') x (x\<lparr>ls_sec_name_off := a, ls_lines := ls\<rparr>)" if "r = 0" "r2 = 0"
    using a(4) that good(3) [OF good(2) [OF b(3) ih(3)]] by (simp add: renamed_sec_def)
  then show ?case
    using a b ih st good(2) [OF st ih(3)]
    by (cases "r = 0"; cases "r2 = 0") (simp_all add: each_sec.simps)
qed

lemma for_each_good:
  assumes "good_fn fn A P step Q E" "P s" "\<forall>n \<in> set (tl ts). all_names A n" "all_ext A ext" "ts \<noteq> []"
  shows "\<exists>r ts' ext' s'. btf_for_each_str_off fn ts ext s = Some (r, ts', ext', s') \<and> P s' \<and> step s s' \<and>
    (r = 0 \<longrightarrow> hd ts' = hd ts \<and> length ts' = length ts \<and> list_all2 (renamed (Q s')) (tl ts) (tl ts') \<and>
       renamed_ext (Q s') ext ext') \<and> (r \<noteq> 0 \<longrightarrow> E r)"
proof -
  note good = good_fnD [OF assms(1)]
  obtain t rest where ts: "ts = t # rest" using assms(5) by (cases ts) auto
  obtain r ns s1 where a: "each_type fn rest s = Some (r, ns, s1)" "P s1" "step s s1"
    "r = 0 \<longrightarrow> list_all2 (renamed (Q s1)) rest ns" "r \<noteq> 0 \<longrightarrow> E r"
    using each_type_good [OF assms(1,2), of rest] assms(3) ts by auto
  show ?thesis
  proof (cases "r \<noteq> 0 \<or> ext = None")
    case True
    then show ?thesis using a
      by (cases "r = 0") (auto simp: btf_for_each_str_off_def ts renamed_ext_def list_all2_lengthD)
  next
    case False
    then obtain secs where e: "ext = Some secs" "r = 0" by auto
    obtain r2 xs s2 where b: "each_sec fn secs s1 = Some (r2, xs, s2)" "P s2" "step s1 s2"
      "r2 = 0 \<longrightarrow> list_all2 (renamed_sec (Q s2)) secs xs" "r2 \<noteq> 0 \<longrightarrow> E r2"
      using each_sec_good [OF assms(1) a(2), of secs] assms(4) e(1) by (auto simp: all_ext_def)
    have "list_all2 (renamed (Q s2)) rest ns"
      using a(4) e(2) by (auto elim!: list_all2_mono intro: renamed_mono good(3) [OF b(3)])
    then show ?thesis
      using a(1) b e good(2) [OF a(3) b(3)]
      by (simp add: btf_for_each_str_off_def ts renamed_ext_def list_all2_lengthD)
  qed
qed

section \<open>The index\<close>

lemma c_string_split:
  assumes "p < length buf" "last buf = 0"
  shows "c_strlen buf p = Some (length (c_string buf p))"
    "drop p buf = c_string buf p @ 0 # drop (p + length (c_string buf p) + 1) buf"
proof -
  have "last (drop p buf) = 0" "drop p buf \<noteq> []" using assms by simp_all
  then have ex: "\<exists>x \<in> set (drop p buf). \<not> x \<noteq> 0" using last_in_set by metis
  then have "takeWhile (\<lambda>c. c \<noteq> 0) (drop p buf) \<noteq> drop p buf" by (metis set_takeWhileD)
  then have "dropWhile (\<lambda>c. c \<noteq> 0) (drop p buf) \<noteq> []" by (metis append_Nil2 takeWhile_dropWhile_id)
  then obtain x r where d: "dropWhile (\<lambda>c. c \<noteq> 0) (drop p buf) = x # r" by (metis neq_Nil_conv)
  then have x: "x = 0" using hd_dropWhile [of "\<lambda>c. c \<noteq> 0" "drop p buf"] by simp
  have split: "drop p buf = c_string buf p @ 0 # r"
    using takeWhile_dropWhile_id [of "\<lambda>c. c \<noteq> 0" "drop p buf"] d x by (simp add: c_string_def)
  have "r = drop (length (c_string buf p) + 1) (drop p buf)" unfolding split by simp
  then have "r = drop (p + length (c_string buf p) + 1) buf" unfolding drop_drop by (simp add: ac_simps)
  then show "drop p buf = c_string buf p @ 0 # drop (p + length (c_string buf p) + 1) buf"
    using split by simp
  show "c_strlen buf p = Some (length (c_string buf p))"
    using arg_cong [OF split, of length] assms(1) by (simp add: c_strlen_def)
qed

lemma c_string_no_zero: "0 \<notin> set (c_string buf p)"
  unfolding c_string_def by (auto dest: set_takeWhileD)

lemma str_index_done:
  assumes "last buf = 0" "p \<le> length buf"
  shows "\<exists>r. str_index ok buf p cp ptrs = Some r \<and> (case r of Inl e \<Rightarrow> e = - ENOMEM
    | Inr xs \<Rightarrow> \<exists>ys. xs = ptrs @ ys \<and> distinct (map sp_str ys) \<and>
        (\<forall>q \<in> set ys. p \<le> sp_str q \<and> sp_str q < length buf) \<and>
        concat (map (\<lambda>q. c_string buf (sp_str q) @ [0]) ys) = drop p buf \<and>
        (p < length buf \<longrightarrow> ys \<noteq> [] \<and> sp_str (hd ys) = p))"
  using assms
proof (induction ok buf p cp ptrs rule: str_index.induct)
  case (1 ok buf p cp ptrs)
  show ?case
  proof (cases "p < length buf")
    case False
    then show ?thesis by (subst str_index.simps) simp
  next
    case True
    let ?grow = "length ptrs + 1 > cp"
    let ?cap = "if ?grow then cp + max (length ptrs div 2) 16 else cp"
    show ?thesis
    proof (cases "?grow \<and> \<not> ok ?cap")
      case fail: True
      then have "\<not> ok (cp + max (length ptrs div 2) 16)" by (auto split: if_splits)
      then show ?thesis using True fail by (subst str_index.simps) (simp add: Let_def)
    next
      case False
      note c = c_string_split [OF True "1.prems"(1)]
      let ?l = "length (c_string buf p)" and ?q = "\<lparr>sp_str = p, sp_new_off = None, sp_used = False\<rparr>"
      have le: "p + ?l + 1 \<le> length buf" using arg_cong [OF c(2), of length] True by simp
      have run: "str_index ok buf p cp ptrs = str_index ok buf (p + ?l + 1) ?cap (ptrs @ [?q])"
        using True False c(1) by (subst str_index.simps) (simp add: Let_def)
      obtain r where r: "str_index ok buf (p + ?l + 1) ?cap (ptrs @ [?q]) = Some r"
        "case r of Inl e \<Rightarrow> e = - ENOMEM
         | Inr xs \<Rightarrow> \<exists>ys. xs = (ptrs @ [?q]) @ ys \<and> distinct (map sp_str ys) \<and>
             (\<forall>q \<in> set ys. p + ?l + 1 \<le> sp_str q \<and> sp_str q < length buf) \<and>
             concat (map (\<lambda>q. c_string buf (sp_str q) @ [0]) ys) = drop (p + ?l + 1) buf \<and>
             (p + ?l + 1 < length buf \<longrightarrow> ys \<noteq> [] \<and> sp_str (hd ys) = p + ?l + 1)"
        using "1.IH" [OF _ refl refl _ c(1) "1.prems"(1) le] True False by auto
      show ?thesis
      proof (cases r)
        case (Inl e)
        then show ?thesis using run r by simp
      next
        case (Inr xs)
        then obtain ys where ys: "xs = (ptrs @ [?q]) @ ys" "distinct (map sp_str ys)"
          "\<forall>q \<in> set ys. p + ?l + 1 \<le> sp_str q \<and> sp_str q < length buf"
          "concat (map (\<lambda>q. c_string buf (sp_str q) @ [0]) ys) = drop (p + ?l + 1) buf"
          using r(2) by auto
        have "p \<notin> set (map sp_str ys)" using ys(3) by auto
        then show ?thesis
          using run r(1) Inr ys c(2) True by (auto intro!: exI [of _ "?q # ys"])
      qed
    qed
  qed
qed

section \<open>Marking and sorting\<close>

lemma find_Some: "str_ptr_find off ps = Some i \<Longrightarrow> i < length ps \<and> sp_str (ps ! i) = off"
  by (induction ps arbitrary: i) (auto split: if_splits)

lemma find_None: "str_ptr_find off ps = None \<longleftrightarrow> (\<forall>q \<in> set ps. sp_str q \<noteq> off)"
  by (induction ps) auto

definition same_ptr :: "btf_str_ptr \<Rightarrow> btf_str_ptr \<Rightarrow> bool" where
  "same_ptr q q' \<longleftrightarrow> sp_str q' = sp_str q \<and> sp_new_off q' = sp_new_off q \<and> (sp_used q \<longrightarrow> sp_used q')"

definition referenced :: "btf_str_ptr list \<Rightarrow> u32 \<Rightarrow> bool" where
  "referenced strs off \<longleftrightarrow> off = 0 \<or> (\<exists>q \<in> set strs. sp_str q = unat off \<and> sp_used q)"

lemma referenced_step:
  assumes "list_all2 same_ptr strs strs'" "referenced strs off"
  shows "referenced strs' off"
proof (cases "off = 0")
  case False
  then obtain i where "i < length strs" "sp_str (strs ! i) = unat off" "sp_used (strs ! i)"
    using assms(2) by (auto simp: referenced_def in_set_conv_nth)
  then have "i < length strs'" "sp_str (strs' ! i) = unat off" "sp_used (strs' ! i)"
    using assms(1) by (auto simp: list_all2_conv_all_nth same_ptr_def)
  then show ?thesis unfolding referenced_def using nth_mem by blast
qed (simp add: referenced_def)

lemma mark_good:
  "good_fn btf_str_mark_as_used (\<lambda>off. unat off \<in> offs) (\<lambda>strs. \<forall>q \<in> set strs. sp_used q \<longrightarrow> sp_str q \<in> offs)
     (list_all2 same_ptr) (\<lambda>strs a b. b = a \<and> referenced strs a) (\<lambda>r. r = - EINVAL)"
  unfolding good_fn_def
proof (intro conjI allI impI)
  have "same_ptr q q" for q by (simp add: same_ptr_def)
  then show "reflp (list_all2 same_ptr)" by (auto intro: reflpI list_all2_refl)
  have "same_ptr q q' \<Longrightarrow> same_ptr q' q'' \<Longrightarrow> same_ptr q q''" for q q' q'' by (simp add: same_ptr_def)
  then show "transp (list_all2 same_ptr)" by (auto intro!: transpI elim: list_all2_trans [rotated])
next
  fix off :: u32 and strs :: "btf_str_ptr list"
  assume adm: "unat off \<in> offs" and inv: "\<forall>q \<in> set strs. sp_used q \<longrightarrow> sp_str q \<in> offs"
  show "\<exists>r off' s'. btf_str_mark_as_used off strs = Some (r, off', s') \<and>
    (\<forall>q \<in> set s'. sp_used q \<longrightarrow> sp_str q \<in> offs) \<and> list_all2 same_ptr strs s' \<and>
    (r = 0 \<longrightarrow> off' = off \<and> referenced s' off) \<and> (r \<noteq> 0 \<longrightarrow> r = - EINVAL)"
  proof (cases "off = 0 \<or> str_ptr_find (unat off) strs = None")
    case True
    have "list_all2 same_ptr strs strs" by (simp add: list_all2_conv_all_nth same_ptr_def)
    then show ?thesis using True inv by (auto simp: btf_str_mark_as_used_def referenced_def)
  next
    case False
    then obtain i where i: "str_ptr_find (unat off) strs = Some i" by auto
    note f = find_Some [OF i]
    let ?q = "(strs ! i)\<lparr>sp_used := True\<rparr>"
    let ?s = "strs[i := ?q]"
    have "list_all2 same_ptr strs ?s" using f
      by (auto simp: list_all2_conv_all_nth same_ptr_def nth_list_update)
    moreover have "?q \<in> set ?s" using f by (simp add: set_update_memI)
    then have "referenced ?s off" unfolding referenced_def by (intro disjI2 bexI [of _ ?q]) (simp_all add: f)
    moreover have "\<forall>q \<in> set ?s. sp_used q \<longrightarrow> sp_str q \<in> offs"
      using inv adm f by (auto dest!: set_update_subset_insert [THEN subsetD])
    ultimately show ?thesis using i False by (simp add: btf_str_mark_as_used_def)
  qed
qed (use referenced_step in auto)

text \<open>The marking changes no offset, whether it ends well or not.\<close>

lemma put_name_same: "get_name n sl = Some v \<Longrightarrow> put_name n sl v = n"
  by (cases sl) (auto simp: word_at_def split: if_splits)

definition keeps :: "'s str_off_fn \<Rightarrow> bool" where
  "keeps fn \<longleftrightarrow> (\<forall>v s r v' s'. fn v s = Some (r, v', s') \<longrightarrow> v' = v)"

lemma keepsD: "keeps fn \<Longrightarrow> fn v s = Some (r, v', s') \<Longrightarrow> v' = v"
  unfolding keeps_def by blast

lemma each_slot_keep:
  assumes "keeps fn"
  shows "each_slot fn sls n s = Some (r, n', s') \<Longrightarrow> n' = n"
  by (induction sls arbitrary: s)
     (auto simp: each_slot.simps put_name_same split: Option.bind_split_asm if_splits
       dest!: keepsD [OF assms])

lemma each_type_keep:
  assumes "keeps fn"
  shows "each_type fn ns s = Some (r, ns', s') \<Longrightarrow> ns' = ns"
  by (induction ns arbitrary: s r ns' s')
     (auto simp: each_type.simps split: Option.bind_split_asm if_splits dest!: each_slot_keep [OF assms])

lemma each_line_keep:
  assumes "keeps fn"
  shows "each_line fn ls s = Some (r, ls', s') \<Longrightarrow> ls' = ls"
  by (induction ls arbitrary: s r ls' s')
     (auto simp: each_line.simps split: Option.bind_split_asm if_splits dest!: keepsD [OF assms])

lemma each_sec_keep:
  assumes "keeps fn"
  shows "each_sec fn xs s = Some (r, xs', s') \<Longrightarrow> xs' = xs"
  by (induction xs arbitrary: s r xs' s')
     (auto simp: each_sec.simps Let_def split: Option.bind_split_asm if_splits
       dest!: keepsD [OF assms] each_line_keep [OF assms])

lemma mark_keeps: "keeps btf_str_mark_as_used"
  by (auto simp: keeps_def btf_str_mark_as_used_def split: if_splits option.splits)

lemma for_each_mark_keep:
  assumes "btf_for_each_str_off btf_str_mark_as_used ts ext s = Some (r, ts', ext', s')" "ts \<noteq> []"
  shows "ts' = ts \<and> ext' = ext"
proof -
  have "take 1 ts @ tl ts = ts" using assms(2) by (cases ts) simp_all
  then show ?thesis using assms(1)
    by (auto simp: btf_for_each_str_off_def Let_def split: Option.bind_split_asm if_splits option.splits
        dest!: each_type_keep [OF mark_keeps] each_sec_keep [OF mark_keeps])
qed

text \<open>The order of \<open>strcmp\<close>.\<close>

lemma c_strcmp_refl: "c_strcmp a b = 0 \<longleftrightarrow> a = b"
  by (induction a b rule: c_strcmp.induct) auto

lemma c_strcmp_trans:
  "c_strcmp a b \<le> 0 \<Longrightarrow> c_strcmp b c \<le> 0 \<Longrightarrow> c_strcmp a c \<le> 0 \<and> (c_strcmp a c = 0 \<longrightarrow> a = b)"
proof (induction a b arbitrary: c rule: c_strcmp.induct)
  case 1
  then show ?case by simp
next
  case (2 b bs)
  then show ?case by (cases c) auto
next
  case (3 a as)
  then show ?case by simp
next
  case (4 a as b bs)
  then show ?case by (cases c) (auto split: if_splits)
qed

lemma c_strcmp_less:
  assumes "c_strcmp a b < 0" "c_strcmp b c \<le> 0"
  shows "c_strcmp a c < 0"
  using c_strcmp_trans [of a b c] assms c_strcmp_refl [of a b] by (cases "c_strcmp a c = 0") auto

lemma c_strcmp_Nil: "c_strcmp [] b \<le> 0"
  by (cases b) simp_all

section \<open>Writing the groups\<close>

lemma c_string_at:
  assumes "0 \<notin> set s"
  shows "c_string (out @ s @ 0 # r) (length out) = s"
proof -
  have "takeWhile (\<lambda>c. c \<noteq> 0) (s @ 0 # r) = s"
    using assms by (subst takeWhile_append2) auto
  then show ?thesis by (simp add: c_string_def)
qed

abbreviation (input) content :: "u8 list \<Rightarrow> btf_str_ptr \<Rightarrow> u8 list" where
  "content buf q \<equiv> c_string buf (sp_str q)"

definition placed :: "u8 list \<Rightarrow> u8 list \<Rightarrow> btf_str_ptr \<Rightarrow> bool" where
  "placed buf out q \<longleftrightarrow>
     (\<exists>o'. sp_new_off q = Some o' \<and> unat o' < length out \<and> c_string out (unat o') = content buf q)"

declare emit_groups.simps [simp del]

definition emitted ::
  "u8 list \<Rightarrow> btf_str_ptr list \<Rightarrow> u8 list \<Rightarrow> btf_str_ptr list \<Rightarrow> u8 list \<Rightarrow> bool" where
  "emitted buf ps out ps' out' \<longleftrightarrow> map sp_str ps' = map sp_str ps \<and> map sp_used ps' = map sp_used ps \<and>
    (\<exists>ss. out' = out @ concat (map (\<lambda>s. s @ [0]) ss) \<and> sorted_wrt (\<lambda>a b. c_strcmp a b < 0) ss \<and>
       set ss = content buf ` {q \<in> set ps. sp_used q}) \<and>
    length out' \<le> length out + length (concat (map (\<lambda>q. content buf q @ [0]) ps)) \<and>
    (length out' \<le> 2 ^ 32 \<longrightarrow> (\<forall>q \<in> set ps'. sp_used q \<longrightarrow> placed buf out' q))"

lemma emit_groups_done:
  assumes "sorted_wrt (\<lambda>p q. c_strcmp (content buf p) (content buf q) \<le> 0) ps"
  shows "emitted buf ps out (fst (emit_groups buf ps out)) (snd (emit_groups buf ps out))"
  using assms
proof (induction buf ps out rule: emit_groups.induct)
  case (1 buf out)
  then show ?case by (simp add: emit_groups.simps emitted_def)
next
  case (2 buf p ps out)
  let ?same = "\<lambda>q. content buf q = content buf p"
  let ?grp = "p # takeWhile ?same ps" and ?rest = "dropWhile ?same ps"
  have sorted: "\<forall>q \<in> set ps. c_strcmp (content buf p) (content buf q) \<le> 0"
    "sorted_wrt (\<lambda>p q. c_strcmp (content buf p) (content buf q) \<le> 0) ps" using "2.prems" by simp_all
  have grp: "content buf q = content buf p" if "q \<in> set ?grp" for q
    using that by (auto dest: set_takeWhileD)
  have ps: "ps = takeWhile ?same ps @ ?rest" by simp
  have srest: "sorted_wrt (\<lambda>p q. c_strcmp (content buf p) (content buf q) \<le> 0) ?rest"
  proof -
    have "sorted_wrt (\<lambda>p q. c_strcmp (content buf p) (content buf q) \<le> 0) (takeWhile ?same ps @ ?rest)"
      using sorted(2) by simp
    then show ?thesis unfolding sorted_wrt_append by blast
  qed
  have less: "c_strcmp (content buf p) (content buf q) < 0" if q: "q \<in> set ?rest" for q
  proof -
    obtain x xs where x: "?rest = x # xs" using q by (cases ?rest) auto
    then have "content buf x \<noteq> content buf p" using hd_dropWhile [of ?same ps] by simp
    moreover have "x \<in> set ps" using x by (metis list.set_intros(1) set_dropWhileD)
    ultimately have px: "c_strcmp (content buf p) (content buf x) < 0"
      using sorted(1) c_strcmp_refl [of "content buf p" "content buf x"] by fastforce
    have "c_strcmp (content buf x) (content buf q) \<le> 0"
      using srest q c_strcmp_refl [of "content buf x" "content buf x"] unfolding x by auto
    then show ?thesis using c_strcmp_less [OF px] by simp
  qed
  have other: "content buf q \<noteq> content buf p" if "q \<in> set ?rest" for q
    using less [OF that] c_strcmp_refl [of "content buf p" "content buf q"] by auto
  have concat_split: "length (concat (map (\<lambda>q. content buf q @ [0]) (p # ps))) \<ge>
      length (content buf p) + 1 + length (concat (map (\<lambda>q. content buf q @ [0]) ?rest))"
  proof -
    have "concat (map (\<lambda>q. content buf q @ [0]) (takeWhile ?same ps)) @
        concat (map (\<lambda>q. content buf q @ [0]) ?rest) = concat (map (\<lambda>q. content buf q @ [0]) ps)"
      by (simp flip: concat_append map_append)
    from arg_cong [OF this, of length] show ?thesis by (simp del: length_concat)
  qed
  have used_split: "content buf ` {q \<in> set (p # ps). sp_used q} =
      (if \<exists>q \<in> set ?grp. sp_used q then {content buf p} else {}) \<union> content buf ` {q \<in> set ?rest. sp_used q}"
  proof -
    have "set (takeWhile ?same ps) \<union> set ?rest = set ps"
      by (simp only: set_append [symmetric] takeWhile_dropWhile_id)
    then have "set (p # ps) = set ?grp \<union> set ?rest" by auto
    then have split: "{q \<in> set (p # ps). sp_used q} = {q \<in> set ?grp. sp_used q} \<union> {q \<in> set ?rest. sp_used q}" by blast
    have "content buf ` {q \<in> set ?grp. sp_used q} =
        (\<lambda>_. content buf p) ` {q \<in> set ?grp. sp_used q}"
      by (rule image_cong [OF refl]) (use grp in blast)
    then have "content buf ` {q \<in> set ?grp. sp_used q} =
        (if \<exists>q \<in> set ?grp. sp_used q then {content buf p} else {})"
      by (simp only: image_constant_conv) auto
    then show ?thesis by (simp only: split image_Un)
  qed
  have fields: "map f (p # ps) = map f ?grp @ map f ?rest" for f :: "btf_str_ptr \<Rightarrow> 'z"
    by (simp flip: map_append)
  show ?case
  proof (cases "\<exists>q \<in> set ?grp. sp_used q")
    case False
    let ?r = "emit_groups buf ?rest out"
    have run: "emit_groups buf (p # ps) out = (?grp @ fst ?r, snd ?r)"
      using False by (simp only: emit_groups.simps(2) Let_def if_False)
    have ih: "emitted buf ?rest out (fst ?r) (snd ?r)" by (rule "2.IH"(2) [OF refl refl refl False srest])
    have us: "content buf ` {q \<in> set (p # ps). sp_used q} = content buf ` {q \<in> set ?rest. sp_used q}"
      using used_split False by simp
    show ?thesis
      unfolding run fst_conv snd_conv emitted_def us
      using ih [unfolded emitted_def] concat_split False fields [of sp_str] fields [of sp_used]
      by (intro conjI) auto
  next
    case True
    let ?s = "content buf p"
    let ?out = "out @ ?s @ [0]" and ?upd = "\<lambda>q. q\<lparr>sp_new_off := Some (of_nat (length out))\<rparr>"
    let ?r = "emit_groups buf ?rest ?out"
    have run: "emit_groups buf (p # ps) out = (map ?upd ?grp @ fst ?r, snd ?r)"
      using True by (simp only: emit_groups.simps(2) Let_def if_True)
    have ih: "emitted buf ?rest ?out (fst ?r) (snd ?r)" by (rule "2.IH"(1) [OF refl refl refl True refl srest])
    obtain ss where ss: "snd ?r = ?out @ concat (map (\<lambda>s. s @ [0]) ss)"
      "sorted_wrt (\<lambda>a b. c_strcmp a b < 0) ss" "set ss = content buf ` {q \<in> set ?rest. sp_used q}"
      using ih unfolding emitted_def by blast
    have front: "snd ?r = out @ concat (map (\<lambda>s. s @ [0]) (?s # ss))" using ss(1) by simp
    have us: "content buf ` {q \<in> set (p # ps). sp_used q} = set (?s # ss)"
      using used_split True ss(3) by simp
    have "sorted_wrt (\<lambda>a b. c_strcmp a b < 0) (?s # ss)" using ss(2,3) less by auto
    moreover have "placed buf (snd ?r) (?upd q)" if "q \<in> set ?grp" "length (snd ?r) \<le> 2 ^ 32" for q
    proof -
      have "length out < length (snd ?r)" using front by simp
      then have u: "unat (of_nat (length out) :: u32) = length out"
        using that(2) by (intro unat_of_nat_small) simp
      have "c_string (snd ?r) (length out) = ?s"
        using c_string_at [OF c_string_no_zero, of out buf "sp_str p" "concat (map (\<lambda>s. s @ [0]) ss)"] front
        by simp
      then show ?thesis
        using u grp [OF that(1)] \<open>length out < length (snd ?r)\<close> unfolding placed_def by simp
    qed
    moreover have "map sp_str (map ?upd ?grp) = map sp_str ?grp" "map sp_used (map ?upd ?grp) = map sp_used ?grp"
      by (simp_all add: comp_def)
    ultimately show ?thesis
      unfolding run fst_conv snd_conv emitted_def us
      using ih [unfolded emitted_def] concat_split fields [of sp_str] fields [of sp_used] front
      by (intro conjI exI [of _ "?s # ss"]) auto
  qed
qed

section \<open>Rewriting the offsets\<close>

definition same_text :: "u8 list \<Rightarrow> u8 list \<Rightarrow> u32 \<Rightarrow> u32 \<Rightarrow> bool" where
  "same_text buf out a b \<longleftrightarrow> unat b < length out \<and> c_string out (unat b) = c_string buf (unat a)"

lemma remap_good:
  assumes "distinct (map sp_str strs)" "\<forall>q \<in> set strs. sp_used q \<longrightarrow> placed buf out q"
    "out \<noteq> []" "c_string out 0 = c_string buf 0"
  shows "good_fn btf_str_remap_offset (referenced strs) (\<lambda>s. s = strs) (=) (\<lambda>_. same_text buf out) (\<lambda>_. False)"
  unfolding good_fn_def
proof (intro conjI allI impI)
  fix off s assume ref: "referenced strs off" and s: "s = strs"
  show "\<exists>r off' s'. btf_str_remap_offset off s = Some (r, off', s') \<and> s' = strs \<and> s = s' \<and>
    (r = 0 \<longrightarrow> same_text buf out off off') \<and> (r \<noteq> 0 \<longrightarrow> False)"
  proof (cases "off = 0")
    case True
    then show ?thesis using s assms(3,4) by (simp add: btf_str_remap_offset_def same_text_def)
  next
    case False
    then obtain q where q: "q \<in> set strs" "sp_str q = unat off" "sp_used q"
      using ref by (auto simp: referenced_def)
    then obtain i where i: "str_ptr_find (unat off) strs = Some i"
      using find_None [of "unat off" strs] by (cases "str_ptr_find (unat off) strs") auto
    note f = find_Some [OF i]
    have "strs ! i = q" using f q assms(1) by (metis in_set_conv_nth length_map nth_eq_iff_index_eq nth_map)
    then have "placed buf out (strs ! i)" using q assms(2) by simp
    then show ?thesis using s False i f
      by (auto simp: placed_def btf_str_remap_offset_def same_text_def)
  qed
qed (auto intro: reflpI transpI)

text \<open>All offsets of the types and of the line information.\<close>

definition type_offs :: "bnode \<Rightarrow> u32 list" where
  "type_offs n = List.map_filter (get_name n) (name_slots n)"

definition sec_offs :: "line_sec \<Rightarrow> u32 list" where
  "sec_offs x = ls_sec_name_off x # concat (map (\<lambda>l. [fst l, snd l]) (ls_lines x))"

definition str_offs :: "bnode list \<Rightarrow> line_sec list option \<Rightarrow> u32 list" where
  "str_offs ts ext = concat (map type_offs (tl ts)) @
     (case ext of None \<Rightarrow> [] | Some xs \<Rightarrow> concat (map sec_offs xs))"

lemma all_names_iff:
  assumes "entry_ok n"
  shows "all_names A n \<longleftrightarrow> (\<forall>v \<in> set (type_offs n). A v)"
proof -
  have offs: "set (type_offs n) = {v. \<exists>sl \<in> set (name_slots n). get_name n sl = Some v}"
    unfolding type_offs_def by (auto simp: map_filter_def image_iff) (metis option.sel option.distinct(1))
  show ?thesis
  proof
    assume l: "all_names A n"
    show "\<forall>v \<in> set (type_offs n). A v"
    proof
      fix v assume "v \<in> set (type_offs n)"
      then obtain sl where "sl \<in> set (name_slots n)" "get_name n sl = Some v" unfolding offs by blast
      then show "A v" using l unfolding all_names_def by (metis option.inject)
    qed
  next
    assume r: "\<forall>v \<in> set (type_offs n). A v"
    show "all_names A n" unfolding all_names_def
    proof
      fix sl assume "sl \<in> set (name_slots n)"
      moreover from this obtain v where "get_name n sl = Some v" using name_slots_fit [OF assms] by blast
      ultimately show "\<exists>v. get_name n sl = Some v \<and> A v" using r unfolding offs by blast
    qed
  qed
qed

lemma all_sec_iff: "all_sec A x \<longleftrightarrow> (\<forall>v \<in> set (sec_offs x). A v)"
  by (auto simp: all_sec_def sec_offs_def)

lemma all_offs_iff:
  assumes "\<forall>n \<in> set (tl ts). entry_ok n"
  shows "(\<forall>n \<in> set (tl ts). all_names A n) \<and> all_ext A ext \<longleftrightarrow> (\<forall>v \<in> set (str_offs ts ext). A v)"
proof -
  have "(\<forall>n \<in> set (tl ts). all_names A n) \<longleftrightarrow> (\<forall>v \<in> set (concat (map type_offs (tl ts))). A v)"
    using assms all_names_iff by auto
  moreover have "all_ext A ext \<longleftrightarrow>
      (\<forall>v \<in> set (case ext of None \<Rightarrow> [] | Some xs \<Rightarrow> concat (map sec_offs xs)). A v)"
    by (cases ext) (auto simp: all_ext_def all_sec_iff)
  ultimately show ?thesis unfolding str_offs_def set_append by blast
qed

lemma list_all2_partner: "list_all2 P xs ys \<Longrightarrow> x \<in> set xs \<Longrightarrow> \<exists>y. P x y"
  by (induction xs ys rule: list_all2_induct) auto

lemma renamed_names: "renamed R n n' \<Longrightarrow> \<forall>a b. R a b \<longrightarrow> A a \<Longrightarrow> all_names A n"
  unfolding renamed_def all_names_def by meson

lemma renamed_sec_all: "renamed_sec R x x' \<Longrightarrow> \<forall>a b. R a b \<longrightarrow> A a \<Longrightarrow> all_sec A x"
  unfolding renamed_sec_def all_sec_def by (metis list_all2_partner rel_prod_sel)

lemma renamed_offs:
  assumes "\<forall>n \<in> set (tl ts). entry_ok n" "list_all2 (renamed R) (tl ts) (tl ts')" "renamed_ext R ext ext'"
    "\<forall>a b. R a b \<longrightarrow> A a"
  shows "\<forall>v \<in> set (str_offs ts ext). A v"
proof -
  have "\<forall>n \<in> set (tl ts). all_names A n"
    using list_all2_partner [OF assms(2)] renamed_names [OF _ assms(4)] by blast
  moreover have "all_ext A ext"
  proof (cases ext)
    case (Some xs)
    then obtain xs' where "list_all2 (renamed_sec R) xs xs'"
      using assms(3) by (cases ext') (auto simp: renamed_ext_def)
    then have "\<forall>x \<in> set xs. all_sec A x"
      using list_all2_partner renamed_sec_all [OF _ assms(4)] by metis
    then show ?thesis using Some by (simp add: all_ext_def)
  qed (simp add: all_ext_def)
  ultimately show ?thesis using all_offs_iff [OF assms(1)] by blast
qed

section \<open>The whole pass\<close>

text \<open>What is relied on of \<open>qsort\<close>.\<close>

definition sorts :: "qsort_fn \<Rightarrow> (btf_str_ptr \<Rightarrow> btf_str_ptr \<Rightarrow> int) \<Rightarrow> bool" where
  "sorts qsort cmp \<longleftrightarrow>
     (\<forall>ps. mset (qsort cmp ps) = mset ps \<and> sorted_wrt (\<lambda>p q. cmp p q \<le> 0) (qsort cmp ps))"

lemma sortsD:
  assumes "sorts qsort cmp"
  shows "set (qsort cmp ps) = set ps" "distinct (map f (qsort cmp ps)) = distinct (map f ps)"
    "length (concat (map g (qsort cmp ps))) = length (concat (map g ps))"
    "sorted_wrt (\<lambda>p q. cmp p q \<le> 0) (qsort cmp ps)"
proof -
  have m: "mset (qsort cmp ps) = mset ps" and "sorted_wrt (\<lambda>p q. cmp p q \<le> 0) (qsort cmp ps)"
    using assms by (auto simp: sorts_def)
  then show "sorted_wrt (\<lambda>p q. cmp p q \<le> 0) (qsort cmp ps)" by simp
  show "set (qsort cmp ps) = set ps" using m by (rule mset_eq_setD)
  have "mset (map h (qsort cmp ps)) = mset (map h ps)" for h using m by simp
  then show "distinct (map f (qsort cmp ps)) = distinct (map f ps)" by (rule mset_eq_imp_distinct_iff)
  have "sum_list (map (length \<circ> g) xs) = sum_mset (image_mset (length \<circ> g) (mset xs))" for xs
    by (metis mset_map sum_mset_sum_list)
  then have "sum_list (map (length \<circ> g) (qsort cmp ps)) = sum_list (map (length \<circ> g) ps)" using m by simp
  then show "length (concat (map g (qsort cmp ps))) = length (concat (map g ps))" by (simp add: length_concat comp_def)
qed

text \<open>After the marking: the used strings are those at the offsets in use, and at 0.\<close>

definition marked :: "u8 list \<Rightarrow> nat set \<Rightarrow> btf_str_ptr list \<Rightarrow> bool" where
  "marked buf offs ps \<longleftrightarrow> distinct (map sp_str ps) \<and>
     length (concat (map (\<lambda>q. content buf q @ [0]) ps)) = length buf \<and>
     {sp_str q | q. q \<in> set ps \<and> sp_used q} = offs"

lemma emit_marked:
  assumes "sorts qsort (str_sort_by_content buf)" "sorts qsort str_sort_by_offset"
    "marked buf offs ps" "length buf \<le> 2 ^ 32" "buf ! 0 = 0" "buf \<noteq> []" "0 \<in> offs"
    "emit_groups buf (qsort (str_sort_by_content buf) ps) [] = (ps', out)"
    "qs = qsort str_sort_by_offset ps'"
  shows "distinct (map sp_str qs)" "\<forall>q \<in> set qs. sp_used q \<longrightarrow> placed buf out q"
    "{sp_str q | q. q \<in> set qs \<and> sp_used q} = offs"
    "length out \<le> length buf" "c_string buf 0 = []" "hd out = 0" "out \<noteq> []"
    "\<exists>ss. out = concat (map (\<lambda>s. s @ [0]) ss) \<and> sorted_wrt (\<lambda>a b. c_strcmp a b < 0) ss \<and>
       set ss = c_string buf ` offs"
proof -
  note c = sortsD [OF assms(1)] and o = sortsD [OF assms(2)]
  let ?cs = "qsort (str_sort_by_content buf) ps"
  have sorted: "sorted_wrt (\<lambda>p q. c_strcmp (content buf p) (content buf q) \<le> 0) ?cs"
    using c(4) [of ps] by (simp add: str_sort_by_content_def)
  have e: "emitted buf ?cs [] ps' out" using emit_groups_done [OF sorted, of "[]"] assms(8) by simp
  then have fields: "map sp_str ps' = map sp_str ?cs" "map sp_used ps' = map sp_used ?cs"
    and len: "length out \<le> length (concat (map (\<lambda>q. content buf q @ [0]) ?cs))"
    and pl: "length out \<le> 2 ^ 32 \<longrightarrow> (\<forall>q \<in> set ps'. sp_used q \<longrightarrow> placed buf out q)"
    unfolding emitted_def by simp_all
  have "distinct (map sp_str ps')" using assms(3) unfolding fields(1) c(2) marked_def by blast
  then show "distinct (map sp_str qs)" unfolding assms(9) o(2) .
  show le: "length out \<le> length buf" using len assms(3) unfolding c(3) marked_def by linarith
  show "\<forall>q \<in> set qs. sp_used q \<longrightarrow> placed buf out q" using pl le assms(4,9) o(1) by simp
  have pairs: "{(sp_str q, sp_used q) | q. q \<in> set xs} = set (zip (map sp_str xs) (map sp_used xs))" for xs :: "btf_str_ptr list"
    by (simp add: zip_map_map zip_same_conv_map) auto
  have used: "{sp_str q | q. q \<in> set xs \<and> sp_used q} = {a. (a, True) \<in> {(sp_str q, sp_used q) | q. q \<in> set xs}}"
    for xs :: "btf_str_ptr list" by auto
  have offs: "{sp_str q | q. q \<in> set ?cs \<and> sp_used q} = offs" using assms(3) c(1) by (simp add: marked_def)
  then show "{sp_str q | q. q \<in> set qs \<and> sp_used q} = offs"
    unfolding assms(9) o(1) used pairs fields by simp
  have "content buf ` {q \<in> set ?cs. sp_used q} = c_string buf ` {sp_str q | q. q \<in> set ?cs \<and> sp_used q}" by auto
  then obtain ss where ss: "out = concat (map (\<lambda>s. s @ [0]) ss)" "sorted_wrt (\<lambda>a b. c_strcmp a b < 0) ss"
    "set ss = c_string buf ` offs"
    using e offs unfolding emitted_def by auto
  then show "\<exists>ss. out = concat (map (\<lambda>s. s @ [0]) ss) \<and> sorted_wrt (\<lambda>a b. c_strcmp a b < 0) ss \<and>
       set ss = c_string buf ` offs" by blast
  obtain r where "buf = 0 # r" using assms(5,6) by (cases buf) auto
  then show nil: "c_string buf 0 = []" by (simp add: c_string_def)
  then have mem: "[] \<in> set ss" using ss(3) assms(7) by (metis image_eqI)
  then obtain x xs where x: "ss = x # xs" by (cases ss) auto
  have "x = []"
  proof (rule ccontr)
    assume x0: "x \<noteq> []"
    then have "[] \<in> set xs" using mem x by simp
    then have "c_strcmp x [] < 0" using ss(2) x by simp
    then show False using x0 by (cases x) simp_all
  qed
  then show "hd out = 0" "out \<noteq> []" using ss(1) x by simp_all
qed

lemma str_index_unused:
  "str_index ok buf p cp ptrs = Some (Inr xs) \<Longrightarrow> \<forall>q \<in> set ptrs. \<not> sp_used q \<Longrightarrow> \<forall>q \<in> set xs. \<not> sp_used q"
proof (induction ok buf p cp ptrs rule: str_index.induct)
  case (1 ok buf p cp ptrs)
  let ?grow = "length ptrs + 1 > cp"
  let ?cap = "if ?grow then cp + max (length ptrs div 2) 16 else cp"
  show ?case
  proof (cases "p < length buf")
    case False
    then show ?thesis using "1.prems" by (subst (asm) str_index.simps) simp
  next
    case True
    then have ok: "\<not> (?grow \<and> \<not> ok ?cap)"
      using "1.prems"(1) by (subst (asm) str_index.simps) (auto simp: Let_def split: if_splits)
    then obtain len where len: "c_strlen buf p = Some len"
      using "1.prems"(1) True by (subst (asm) str_index.simps) (auto simp: Let_def split: if_splits option.splits)
    then have "str_index ok buf (p + len + 1) ?cap (ptrs @ [\<lparr>sp_str = p, sp_new_off = None, sp_used = False\<rparr>]) =
        Some (Inr xs)"
      using "1.prems"(1) True ok by (subst (asm) str_index.simps) (simp add: Let_def split: if_splits)
    then show ?thesis using "1.IH" [OF _ refl refl ok len] True "1.prems"(2) by auto
  qed
qed

lemma marking:
  fixes ext :: "line_sec list option"
  assumes "str_index ok buf 0 0 [] = Some (Inr ps)" "buf \<noteq> []" "last buf = 0"
    "ts \<noteq> []" "\<forall>n \<in> set (tl ts). entry_ok n"
  defines "offs \<equiv> insert 0 (unat ` set (str_offs ts ext))"
  shows "ps \<noteq> [] \<and> (\<exists>r ps'.
      btf_for_each_str_off btf_str_mark_as_used ts ext (ps[0 := (ps ! 0)\<lparr>sp_used := True\<rparr>]) = Some (r, ts, ext, ps') \<and>
      (if r = 0 then marked buf offs ps' \<and> (\<forall>v \<in> set (str_offs ts ext). referenced ps' v) else r = - EINVAL))"
proof -
  obtain r where "str_index ok buf 0 0 [] = Some r" "case r of Inl e \<Rightarrow> e = - ENOMEM
      | Inr xs \<Rightarrow> \<exists>ys. xs = [] @ ys \<and> distinct (map sp_str ys) \<and>
          (\<forall>q \<in> set ys. 0 \<le> sp_str q \<and> sp_str q < length buf) \<and>
          concat (map (\<lambda>q. c_string buf (sp_str q) @ [0]) ys) = drop 0 buf \<and>
          (0 < length buf \<longrightarrow> ys \<noteq> [] \<and> sp_str (hd ys) = 0)"
    using str_index_done [OF assms(3), of 0 ok 0 "[]"] by blast
  then have ps: "distinct (map sp_str ps)" "concat (map (\<lambda>q. content buf q @ [0]) ps) = buf" "ps \<noteq> []"
    "sp_str (ps ! 0) = 0"
    using assms(1,2) by (auto simp: hd_conv_nth)
  have unused: "\<forall>q \<in> set ps. \<not> sp_used q" using str_index_unused [OF assms(1)] by simp
  let ?q = "(ps ! 0)\<lparr>sp_used := True\<rparr>"
  let ?ps = "ps[0 := ?q]"
  have fields: "map sp_str ?ps = map sp_str ps"
    using ps(3) by (intro nth_equalityI) (auto simp: nth_list_update)
  have inv: "\<forall>q \<in> set ?ps. sp_used q \<longrightarrow> sp_str q \<in> offs"
    using unused ps(4) by (auto simp: offs_def dest!: set_update_subset_insert [THEN subsetD])
  have "\<forall>v \<in> set (str_offs ts ext). unat v \<in> offs" by (simp add: offs_def)
  then have adm: "\<forall>n \<in> set (tl ts). all_names (\<lambda>v. unat v \<in> offs) n" "all_ext (\<lambda>v. unat v \<in> offs) ext"
    using all_offs_iff [OF assms(5)] by blast+
  obtain r ts' ext' ps' where run:
    "btf_for_each_str_off btf_str_mark_as_used ts ext ?ps = Some (r, ts', ext', ps')"
    "\<forall>q \<in> set ps'. sp_used q \<longrightarrow> sp_str q \<in> offs" "list_all2 same_ptr ?ps ps'"
    "r = 0 \<longrightarrow> list_all2 (renamed (\<lambda>a b. b = a \<and> referenced ps' a)) (tl ts) (tl ts') \<and>
       renamed_ext (\<lambda>a b. b = a \<and> referenced ps' a) ext ext'" "r \<noteq> 0 \<longrightarrow> r = - EINVAL"
    using for_each_good [OF mark_good inv adm assms(4)] by blast
  have keep: "ts' = ts" "ext' = ext" using for_each_mark_keep [OF run(1) assms(4)] by simp_all
  have strs: "map sp_str ps' = map sp_str ps"
    using run(3) unfolding fields [symmetric] by (intro nth_equalityI) (auto simp: list_all2_conv_all_nth same_ptr_def)
  have ref: "\<forall>v \<in> set (str_offs ts ext). referenced ps' v" if "r = 0"
    using renamed_offs [OF assms(5), of "\<lambda>a b. b = a \<and> referenced ps' a" ts' ext ext' "referenced ps'"] run(4) that
    by blast
  have "0 \<in> {sp_str q | q. q \<in> set ps' \<and> sp_used q}"
  proof -
    have "0 < length ps'" using strs ps(3) by (metis length_greater_0_conv length_map)
    moreover from this have "same_ptr (?ps ! 0) (ps' ! 0)" using run(3) by (metis list_all2_nthD2)
    then have "sp_str (ps' ! 0) = 0" "sp_used (ps' ! 0)" using ps(3,4) by (simp_all add: same_ptr_def)
    ultimately show ?thesis by (metis (mono_tags, lifting) mem_Collect_eq nth_mem)
  qed
  then have "{sp_str q | q. q \<in> set ps' \<and> sp_used q} = offs" if "r = 0"
    using ref [OF that] run(2) unfolding offs_def referenced_def by force
  moreover have "length (concat (map (\<lambda>q. content buf q @ [0]) ps')) = length buf"
  proof -
    have "map (\<lambda>q. content buf q @ [0]) ps' = map (\<lambda>p. c_string buf p @ [0]) (map sp_str ps')" by simp
    also have "\<dots> = map (\<lambda>q. content buf q @ [0]) ps" unfolding strs by simp
    finally show ?thesis using ps(2) by metis
  qed
  ultimately have "marked buf offs ps'" if "r = 0" using that ps(1) unfolding marked_def strs by blast
  then show ?thesis using run(1,5) keep ref ps(3) by auto
qed

definition renamed_types :: "(u32 \<Rightarrow> u32 \<Rightarrow> bool) \<Rightarrow> bnode list \<Rightarrow> bnode list \<Rightarrow> bool" where
  "renamed_types R ts ts' \<longleftrightarrow> hd ts' = hd ts \<and> length ts' = length ts \<and> list_all2 (renamed R) (tl ts) (tl ts')"

definition strings_deduped ::
  "u8 list \<Rightarrow> bnode list \<Rightarrow> line_sec list option \<Rightarrow> int \<Rightarrow> bnode list \<Rightarrow> line_sec list option \<Rightarrow> u8 list \<Rightarrow> bool"
where
  "strings_deduped buf ts ext err ts' ext' out \<longleftrightarrow>
    (if err = 0
     then renamed_types (same_text buf out) ts ts' \<and> renamed_ext (same_text buf out) ext ext' \<and>
       out \<noteq> [] \<and> hd out = 0 \<and> length out \<le> length buf \<and>
       (\<exists>ss. out = concat (map (\<lambda>s. s @ [0]) ss) \<and> sorted_wrt (\<lambda>a b. c_strcmp a b < 0) ss \<and>
          set ss = c_string buf ` insert 0 (unat ` set (str_offs ts ext)))
     else (err = - ENOMEM \<or> err = - EINVAL) \<and> ts' = ts \<and> ext' = ext \<and> out = buf)"

lemma dedup_strings_done:
  assumes "sorts qsort (str_sort_by_content buf)" "sorts qsort str_sort_by_offset"
    "buf \<noteq> []" "buf ! 0 = 0" "last buf = 0" "length buf \<le> 2 ^ 32"
    "ts \<noteq> []" "\<forall>n \<in> set (tl ts). entry_ok n"
  shows "\<exists>err ts' ext' out.
    btf_dedup_strings qsort realloc_ok malloc_ok ts ext buf = Some (err, ts', ext', out) \<and>
    strings_deduped buf ts ext err ts' ext' out"
proof -
  have "\<exists>r. str_index realloc_ok buf 0 0 [] = Some r \<and> (\<forall>e. r = Inl e \<longrightarrow> e = - ENOMEM)"
    by (rule ex_forward [OF str_index_done [OF assms(5), of 0 realloc_ok 0 "[]"]]) (auto split: sum.splits)
  then obtain r where idx: "str_index realloc_ok buf 0 0 [] = Some r" and r: "\<forall>e. r = Inl e \<longrightarrow> e = - ENOMEM"
    by blast
  show ?thesis
  proof (cases r)
    case (Inl e)
    then show ?thesis using idx r by (simp add: btf_dedup_strings_def strings_deduped_def)
  next
    case (Inr ps)
    let ?ps = "ps[0 := (ps ! 0)\<lparr>sp_used := True\<rparr>]"
    obtain e ps' where ps: "ps \<noteq> []"
      and mark: "btf_for_each_str_off btf_str_mark_as_used ts ext ?ps = Some (e, ts, ext, ps')"
      and e: "if e = 0 then marked buf (insert 0 (unat ` set (str_offs ts ext))) ps' \<and>
          (\<forall>v \<in> set (str_offs ts ext). referenced ps' v) else e = - EINVAL"
      using marking [OF idx [unfolded Inr] assms(3,5,7,8)] by blast
    show ?thesis
    proof (cases "malloc_ok \<and> e = 0")
      case False
      then show ?thesis using idx Inr ps mark e
        by (cases malloc_ok) (simp_all add: btf_dedup_strings_def strings_deduped_def Let_def)
    next
      case True
      obtain es out where emit: "emit_groups buf (qsort (str_sort_by_content buf) ps') [] = (es, out)"
        by fastforce
      let ?qs = "qsort str_sort_by_offset es"
      note m = emit_marked [OF assms(1,2) _ assms(6,4,3) _ emit refl]
      have qs: "marked buf (insert 0 (unat ` set (str_offs ts ext))) ps'"
        "\<forall>v \<in> set (str_offs ts ext). referenced ps' v" using e True by simp_all
      note m = m [OF qs(1) insertI1]
      have "referenced ?qs v" if "v \<in> set (str_offs ts ext)" for v
      proof -
        have "unat v \<in> {sp_str q | q. q \<in> set ?qs \<and> sp_used q}" unfolding m(3) using that by simp
        then show ?thesis unfolding referenced_def by auto
      qed
      then have adm: "\<forall>n \<in> set (tl ts). all_names (referenced ?qs) n" "all_ext (referenced ?qs) ext"
        using all_offs_iff [OF assms(8)] by blast+
      have c0: "c_string out 0 = c_string buf 0" using m(5-7) by (cases out) (simp_all add: c_string_def)
      obtain ts' ext' where run:
        "btf_for_each_str_off btf_str_remap_offset ts ext ?qs = Some (0, ts', ext', ?qs)"
        "hd ts' = hd ts" "length ts' = length ts" "list_all2 (renamed (same_text buf out)) (tl ts) (tl ts')"
        "renamed_ext (same_text buf out) ext ext'"
        using for_each_good [OF remap_good [OF m(1,2,7) c0] refl adm assms(7)] by auto
      have "btf_dedup_strings qsort realloc_ok malloc_ok ts ext buf = Some (0, ts', ext', out)"
        using idx Inr ps mark emit run(1) True by (simp add: btf_dedup_strings_def Let_def)
      then show ?thesis using run(2-) m(4,6,7,8) by (auto simp: strings_deduped_def renamed_types_def)
    qed
  qed
qed

end
