(* ===== verification/Btf_Dedup_Run.thy ===== *)
theory Btf_Dedup_Run
  imports Btf_Strings
begin

text \<open>
  The whole of \<open>btf__dedup\<close> (\<open>libbpf/src/btf.c\<close> lines 1245 to 1290): the strings, then the types. The types
  that come out are those of the original data with their names at new places, each kept by the passes over
  the types. A sorting function stands for \<open>qsort\<close> in the witnesses.
\<close>

definition btf__dedup ::
  "dedup_alloc \<Rightarrow> qsort_fn \<Rightarrow> (nat \<Rightarrow> bool) \<Rightarrow> bool \<Rightarrow> bool \<Rightarrow> bnode list \<Rightarrow> line_sec list option \<Rightarrow> u8 list \<Rightarrow>
     btf_header \<Rightarrow> u32 \<Rightarrow> u32 \<Rightarrow> btf_dedup_opts option \<Rightarrow>
     (int \<times> bnode list \<times> line_sec list option \<times> u8 list) option" where
  "btf__dedup alloc qsort ptrs_ok tmp_ok shrink_ok ts ext strs hdr tsize dsize opts =
     (case btf_dedup_new alloc ts hdr tsize dsize opts of
        Inl e \<Rightarrow> Some (- EINVAL, ts, ext, strs)
      | Inr d \<Rightarrow>
          do {
            (err, ts, ext, strs) \<leftarrow> btf_dedup_strings qsort ptrs_ok tmp_ok (d_types d) ext strs;
            let hdr = (d_hdr d)\<lparr>str_len := of_nat (length strs)\<rparr>;
            let d = d\<lparr>d_types := ts, d_hdr := hdr\<rparr>;
            if err < 0 then Some (err, ts, ext, strs)
            else
              do {
                (err, d) \<leftarrow> dedup_types shrink_ok d;
                Some (err, d_types d, ext, strs)
              }
          })"

section \<open>New names, same types\<close>

lemma name_not_ref:
  assumes "SlotWord k \<in> set (ref_slots n)"
  shows "NameWord k \<notin> set (name_slots n)"
proof -
  have "3 * i + 1 \<noteq> 3 * j" "2 * i + 1 \<noteq> 2 * j" for i j :: nat by presburger+
  then show ?thesis
    using assms by (auto simp: ref_slots_def name_slots_def Let_def btf_kinds split: if_splits)
qed

lemma renamed_refs:
  assumes "renamed R n n'"
  shows "refs n' = refs n"
proof -
  have slots: "ref_slots n' = ref_slots n" using assms by (intro ref_slots_cong) (simp add: renamed_def)
  have "get_slot n' s = get_slot n s" if "s \<in> set (ref_slots n)" for s
  proof (cases s)
    case SizeType
    then show ?thesis using assms by (simp add: renamed_def)
  next
    case (SlotWord k)
    then have "NameWord k \<notin> set (name_slots n)" using that name_not_ref by blast
    then have "get_name n' (NameWord k) = get_name n (NameWord k)" using assms unfolding renamed_def by meson
    then show ?thesis using SlotWord by simp
  qed
  then show ?thesis unfolding refs_def slots by simp
qed

lemma renamed_entry_ok: "renamed R n n' \<Longrightarrow> entry_ok n' = entry_ok n"
  unfolding renamed_def entry_ok_words using kind_words_cong [of "fst n'" "fst n"] by simp

lemma renamed_canonical: "renamed R n n' \<Longrightarrow> self_canonical n' = self_canonical n"
  unfolding renamed_def self_canonical_def btf_is_var_def using btf_kind_cong [of "fst n'" "fst n"] by simp

lemma renamed_types_nth:
  assumes "renamed_types R ts ts'" "0 < i" "i < length ts"
  shows "renamed R (ts ! i) (ts' ! i)"
proof -
  obtain k where k: "i = Suc k" using assms(2) by (cases i) auto
  have "ts \<noteq> []" "ts' \<noteq> []" using assms(1,3) by (auto simp: renamed_types_def)
  then have "tl ts ! k = ts ! i" "tl ts' ! k = ts' ! i" "k < length (tl ts)"
    using k assms(3) by (cases ts; cases ts'; simp)+
  then show ?thesis using assms(1) by (metis renamed_types_def list_all2_nthD)
qed

lemma renamed_types_zero: "renamed_types R ts ts' \<Longrightarrow> 0 < length ts \<Longrightarrow> ts' ! 0 = ts ! 0"
  unfolding renamed_types_def by (metis hd_conv_nth length_greater_0_conv)

lemma renamed_types_wf:
  assumes "wf_types G" "renamed_types R G G'"
  shows "wf_types G'"
proof -
  have len: "length G' = length G" using assms(2) by (simp add: renamed_types_def)
  have zero: "G' ! 0 = G ! 0" using renamed_types_zero [OF assms(2)] assms(1) by (simp add: wf_types_def)
  have "refs (G' ! i) = refs (G ! i)" "0 < i \<Longrightarrow> entry_ok (G' ! i) = entry_ok (G ! i)" if "i < length G" for i
    using renamed_refs [OF renamed_types_nth [OF assms(2)]] renamed_entry_ok [OF renamed_types_nth [OF assms(2)]]
      that zero by (cases "i = 0"; simp)+
  then show ?thesis using assms(1) zero unfolding wf_types_def len by simp
qed

lemma renamed_types_new:
  assumes "btf_dedup_new alloc G hdr tsize dsize opts = Inr d" "renamed_types R G G'"
  shows "btf_dedup_new alloc G' hdr' tsize dsize opts = Inr (d\<lparr>d_types := G', d_hdr := hdr'\<rparr>)"
proof -
  have len: "length G' = length G" using assms(2) by (simp add: renamed_types_def)
  have "map (\<lambda>i. if self_canonical (G' ! i) then of_nat i else BTF_UNPROCESSED_ID) [1..<length G] =
      map (\<lambda>i. if self_canonical (G ! i) then of_nat i else BTF_UNPROCESSED_ID :: u32) [1..<length G]"
    using renamed_canonical [OF renamed_types_nth [OF assms(2)]] by (intro map_cong) auto
  then show ?thesis using assms(1) len
    by (auto simp: btf_dedup_new_def Let_def split: if_splits sum.splits)
qed

section \<open>A sorting function\<close>

fun insert_by :: "('a \<Rightarrow> 'a \<Rightarrow> int) \<Rightarrow> 'a \<Rightarrow> 'a list \<Rightarrow> 'a list" where
  "insert_by cmp x [] = [x]"
| "insert_by cmp x (y # ys) = (if cmp x y \<le> 0 then x # y # ys else y # insert_by cmp x ys)"

definition isort_by :: "('a \<Rightarrow> 'a \<Rightarrow> int) \<Rightarrow> 'a list \<Rightarrow> 'a list" where
  "isort_by cmp xs = foldr (insert_by cmp) xs []"

lemma insert_by_mset [simp]: "mset (insert_by cmp x ys) = add_mset x (mset ys)"
  by (induction ys) auto

lemma insert_by_sorted:
  assumes "\<And>x y. cmp x y \<le> 0 \<or> cmp y x \<le> 0" "\<And>x y z. cmp x y \<le> 0 \<Longrightarrow> cmp y z \<le> 0 \<Longrightarrow> cmp x z \<le> (0 :: int)"
  shows "sorted_wrt (\<lambda>p q. cmp p q \<le> 0) ys \<Longrightarrow> sorted_wrt (\<lambda>p q. cmp p q \<le> 0) (insert_by cmp x ys)"
proof (induction ys)
  case (Cons y ys)
  have set: "set (insert_by cmp x ys) = insert x (set ys)"
    using insert_by_mset [of cmp x ys] by (metis set_mset_add_mset_insert set_mset_mset)
  show ?case
  proof (cases "cmp x y \<le> 0")
    case True
    then show ?thesis using Cons.prems assms(2) [OF True] by auto
  next
    case False
    then have "cmp y x \<le> 0" using assms(1) [of x y] by simp
    then show ?thesis using Cons False set by auto
  qed
qed simp

lemma isort_sorts:
  assumes "\<And>x y. cmp x y \<le> 0 \<or> cmp y x \<le> 0" "\<And>x y z. cmp x y \<le> 0 \<Longrightarrow> cmp y z \<le> 0 \<Longrightarrow> cmp x z \<le> (0 :: int)"
  shows "sorts isort_by cmp"
  unfolding sorts_def
proof
  fix ps
  show "mset (isort_by cmp ps) = mset ps \<and> sorted_wrt (\<lambda>p q. cmp p q \<le> 0) (isort_by cmp ps)"
    using insert_by_sorted [of cmp, OF assms] by (induction ps) (simp_all add: isort_by_def)
qed

lemma c_strcmp_total: "c_strcmp a b \<le> 0 \<or> c_strcmp b a \<le> 0"
  by (induction a b rule: c_strcmp.induct) auto

lemma isort_by_content: "sorts isort_by (str_sort_by_content buf)"
  by (rule isort_sorts) (use c_strcmp_total c_strcmp_trans in \<open>auto simp: str_sort_by_content_def\<close>)

lemma isort_by_offset: "sorts isort_by str_sort_by_offset"
  by (rule isort_sorts) (auto simp: str_sort_by_offset_def split: if_splits)

section \<open>Theorems\<close>

text \<open>
  An integer and a struct with a pointer to itself, each written twice with strings of its own.
\<close>

definition dedup_run_sample :: "bnode list" where
  "dedup_run_sample =
     [void_node,
      (\<lparr>name_off = 1, info = 0x01000000, size_type = 4\<rparr>, [32]),
      (\<lparr>name_off = 0, info = 0x02000000, size_type = 3\<rparr>, []),
      (\<lparr>name_off = 5, info = 0x04000002, size_type = 16\<rparr>, [7, 1, 0, 9, 2, 64]),
      (\<lparr>name_off = 11, info = 0x01000000, size_type = 4\<rparr>, [32]),
      (\<lparr>name_off = 15, info = 0x04000002, size_type = 16\<rparr>, [7, 4, 0, 9, 6, 64]),
      (\<lparr>name_off = 0, info = 0x02000000, size_type = 5\<rparr>, [])]"

definition dedup_run_strings :: "u8 list" where
  "dedup_run_strings = [0, 105, 110, 116, 0, 83, 0, 97, 0, 98, 0, 105, 110, 116, 0, 83, 0]"

definition dedup_run_lines :: "line_sec list option" where
  "dedup_run_lines = Some [\<lparr>ls_sec_name_off = 15, ls_lines = [(7, 11)]\<rparr>]"

text \<open>
  The comments of the code promise more than it does: all strings that \<open>.BTF.ext\<close> refers to are to be kept,
  but the code visits the line information only. A string that no type and no line information refers to,
  say the access string of a field relocation, is not in the new section, while the offset in the record
  stays as it was.
\<close>

lemma strings_of_concat:
  assumes "\<forall>s \<in> set ss. (0 :: u8) \<notin> set s"
  shows "q < length (concat (map (\<lambda>s. s @ [0]) ss)) \<Longrightarrow>
    q = 0 \<or> concat (map (\<lambda>s. s @ [0]) ss) ! (q - 1) = 0 \<Longrightarrow> c_string (concat (map (\<lambda>s. s @ [0]) ss)) q \<in> set ss"
  using assms
proof (induction ss arbitrary: q)
  case (Cons s ss)
  let ?out = "concat (map (\<lambda>s. s @ [0]) ss)"
  show ?case
  proof (cases "q = 0")
    case True
    have "takeWhile (\<lambda>x. x \<noteq> 0) (s @ 0 # ?out) = s"
      using Cons.prems(3) by (subst takeWhile_append2) auto
    then show ?thesis using True by (simp add: c_string_def)
  next
    case False
    have "\<not> q \<le> length s"
    proof
      assume "q \<le> length s"
      then have "(s @ 0 # ?out) ! (q - 1) = s ! (q - 1)" "q - 1 < length s"
        using False by (auto simp: nth_append)
      then show False using Cons.prems(2,3) False nth_mem [of "q - 1" s] by auto
    qed
    then obtain r where r: "q = length s + 1 + r" by (metis Suc_eq_plus1 not_less_eq_eq le_Suc_ex)
    have "r < length ?out" using Cons.prems(1) r by simp
    moreover have "r = 0 \<or> ?out ! (r - 1) = 0"
      using Cons.prems(2) r by (cases r) (simp_all add: nth_append)
    ultimately have "c_string ?out r \<in> set ss" using Cons.IH Cons.prems(3) by simp
    then show ?thesis using r by (simp add: c_string_def)
  qed
qed simp

lemma dedup_drops_unvisited:
  assumes "sorts qsort (str_sort_by_content buf)" "sorts qsort str_sort_by_offset"
    "buf \<noteq> []" "buf ! 0 = 0" "last buf = 0" "length buf \<le> 2 ^ 32" "ts \<noteq> []" "\<forall>n \<in> set (tl ts). entry_ok n"
    and run: "btf_dedup_strings qsort realloc_ok malloc_ok ts ext buf = Some (0, ts', ext', out)"
    and unvisited: "str \<noteq> []" "\<forall>v \<in> set (str_offs ts ext). c_string buf (unat v) \<noteq> str"
    and q: "q < length out" "q = 0 \<or> out ! (q - 1) = 0"
  shows "c_string out q \<noteq> str"
proof -
  have "strings_deduped buf ts ext 0 ts' ext' out" using dedup_strings_done [OF assms(1-8), of realloc_ok malloc_ok ext] run by simp
  then obtain ss where ss: "out = concat (map (\<lambda>s. s @ [0]) ss)"
    "set ss = c_string buf ` insert 0 (unat ` set (str_offs ts ext))"
    by (auto simp: strings_deduped_def)
  have "\<forall>s \<in> set ss. (0 :: u8) \<notin> set s" unfolding ss(2) by (auto simp: c_string_def dest: set_takeWhileD)
  then have "c_string out q \<in> set ss" using strings_of_concat q unfolding ss(1) by blast
  moreover have "c_string buf 0 = []" using assms(3,4) by (cases buf) (simp_all add: c_string_def)
  ultimately show ?thesis using unvisited unfolding ss(2) by auto
qed

text \<open>C2: Deduplicating the strings always ends well-defined: with a section that begins and ends with a
  zero byte and types that fit their data, no offset is ever read outside the section and no place is used
  before it is set. On success every name of a type, member, enumerator or parameter and every offset of the
  line information denotes the same string in the new section as before in the old one, everything else of
  the types is unchanged, and the new section is no longer than the old and holds, each once, exactly the
  strings that these refer to and the empty string; those that only the function information or the field
  relocations of \<open>.BTF.ext\<close> refer to are not kept, against the comments of the code, which promise it for
  all of \<open>.BTF.ext\<close>. On an error (no memory, or an offset that is not the start of a string) nothing is
  changed.\<close>

theorem dedup_strings_keeps_names:
  assumes "sorts qsort (str_sort_by_content buf)" "sorts qsort str_sort_by_offset"
    "buf \<noteq> []" "buf ! 0 = 0" "last buf = 0" "length buf \<le> 2 ^ 32"
    "ts \<noteq> []" "\<forall>n \<in> set (tl ts). entry_ok n"
  shows "\<exists>err ts' ext' out.
    btf_dedup_strings qsort realloc_ok malloc_ok ts ext buf = Some (err, ts', ext', out) \<and>
    strings_deduped buf ts ext err ts' ext' out"
  by (rule dedup_strings_done [OF assms])

theorem dedup_strings_keeps_names_witness:
  "\<exists>ts. btf_dedup_strings isort_by (\<lambda>_. True) True dedup_run_sample dedup_run_lines dedup_run_strings =
       Some (0, ts, Some [\<lparr>ls_sec_name_off = 1, ls_lines = [(3, 7)]\<rparr>], [0, 83, 0, 97, 0, 98, 0, 105, 110, 116, 0]) \<and>
     strings_deduped dedup_run_strings dedup_run_sample dedup_run_lines 0 ts
       (Some [\<lparr>ls_sec_name_off = 1, ls_lines = [(3, 7)]\<rparr>]) [0, 83, 0, 97, 0, 98, 0, 105, 110, 116, 0]"
proof -
  have "map_option (\<lambda>(e, ts, x). (e, x))
      (btf_dedup_strings isort_by (\<lambda>_. True) True dedup_run_sample dedup_run_lines dedup_run_strings) =
    Some (0, Some [\<lparr>ls_sec_name_off = 1, ls_lines = [(3, 7)]\<rparr>], [0, 83, 0, 97, 0, 98, 0, 105, 110, 116, 0])"
    by code_simp
  moreover have "list_all entry_ok (tl dedup_run_sample)" by code_simp
  ultimately show ?thesis
    using dedup_strings_keeps_names [OF isort_by_content isort_by_offset, of dedup_run_strings dedup_run_sample
        "\<lambda>_. True" True dedup_run_lines]
    by (auto simp: dedup_run_strings_def dedup_run_sample_def list_all_iff)
qed

text \<open>C1: \<open>btf__dedup\<close> as a whole, on well-formed types with a string section that begins and ends with a
  zero byte, without resolving forward declarations. Whatever allocations succeed it returns. On success
  there are the original types with every name at a new place that holds the same string (the same for the
  line information), and a final id for each original one that stands for the same of these types, through
  all references; void stays void, every final type comes from an original one, and neither the types nor
  the strings have grown.\<close>

theorem btf_dedup_correct:
  assumes "wf_types G" "opt_dont_resolve_fwds opts"
    "sorts qsort (str_sort_by_content strs)" "sorts qsort str_sort_by_offset"
    "strs \<noteq> []" "strs ! 0 = 0" "last strs = 0" "length strs \<le> 2 ^ 32"
  shows "\<exists>err ts ext' out.
    btf__dedup alloc qsort ptrs_ok tmp_ok shrink_ok G ext strs hdr tsize dsize (Some opts) =
      Some (err, ts, ext', out) \<and> err \<le> 0 \<and>
    (err = 0 \<longrightarrow> renamed_ext (same_text strs out) ext ext' \<and> length out \<le> length strs \<and> length ts \<le> length G \<and>
       (\<exists>G' f. renamed_types (same_text strs out) G G' \<and> f 0 = 0 \<and>
          (\<forall>i. unat i < length G \<longrightarrow> unat (f i) < length ts \<and> same_type G' ts i (f i)) \<and>
          (\<forall>j. unat j < length ts \<longrightarrow> (\<exists>i. unat i < length G \<and> f i = j))))"
proof (cases "btf_dedup_new alloc G hdr tsize dsize (Some opts)")
  case (Inl e)
  then show ?thesis by (simp add: btf__dedup_def)
next
  case (Inr d)
  have dG: "d_types d = G" by (rule dedup_new_inv(3) [OF assms(1) Inr assms(2)])
  have "G \<noteq> []" using assms(1) by (auto simp: wf_types_def)
  moreover have "\<forall>n \<in> set (tl G). entry_ok n"
  proof
    fix n assume "n \<in> set (tl G)"
    then obtain k where "k < length (tl G)" "n = tl G ! k" by (auto simp: in_set_conv_nth)
    then show "entry_ok n" using assms(1) by (simp add: wf_types_def nth_tl)
  qed
  ultimately obtain err G' ext' out where strings:
    "btf_dedup_strings qsort ptrs_ok tmp_ok G ext strs = Some (err, G', ext', out)"
    "strings_deduped strs G ext err G' ext' out"
    using dedup_strings_done [OF assms(3-8)] by blast
  let ?hdr = "(d_hdr d)\<lparr>str_len := of_nat (length out)\<rparr>"
  let ?d = "d\<lparr>d_types := G', d_hdr := ?hdr\<rparr>"
  show ?thesis
  proof (cases "err = 0")
    case False
    then have "err < 0" using strings(2) by (auto simp: strings_deduped_def)
    then show ?thesis using Inr dG strings(1) by (simp add: btf__dedup_def)
  next
    case True
    then have names: "renamed_types (same_text strs out) G G'" "renamed_ext (same_text strs out) ext ext'"
      "length out \<le> length strs" using strings(2) by (simp_all add: strings_deduped_def)
    note wf = renamed_types_wf [OF assms(1) names(1)]
    note new = renamed_types_new [OF Inr names(1), of ?hdr]
    have len: "length G' = length G" using names(1) by (simp add: renamed_types_def)
    obtain e d' where types: "dedup_types shrink_ok ?d = Some (e, d')" "e \<le> 0"
      "e = 0 \<longrightarrow> length (d_types d') \<le> length G' \<and>
         (\<exists>f. f 0 = 0 \<and>
            (\<forall>i. unat i < length G' \<longrightarrow> unat (f i) < length (d_types d') \<and> same_type G' (d_types d') i (f i)) \<and>
            (\<forall>j. unat j < length (d_types d') \<longrightarrow> (\<exists>i. unat i < length G' \<and> f i = j)))"
      using dedup_types_done [OF dedup_new_inv(1,2,4) [OF wf new assms(2)], of shrink_ok] by blast
    have "btf__dedup alloc qsort ptrs_ok tmp_ok shrink_ok G ext strs hdr tsize dsize (Some opts) =
        Some (e, d_types d', ext', out)"
      using Inr dG strings(1) types(1) True by (simp add: btf__dedup_def)
    then show ?thesis using types(2,3) names unfolding len by blast
  qed
qed

lemma dedup_run_sample_wf: "wf_types dedup_run_sample"
proof -
  have all: "\<forall>i \<in> set [0..<length dedup_run_sample]. (i = 0 \<or> entry_ok (dedup_run_sample ! i)) \<and>
      list_all (\<lambda>r. unat r < length dedup_run_sample) (refs (dedup_run_sample ! i))"
    unfolding dedup_run_sample_def by code_simp
  have "i = 0 \<or> entry_ok (dedup_run_sample ! i)"
    "\<forall>r \<in> set (refs (dedup_run_sample ! i)). unat r < length dedup_run_sample"
    if "i < length dedup_run_sample" for i
    using bspec [OF all, of i] that by (simp_all add: list_all_iff)
  moreover have "length dedup_run_sample = 7" "dedup_run_sample ! 0 = void_node"
    by (simp_all add: dedup_run_sample_def)
  ultimately show ?thesis by (auto simp: wf_types_def)
qed

definition dedup_run_alloc :: dedup_alloc where
  "dedup_run_alloc = \<lparr>alloc_self = True, alloc_table = True, alloc_map = True, alloc_hypot_map = True,
     alloc_list = (\<lambda>_. True), alloc_entry = (\<lambda>_. (True, True)), alloc_types = True\<rparr>"

definition dedup_run_result :: "(int \<times> bnode list \<times> line_sec list option \<times> u8 list) option" where
  "dedup_run_result = btf__dedup dedup_run_alloc isort_by (\<lambda>_. True) True True dedup_run_sample dedup_run_lines
     dedup_run_strings
     \<lparr>magic = BTF_MAGIC, version = BTF_VERSION, hflags = 0, hdr_len = 24, type_off = 0, type_len = 132,
       str_off = 132, str_len = 17\<rparr> 16 173 (Some \<lparr>dedup_table_size = 0, opt_dont_resolve_fwds = True\<rparr>)"

theorem btf_dedup_correct_witness:
  "\<exists>ts ext out G' f. dedup_run_result = Some (0, ts, ext, out) \<and> length ts = 4 \<and> length out = 11 \<and>
     renamed_types (same_text dedup_run_strings out) dedup_run_sample G' \<and> same_type G' ts 5 (f (5 :: u32))"
proof -
  have "map_option (\<lambda>(e, ts, ext, out). (e, length ts, length out)) dedup_run_result = Some (0, 4, 11)"
    unfolding dedup_run_result_def by code_simp
  then obtain ts ext out where run: "dedup_run_result = Some (0, ts, ext, out)" "length ts = 4" "length out = 11"
    by auto
  have hyps: "dedup_run_strings \<noteq> []" "dedup_run_strings ! 0 = 0" "last dedup_run_strings = 0"
    "length dedup_run_strings \<le> 2 ^ 32" "unat (5 :: u32) < length dedup_run_sample"
    by (simp_all add: dedup_run_strings_def dedup_run_sample_def)
  obtain G' and f :: "u32 \<Rightarrow> u32" where
    "renamed_types (same_text dedup_run_strings out) dedup_run_sample G'"
    "\<forall>i. unat i < length dedup_run_sample \<longrightarrow> unat (f i) < length ts \<and> same_type G' ts i (f i)"
    using btf_dedup_correct [OF dedup_run_sample_wf _ isort_by_content isort_by_offset hyps(1-4), of
      "\<lparr>dedup_table_size = 0, opt_dont_resolve_fwds = True\<rparr>" dedup_run_alloc "\<lambda>_. True" True True dedup_run_lines
      "\<lparr>magic = BTF_MAGIC, version = BTF_VERSION, hflags = 0, hdr_len = 24, type_off = 0, type_len = 132,
         str_off = 132, str_len = 17\<rparr>" 16 173, folded dedup_run_result_def] unfolding run(1) by auto
  then show ?thesis using run hyps(5) by blast
qed

end
