(* ===== verification/Spec2Isabelle.thy ===== *)
theory Spec2Isabelle
  imports Fcount File_Reader Biostat Offcpu Tcpdrop Tcpreq Hashmap Nlattr Netlink Xsk_Ring Prog_Linfo Btf Btf_Ext Core_Spec Core_Reloc Perf_Buffer Bpf_Object Prog_Reloc Btf_Dedup_Run
begin

text \<open>
  Verification library for Kmon.

  Kmon observes Linux systems with programs that run in the kernel. The repository holds four kinds of
  code: probes written in C for BCC (\<open>release/bcc\<close>) and for libbpf (\<open>ebpf/src\<close>), the C library libbpf
  (\<open>libbpf/src\<close>) that loads probes and exchanges data with them, and collectors in Go that start the
  probes and export what they report. This library models the probes and the parts of libbpf that have
  logic of their own, in the following layers; a theory imports the layers it stands on.

  \<^item> \<open>Kmon_Prelude\<close>: machine integers, error numbers, generic facts. \<open>Bpf_Runtime\<close>: the maps the probes
    share with user space, with the interface \<open>bpf_hash_map\<close> that states what the map helpers promise,
    interpreted on the model of the helpers. \<open>Byte_Buffer\<close>: reading and writing integers in byte buffers.
  \<^item> The probes, one theory each: \<open>Fcount\<close> (\<open>fcount.c\<close>), \<open>Biostat\<close> (\<open>biostat.c\<close>), \<open>Offcpu\<close> (\<open>offcpu.c\<close>),
    \<open>Tcpdrop\<close> (\<open>tcpdrop.c\<close>), \<open>Tcpreq\<close> (\<open>tcpreq.c\<close>) and \<open>File_Reader\<close> (\<open>file_reader.c\<close>). The state of a probe is
    the record of its maps and output buffers, and every probe function is one function on this state.
    What the kernel hands to a probe (process ids, clock, socket and request fields, memory that is read)
    is an argument. A run of a probe is the fold of its functions over a list of events, so a statement about
    all lists covers every order in which the functions can run one after the other, on any processors.
    Each function runs whole: functions that overlap in time are not modelled, and neither are updates of
    the maps by user space during a run; the tables user space fills stay as they are at its start.
  \<^item> \<open>Hashmap\<close> (\<open>hashmap.c\<close>): the hash map of libbpf. It refines an abstract dictionary, stated as the
    interface \<open>dictionary\<close>. \<open>Core_Reloc\<close> uses it as its cache, \<open>Btf_Dedup\<close> as its table of candidates.
  \<^item> \<open>Nlattr\<close> (\<open>nlattr.c\<close>) and \<open>Netlink\<close> (\<open>netlink.c\<close>): attributes inside netlink messages, requests, and the
    receive loop. System calls are arguments, a conversation is the list of what \<open>recv\<close> returns.
  \<^item> \<open>Xsk_Ring\<close> (\<open>xsk.h\<close>, set-up in \<open>xsk.c\<close>): the rings that an application and the kernel share, as a step
    relation over both sides, each side using the operations of \<open>xsk.h\<close>. \<open>Perf_Buffer\<close> (\<open>libbpf.c\<close>): the rings of records that come from the probes.
  \<^item> \<open>Prog_Linfo\<close> (\<open>bpf_prog_linfo.c\<close>): line information of a loaded program.
  \<^item> \<open>Btf\<close>, \<open>Btf_Ext\<close> (\<open>btf.c\<close>): parsing and querying type information. \<open>Btf_Shape\<close>, \<open>Btf_Dedup\<close>,
    \<open>Btf_Dedup_Sound\<close>, \<open>Btf_Dedup_Final\<close> (\<open>btf.c\<close>): the deduplication of types and the proof that it
    keeps every type. \<open>Btf_Strings\<close>, \<open>Btf_Dedup_Run\<close>: that of the strings, and \<open>btf__dedup\<close> as a whole.
  \<^item> \<open>Core_Spec\<close>, \<open>Core_Reloc\<close>, \<open>Bpf_Object\<close>, \<open>Prog_Reloc\<close> (\<open>libbpf.c\<close>): from the access string of a field
    through the search in the types of the running kernel to the patched instruction, and the relocation of
    maps, global data and calls when an object is opened and loaded.

  Correspondence. A C structure is a record with its fields, an enumeration a datatype, an integer a word
  of its width; where the code converts between widths or compares signed numbers the model does so too. A
  function keeps its name. A negative error code is the left side of a sum or a negative \<open>int\<close>; the value
  \<open>None\<close> stands for what the C standard leaves undefined (a read or write outside an array, a freed or null
  pointer) or for a loop that does not end, and the safety theorems show that it does not occur, or under
  which conditions it does. A function that stores through pointers returns the new state. Outcomes of
  allocations are arguments. Theorems quantify over them where the code has an error path for them (hash
  map, deduplication, opening of perf buffers, parsing of \<open>.BTF.ext\<close>, copies out of it, candidates of a type);
  where a theorem is about what happens once memory was obtained, as the round trip of the BTF constructor
  and the delivery of perf records, its text says that the allocations succeed.

  What the lemmas show. Parsers: they read only what they were given, accept what a writer produces, and
  give it back. Searches and caches: equivalence with a direct definition. Rings and dumps: everything
  written arrives once and in order. Relocation: exactly the intended bits of exactly the intended
  instructions change, and reading a relocated bit field gives the value of the field. Probes: the tables
  are the sums of what happened. Error theorems state what the code does where it goes wrong: reads past the
  end of a stream, a vector that is too small, a cleared map that is used again, long names, unchecked offsets.

  Bounds. \<open>MAX_RESOLVE_DEPTH\<close> (32), \<open>BPF_CORE_SPEC_MAX_LEN\<close> (64) and the other limits are those of the code.
  Recursion of the code without a limit of its own has a fuel argument or is a partial function.
  \<open>match_depth\<close> is 65, one more than the longest specification; the theorem \<open>match_depth_enough\<close> shows
  that no larger value changes a result. The recursions of the deduplication have one more than the number of
  types: each level marks another type, in the hypothetical map or as being in progress. Loops
  that may run forever on malformed input are partial functions. That the loop over a perf ring
  (\<open>perf_read_loop\<close>) and the one that resolves ids in the deduplication (\<open>resolve_type_id\<close>) return is part
  of \<open>perf_poll_delivers\<close> and \<open>btf_dedup_correct\<close>. The loops over modifiers of types (\<open>skip_from\<close>,
  \<open>bpf_core_fields_are_compat\<close>) do not end on a cycle of modifiers, which nothing in the parser excludes: the
  theorems on the search for fields and candidates are about searches that give a result.

  Not modelled. Parsing of ELF files and loading of programs and maps through libelf and the kernel, the
  wrappers of system calls (\<open>bpf.c\<close>), sockets and memory areas of AF_XDP, feature probes, the dump of types
  as C source (\<open>btf_dump.c\<close>), error strings, headers that only declare, and the code in Go and shell. Log
  output is left out everywhere. What the modelled code takes from these parts (entries of ELF tables,
  answers of system calls, numbers of kernel headers) are arguments of the definitions.
\<close>

end
